(* ===== verification/Prelude.thy ===== *)
theory Prelude
  imports Main "HOL-Library.Word" "HOL-Library.AList" "HOL-Library.Multiset"
begin

text \<open>
  Shared vocabulary of the development.

  Go strings and byte slices are sequences of bytes, so both are \<^typ>\<open>char list\<close>:
  a HOL \<^typ>\<open>char\<close> is exactly one byte.  Go's \<open>int\<close> and \<open>int64\<close> values are
  HOL integers, with the two's-complement wrap-around written out by \<open>int64\<close> and \<open>int32\<close>
  where the source multiplies or converts.

  The theory also holds the development's collections of rewrite rules, and the generic facts on
  lists, association lists and multisets that several components use.
\<close>

named_theorems ascii_simps \<open>evaluation of the string routines on single-byte runes\<close>
named_theorems codec_simps \<open>evaluation of encoders and decoders on bytes\<close>
named_theorems chan_simps \<open>access to the heap of channels and receipts\<close>
named_theorems step_intros \<open>introduction rules of the step relations\<close>

type_synonym bytes = string
type_synonym str_map = "(string \<times> string) list"

abbreviation byte :: "char \<Rightarrow> nat" where
  "byte c \<equiv> of_char c"

text \<open>Two's-complement truncation, as Go's integer conversions and products perform it.\<close>

definition int64 :: "int \<Rightarrow> int" where
  "int64 i = (i + 2 ^ 63) mod 2 ^ 64 - 2 ^ 63"

definition int32 :: "int \<Rightarrow> int" where
  "int32 i = (i + 2 ^ 31) mod 2 ^ 32 - 2 ^ 31"

text \<open>A Go \<open>for k, v := range m { dst[k] = v }\<close> over the entries of a map.\<close>

definition range_copy :: "('k \<times> 'v) list \<Rightarrow> ('k \<rightharpoonup> 'v) \<Rightarrow> ('k \<rightharpoonup> 'v)" where
  "range_copy kvs m = fold (\<lambda>(k, v) d. d(k \<mapsto> v)) kvs m"

text \<open>Removing the element at one position of a list.\<close>

definition remove_nth :: "nat \<Rightarrow> 'a list \<Rightarrow> 'a list" where
  "remove_nth i xs = take i xs @ drop (Suc i) xs"

subsection \<open>Bytes\<close>

lemma byte_eq_iff: "byte c = byte d \<longleftrightarrow> c = d"
  by (metis char_of_char)

lemma byte_char_of [simp]: "n < 256 \<Longrightarrow> byte (char_of n) = n"
  by simp

subsection \<open>Integer widths\<close>

lemma int64_id: "- (2 ^ 63) \<le> i \<Longrightarrow> i < 2 ^ 63 \<Longrightarrow> int64 i = i"
  by (simp add: int64_def)

lemma int32_id: "- (2 ^ 31) \<le> i \<Longrightarrow> i < 2 ^ 31 \<Longrightarrow> int32 i = i"
  by (simp add: int32_def)

lemma int64_word: "int64 i = sint (word_of_int i :: 64 word)"
  by (simp add: int64_def int_word_sint)

lemma int32_word: "int32 i = sint (word_of_int i :: 32 word)"
  by (simp add: int32_def int_word_sint)

subsection \<open>Copying a map entry by entry\<close>

lemma range_copy_Nil [simp]: "range_copy [] m = m"
  by (simp add: range_copy_def)

lemma range_copy_Cons [simp]: "range_copy ((k, v) # kvs) m = range_copy kvs (m(k \<mapsto> v))"
  by (simp add: range_copy_def)

lemma range_copy_distinct:
  "distinct (map fst kvs) \<Longrightarrow> range_copy kvs m = m ++ map_of kvs"
proof (induction kvs arbitrary: m)
  case Nil
  then show ?case by simp
next
  case (Cons kv kvs)
  obtain k v where kv: "kv = (k, v)" by fastforce
  from Cons.prems kv have "k \<notin> dom (map_of kvs)" by (simp add: dom_map_of_conv_image_fst)
  moreover from Cons kv have "range_copy (kv # kvs) m = m(k \<mapsto> v) ++ map_of kvs" by simp
  ultimately show ?case using kv
    by (auto simp: fun_eq_iff map_add_def split: option.splits)
qed

corollary range_copy_empty:
  "distinct (map fst kvs) \<Longrightarrow> range_copy kvs Map.empty = map_of kvs"
  by (simp add: range_copy_distinct)

subsection \<open>Association lists\<close>

lemma distinct_fst_update [simp]:
  "distinct (map fst al) \<Longrightarrow> distinct (map fst (AList.update k v al))"
  by (rule distinct_update)

lemma map_of_update [simp]: "map_of (AList.update k v al) = (map_of al)(k \<mapsto> v)"
  by (rule update_conv')

lemma set_fst_update [simp]: "set (map fst (AList.update k v al)) = insert k (set (map fst al))"
  by (metis dom_map_of_conv_image_fst dom_fun_upd list.set_map map_of_update option.distinct(1))

lemma set_update_subset: "set (AList.update k v al) \<subseteq> insert (k, v) (set al)"
  by (induction al) auto

subsection \<open>Positions in lists\<close>

lemma length_remove_nth [simp]: "i < length xs \<Longrightarrow> length (remove_nth i xs) = length xs - 1"
  by (auto simp: remove_nth_def)

lemma mset_remove_nth: "i < length xs \<Longrightarrow> mset (remove_nth i xs) = mset xs - {#xs ! i#}"
proof -
  assume "i < length xs"
  then have "xs = take i xs @ xs ! i # drop (Suc i) xs" by (rule id_take_nth_drop)
  then have "mset xs = mset (take i xs) + add_mset (xs ! i) (mset (drop (Suc i) xs))"
    by (metis mset.simps(2) mset_append)
  then show ?thesis by (simp add: remove_nth_def)
qed

lemma mset_update_add:
  "i < length xs \<Longrightarrow> add_mset (xs ! i) (mset (xs[i := y])) = add_mset y (mset xs)"
  by (simp add: mset_update)

text \<open>What a list contributes element by element, when one position is replaced or removed.\<close>

lemma mset_concat_update:
  "i < length xs \<Longrightarrow>
   mset (concat (map g (xs[i := y]))) + mset (g (xs ! i)) = mset (concat (map g xs)) + mset (g y)"
proof (induction xs arbitrary: i)
  case (Cons x xs)
  then show ?case by (cases i) (auto simp: ac_simps)
qed simp

lemma mset_concat_remove:
  "i < length xs \<Longrightarrow>
   mset (concat (map g (remove_nth i xs))) + mset (g (xs ! i)) = mset (concat (map g xs))"
proof (induction xs arbitrary: i)
  case (Cons x xs)
  then show ?case by (cases i) (auto simp: ac_simps remove_nth_def)
qed simp

lemma length_concat_update:
  assumes "i < length xs"
  shows "length (concat (map g (xs[i := y]))) + length (g (xs ! i)) = length (concat (map g xs)) + length (g y)"
  using arg_cong [OF mset_concat_update [OF assms, of g y], of size] by simp

lemma length_concat_remove:
  assumes "i < length xs"
  shows "length (concat (map g (remove_nth i xs))) + length (g (xs ! i)) = length (concat (map g xs))"
  using arg_cong [OF mset_concat_remove [OF assms, of g], of size] by simp

lemma sum_list_map_update:
  fixes f :: "'a \<Rightarrow> nat"
  shows "i < length xs \<Longrightarrow> sum_list (map f (xs[i := y])) + f (xs ! i) = sum_list (map f xs) + f y"
proof (induction xs arbitrary: i)
  case (Cons x xs)
  then show ?case by (cases i) (auto simp: ac_simps)
qed simp

lemma sum_list_map_remove:
  fixes f :: "'a \<Rightarrow> nat"
  shows "i < length xs \<Longrightarrow> sum_list (map f (remove_nth i xs)) + f (xs ! i) = sum_list (map f xs)"
proof (induction xs arbitrary: i)
  case (Cons x xs)
  then show ?case by (cases i) (auto simp: ac_simps remove_nth_def)
qed simp

lemma sum_list_map_split:
  fixes f :: "'a \<Rightarrow> 'b :: comm_monoid_add"
  assumes "i < length xs"
  shows "sum_list (map f xs) = f (xs ! i) + sum_list (map f (remove_nth i xs))"
proof -
  from assms have "xs = take i xs @ xs ! i # drop (Suc i) xs" by (rule id_take_nth_drop)
  then have "sum_list (map f xs) = sum_list (map f (take i xs @ xs ! i # drop (Suc i) xs))" by simp
  then show ?thesis by (simp add: remove_nth_def ac_simps)
qed

lemma remove_nth_update [simp]: "remove_nth i (xs[i := y]) = remove_nth i xs"
  by (simp add: remove_nth_def)

end
