(* ===== verification/GoStrings.thy ===== *)
theory GoStrings
  imports Prelude
begin

text \<open>
  The parts of Go's \<open>unicode/utf8\<close>, \<open>unicode\<close>, \<open>strings\<close>, \<open>strconv\<close> and
  \<open>fmt\<close> packages that the sources call, over byte strings: decoding a rune at either end of a
  string, the runes a \<open>range\<close> loop over a string visits, trimming of white space, and the
  \<open>%d\<close> and \<open>%c\<close> verbs.  Malformed UTF-8 decodes to the replacement rune, one byte at a
  time, as the language prescribes.
\<close>

section \<open>Runes\<close>

definition RuneError :: nat where
  "RuneError = 65533"

definition cont :: "char \<Rightarrow> bool" where
  "cont c \<longleftrightarrow> 128 \<le> byte c \<and> byte c \<le> 191"

text \<open>The range allowed for the second byte, by the first (\<open>acceptRanges\<close> of the library).\<close>

definition accept :: "nat \<Rightarrow> char \<Rightarrow> bool" where
  "accept b0 c \<longleftrightarrow>
     (if b0 = 224 then 160 else if b0 = 240 then 144 else 128) \<le> byte c \<and>
     byte c \<le> (if b0 = 237 then 159 else if b0 = 244 then 143 else 191)"

text \<open>The continuation of a two, three or four byte sequence after its first byte \<open>b0\<close>.\<close>

definition decode2 :: "nat \<Rightarrow> string \<Rightarrow> nat \<times> nat" where
  "decode2 b0 cs =
     (case cs of
        c1 # _ \<Rightarrow> if cont c1 then ((b0 - 192) * 64 + (byte c1 - 128), 2) else (RuneError, 1)
      | _ \<Rightarrow> (RuneError, 1))"

definition decode3 :: "nat \<Rightarrow> string \<Rightarrow> nat \<times> nat" where
  "decode3 b0 cs =
     (case cs of
        c1 # c2 # _ \<Rightarrow>
          if accept b0 c1 \<and> cont c2
          then ((b0 - 224) * 4096 + (byte c1 - 128) * 64 + (byte c2 - 128), 3)
          else (RuneError, 1)
      | _ \<Rightarrow> (RuneError, 1))"

definition decode4 :: "nat \<Rightarrow> string \<Rightarrow> nat \<times> nat" where
  "decode4 b0 cs =
     (case cs of
        c1 # c2 # c3 # _ \<Rightarrow>
          if accept b0 c1 \<and> cont c2 \<and> cont c3
          then ((b0 - 240) * 262144 + (byte c1 - 128) * 4096 + (byte c2 - 128) * 64 + (byte c3 - 128), 4)
          else (RuneError, 1)
      | _ \<Rightarrow> (RuneError, 1))"

definition DecodeRune :: "string \<Rightarrow> nat \<times> nat" where
  "DecodeRune s =
     (case s of
        [] \<Rightarrow> (RuneError, 0)
      | c0 # cs \<Rightarrow>
          (let b0 = byte c0 in
           if b0 < 128 then (b0, 1)
           else if 194 \<le> b0 \<and> b0 \<le> 223 then decode2 b0 cs
           else if 224 \<le> b0 \<and> b0 \<le> 239 then decode3 b0 cs
           else if 240 \<le> b0 \<and> b0 \<le> 244 then decode4 b0 cs
           else (RuneError, 1)))"

definition DecodeLastRune :: "string \<Rightarrow> nat \<times> nat" where
  "DecodeLastRune s =
     (if s = [] then (RuneError, 0)
      else let e = length s; b = byte (last s) in
        if b < 128 then (b, 1)
        else let lim = e - 4;
                 start = (case filter (\<lambda>i. \<not> cont (s ! i)) (rev [lim ..< e - 1]) of
                            i # _ \<Rightarrow> i
                          | [] \<Rightarrow> lim - 1);
                 (r, n) = DecodeRune (drop start s)
             in if start + n \<noteq> e then (RuneError, 1) else (r, n))"

lemma decode2_props: "1 \<le> snd (decode2 b cs)" "194 \<le> b \<Longrightarrow> 128 \<le> fst (decode2 b cs)"
  by (auto simp: decode2_def RuneError_def split: list.splits)

lemma decode3_props: "1 \<le> snd (decode3 b cs)" "224 \<le> b \<Longrightarrow> 128 \<le> fst (decode3 b cs)"
proof -
  have "128 \<le> (b - 224) * 4096 + (byte c - 128) * 64 + (byte d - 128)"
    if "224 \<le> b" "accept b c" for c d
    using that by (cases "b = 224") (auto simp: accept_def split: if_splits)
  then show "224 \<le> b \<Longrightarrow> 128 \<le> fst (decode3 b cs)"
    by (simp add: decode3_def RuneError_def split: list.split)
qed (simp add: decode3_def split: list.split)

lemma decode4_props: "1 \<le> snd (decode4 b cs)" "240 \<le> b \<Longrightarrow> 128 \<le> fst (decode4 b cs)"
proof -
  have "128 \<le> (b - 240) * 262144 + (byte c - 128) * 4096 + (byte d - 128) * 64 + (byte e - 128)"
    if "240 \<le> b" "accept b c" for c d e
    using that by (cases "b = 240") (auto simp: accept_def split: if_splits)
  then show "240 \<le> b \<Longrightarrow> 128 \<le> fst (decode4 b cs)"
    by (simp add: decode4_def RuneError_def split: list.split)
qed (simp add: decode4_def split: list.split)

lemma DecodeRune_size: "s \<noteq> [] \<Longrightarrow> 1 \<le> snd (DecodeRune s)"
  by (cases s) (simp_all add: DecodeRune_def Let_def decode2_props decode3_props decode4_props del: One_nat_def)

lemma DecodeLastRune_size: "s \<noteq> [] \<Longrightarrow> 1 \<le> snd (DecodeLastRune s)"
proof (rule ccontr)
  assume s: "s \<noteq> []" and z: "\<not> 1 \<le> snd (DecodeLastRune s)"
  define start where "start = (case filter (\<lambda>i. \<not> cont (s ! i)) (rev [length s - 4 ..< length s - 1]) of
                            i # _ \<Rightarrow> i | [] \<Rightarrow> (length s - 4) - 1)"
  from s z have "start + snd (DecodeRune (drop start s)) = length s"
      and "snd (DecodeRune (drop start s)) = 0"
    by (auto simp: DecodeLastRune_def Let_def start_def split: if_splits prod.splits)
  moreover from this have "drop start s = []"
    using DecodeRune_size [of "drop start s"] by fastforce
  moreover have "start < length s"
  proof (cases "filter (\<lambda>i. \<not> cont (s ! i)) (rev [length s - 4 ..< length s - 1])")
    case Nil
    then show ?thesis using s by (simp add: start_def)
  next
    case (Cons i js)
    then have "i \<in> set (filter (\<lambda>i. \<not> cont (s ! i)) (rev [length s - 4 ..< length s - 1]))"
      by simp
    then show ?thesis using Cons by (auto simp: start_def)
  qed
  ultimately show False by simp
qed

text \<open>The runes of \<open>for _, ch := range s\<close>.\<close>

function runes :: "string \<Rightarrow> nat list" where
  "runes s = (if s = [] then [] else fst (DecodeRune s) # runes (drop (snd (DecodeRune s)) s))"
  by pat_completeness auto
termination
proof (relation "measure length")
  fix s :: string
  assume "s \<noteq> []"
  then show "(drop (snd (DecodeRune s)) s, s) \<in> measure length"
    using DecodeRune_size [of s] by (cases s) auto
qed simp

declare runes.simps [simp del]

section \<open>White space\<close>

definition IsSpace :: "nat \<Rightarrow> bool" where
  "IsSpace r \<longleftrightarrow>
     (9 \<le> r \<and> r \<le> 13) \<or> r = 32 \<or> r = 133 \<or> r = 160 \<or> r = 5760 \<or>
     (8192 \<le> r \<and> r \<le> 8202) \<or> r = 8232 \<or> r = 8233 \<or> r = 8239 \<or> r = 8287 \<or> r = 12288"

function TrimLeftSpace :: "string \<Rightarrow> string" where
  "TrimLeftSpace s =
     (if s \<noteq> [] \<and> IsSpace (fst (DecodeRune s)) then TrimLeftSpace (drop (snd (DecodeRune s)) s)
      else s)"
  by pat_completeness auto
termination
proof (relation "measure length")
  fix s :: string
  assume "s \<noteq> [] \<and> IsSpace (fst (DecodeRune s))"
  then show "(drop (snd (DecodeRune s)) s, s) \<in> measure length"
    using DecodeRune_size [of s] by (cases s) auto
qed simp

function TrimRightSpace :: "string \<Rightarrow> string" where
  "TrimRightSpace s =
     (if s \<noteq> [] \<and> IsSpace (fst (DecodeLastRune s))
      then TrimRightSpace (take (length s - snd (DecodeLastRune s)) s)
      else s)"
  by pat_completeness auto
termination
proof (relation "measure length")
  fix s :: string
  assume "s \<noteq> [] \<and> IsSpace (fst (DecodeLastRune s))"
  then show "(take (length s - snd (DecodeLastRune s)) s, s) \<in> measure length"
    using DecodeLastRune_size [of s] by (cases s) auto
qed simp

declare TrimLeftSpace.simps [simp del] TrimRightSpace.simps [simp del]

definition TrimSpace :: "string \<Rightarrow> string" where
  "TrimSpace s = TrimRightSpace (TrimLeftSpace s)"

section \<open>Prefixes and suffixes\<close>

definition HasPrefix :: "string \<Rightarrow> string \<Rightarrow> bool" where
  "HasPrefix s p \<longleftrightarrow> length p \<le> length s \<and> take (length p) s = p"

definition HasSuffix :: "string \<Rightarrow> string \<Rightarrow> bool" where
  "HasSuffix s p \<longleftrightarrow> length p \<le> length s \<and> drop (length s - length p) s = p"

definition CutPrefix :: "string \<Rightarrow> string \<Rightarrow> string \<times> bool" where
  "CutPrefix s p = (if HasPrefix s p then (drop (length p) s, True) else (s, False))"

definition TrimSuffix :: "string \<Rightarrow> string \<Rightarrow> string" where
  "TrimSuffix s p = (if HasSuffix s p then take (length s - length p) s else s)"

section \<open>Formatting verbs\<close>

fun fmt_nat :: "nat \<Rightarrow> string" where
  "fmt_nat n = (if n < 10 then [char_of (48 + n)] else fmt_nat (n div 10) @ [char_of (48 + n mod 10)])"

declare fmt_nat.simps [simp del]

definition fmt_d :: "int \<Rightarrow> string" where
  "fmt_d i = (if i < 0 then ''-'' @ fmt_nat (nat (- i)) else fmt_nat (nat i))"

text \<open>\<open>%c\<close> writes the UTF-8 encoding of the rune.\<close>

definition fmt_c :: "nat \<Rightarrow> string" where
  "fmt_c r =
     (let r = (if 55296 \<le> r \<and> r \<le> 57343 \<or> 1114111 < r then RuneError else r) in
      map char_of
        (if r < 128 then [r]
         else if r < 2048 then [192 + r div 64, 128 + r mod 64]
         else if r < 65536 then [224 + r div 4096, 128 + r div 64 mod 64, 128 + r mod 64]
         else [240 + r div 262144, 128 + r div 4096 mod 64, 128 + r div 64 mod 64, 128 + r mod 64]))"

section \<open>Facts on single-byte runes\<close>

text \<open>
  On a string of ASCII bytes every rune is one byte.  A byte from 128 on never decodes to an ASCII
  rune, so a condition that only ASCII runes meet can be read off the bytes.
\<close>

definition is_ascii :: "string \<Rightarrow> bool" where
  "is_ascii s \<longleftrightarrow> (\<forall>c \<in> set s. byte c < 128)"

lemma DecodeRune_ascii [ascii_simps]: "byte c < 128 \<Longrightarrow> DecodeRune (c # s) = (byte c, 1)"
  by (simp add: DecodeRune_def)

lemma DecodeRune_non_ascii: "\<not> byte c < 128 \<Longrightarrow> 128 \<le> fst (DecodeRune (c # s))"
  by (simp add: DecodeRune_def Let_def decode2_props decode3_props decode4_props RuneError_def)

lemma DecodeLastRune_ascii [ascii_simps]:
  "byte c < 128 \<Longrightarrow> DecodeLastRune (s @ [c]) = (byte c, 1)"
  by (simp add: DecodeLastRune_def)

lemma runes_Nil [simp]: "runes [] = []"
  by (simp add: runes.simps)

lemma runes_ascii_Cons [ascii_simps]: "byte c < 128 \<Longrightarrow> runes (c # s) = byte c # runes s"
  by (subst runes.simps) (simp add: DecodeRune_ascii)

lemma runes_non_ascii_Cons: "\<not> byte c < 128 \<Longrightarrow> \<exists>r rs. 128 \<le> r \<and> runes (c # s) = r # rs"
  by (subst runes.simps) (auto dest: DecodeRune_non_ascii)

lemma runes_ascii: "is_ascii s \<Longrightarrow> runes s = map byte s"
  by (induction s) (auto simp: is_ascii_def ascii_simps)

text \<open>A predicate on runes that implies ASCII holds of every rune iff it holds of every byte.\<close>

lemma runes_all_ascii:
  assumes "\<And>r. P r \<Longrightarrow> r < 128"
  shows "(\<forall>r \<in> set (runes s). P r) \<longleftrightarrow> (\<forall>c \<in> set s. P (byte c))"
proof (induction s)
  case Nil
  then show ?case by simp
next
  case (Cons c s)
  show ?case
  proof (cases "byte c < 128")
    case True
    with Cons show ?thesis by (simp add: ascii_simps)
  next
    case False
    then obtain r rs where "128 \<le> r" "runes (c # s) = r # rs"
      using runes_non_ascii_Cons by blast
    moreover from this have "\<not> P r" using assms by fastforce
    moreover from False have "\<not> P (byte c)" using assms by blast
    ultimately show ?thesis by auto
  qed
qed

section \<open>Facts on trimming\<close>

lemma TrimLeftSpace_Nil [simp]: "TrimLeftSpace [] = []"
  by (simp add: TrimLeftSpace.simps)

lemma TrimRightSpace_Nil [simp]: "TrimRightSpace [] = []"
  by (simp add: TrimRightSpace.simps)

lemma TrimLeftSpace_suffix: "\<exists>p. s = p @ TrimLeftSpace s"
proof (induction s rule: TrimLeftSpace.induct)
  case (1 s)
  show ?case
  proof (cases "s \<noteq> [] \<and> IsSpace (fst (DecodeRune s))")
    case True
    let ?n = "snd (DecodeRune s)"
    from 1 [OF True] obtain p where "drop ?n s = p @ TrimLeftSpace (drop ?n s)" by blast
    then have "s = (take ?n s @ p) @ TrimLeftSpace (drop ?n s)"
      by (metis append.assoc append_take_drop_id)
    moreover from True have "TrimLeftSpace s = TrimLeftSpace (drop ?n s)"
      by (simp add: TrimLeftSpace.simps [of s])
    ultimately show ?thesis by metis
  next
    case False
    then show ?thesis by (subst TrimLeftSpace.simps) auto
  qed
qed

lemma TrimRightSpace_prefix: "\<exists>p. s = TrimRightSpace s @ p"
proof (induction s rule: TrimRightSpace.induct)
  case (1 s)
  show ?case
  proof (cases "s \<noteq> [] \<and> IsSpace (fst (DecodeLastRune s))")
    case True
    let ?t = "take (length s - snd (DecodeLastRune s)) s"
    from 1 [OF True] obtain p where "?t = TrimRightSpace ?t @ p" by blast
    then have "s = TrimRightSpace ?t @ (p @ drop (length s - snd (DecodeLastRune s)) s)"
      by (metis append.assoc append_take_drop_id)
    moreover from True have "TrimRightSpace s = TrimRightSpace ?t"
      by (simp add: TrimRightSpace.simps [of s])
    ultimately show ?thesis by metis
  next
    case False
    then show ?thesis by (subst TrimRightSpace.simps) auto
  qed
qed

lemma TrimSpace_id:
  "s = [] \<or> \<not> IsSpace (fst (DecodeRune s)) \<and> \<not> IsSpace (fst (DecodeLastRune s)) \<Longrightarrow> TrimSpace s = s"
  by (auto simp: TrimSpace_def TrimLeftSpace.simps [of s] TrimRightSpace.simps [of s])

text \<open>Trimming changes nothing exactly when neither end of the string is a white-space rune.\<close>

lemma TrimSpace_eq_self_iff:
  "TrimSpace s = s \<longleftrightarrow>
     s = [] \<or> \<not> IsSpace (fst (DecodeRune s)) \<and> \<not> IsSpace (fst (DecodeLastRune s))"
proof
  assume eq: "TrimSpace s = s"
  obtain p where p: "s = p @ TrimLeftSpace s" using TrimLeftSpace_suffix by blast
  obtain q where q: "TrimLeftSpace s = TrimSpace s @ q"
    using TrimRightSpace_prefix by (metis TrimSpace_def)
  from p q eq have "s = p @ s @ q" by metis
  then have "length s = length p + length s + length q" by (metis add.assoc length_append)
  then have "p = []" by simp
  with p have left: "TrimLeftSpace s = s" by simp
  with eq have right: "TrimRightSpace s = s" by (simp add: TrimSpace_def)
  show "s = [] \<or> \<not> IsSpace (fst (DecodeRune s)) \<and> \<not> IsSpace (fst (DecodeLastRune s))"
  proof (cases "s = []")
    case False
    have "\<not> IsSpace (fst (DecodeRune s))"
    proof
      assume sp: "IsSpace (fst (DecodeRune s))"
      let ?t = "drop (snd (DecodeRune s)) s"
      obtain p where "?t = p @ TrimLeftSpace ?t" using TrimLeftSpace_suffix by blast
      with left sp False have "?t = p @ s" by (simp add: TrimLeftSpace.simps [of s])
      moreover have "length ?t < length s"
        using DecodeRune_size [OF False] False by (cases s) auto
      ultimately show False by simp
    qed
    moreover have "\<not> IsSpace (fst (DecodeLastRune s))"
    proof
      assume sp: "IsSpace (fst (DecodeLastRune s))"
      let ?t = "take (length s - snd (DecodeLastRune s)) s"
      obtain p where "?t = TrimRightSpace ?t @ p" using TrimRightSpace_prefix by blast
      with right sp False have "?t = s @ p" by (simp add: TrimRightSpace.simps [of s])
      moreover have "length ?t < length s"
        using DecodeLastRune_size [OF False] False by (cases s) auto
      ultimately show False by simp
    qed
    ultimately show ?thesis by simp
  qed simp
qed (rule TrimSpace_id)

lemma IsSpace_ascii: "r < 128 \<Longrightarrow> IsSpace r \<longleftrightarrow> 9 \<le> r \<and> r \<le> 13 \<or> r = 32"
  by (auto simp: IsSpace_def)

text \<open>An ASCII string with no white-space byte is its own trimming.\<close>

lemma TrimSpace_graphic:
  assumes "\<forall>c \<in> set s. byte c < 128 \<and> \<not> IsSpace (byte c)"
  shows "TrimSpace s = s"
proof (cases s)
  case Nil
  then show ?thesis by (simp add: TrimSpace_id)
next
  case (Cons c cs)
  then obtain d ds where d: "s = ds @ [d]" by (metis list.distinct(1) rev_exhaust)
  from assms Cons have "\<not> IsSpace (fst (DecodeRune s))" by (simp add: ascii_simps)
  moreover from assms d have "\<not> IsSpace (fst (DecodeLastRune s))" by (simp add: ascii_simps)
  ultimately show ?thesis by (blast intro: TrimSpace_id)
qed

section \<open>Facts on prefixes and suffixes\<close>

lemma HasPrefix_append [simp]: "HasPrefix (p @ s) p"
  by (simp add: HasPrefix_def)

lemma HasSuffix_append [simp]: "HasSuffix (s @ p) p"
  by (simp add: HasSuffix_def)

lemma CutPrefix_append [simp]: "CutPrefix (p @ s) p = (s, True)"
  by (simp add: CutPrefix_def)

lemma TrimSuffix_append [simp]: "TrimSuffix (s @ p) p = s"
  by (simp add: TrimSuffix_def)

end
