(* ===== verification/Types.thy ===== *)
theory Types
  imports GoStrings
begin

text \<open>
  The data the components exchange: error values and contexts, the message envelope of
  \<open>go/proto/message.pb.go\<close>, and the structures of \<open>go/core/types.go\<close>.

  An error value is what the code can observe of it.  \<open>Msg\<close> is an error made by
  \<open>fmt.Errorf\<close> or \<open>errors.New\<close> with its text; \<open>Wrap\<close> is one made with the
  \<open>%w\<close> verb, the text before and after the wrapped error kept apart; \<open>Ext\<close> is an error of
  code outside the repository (protobuf, SQS, HTTP); \<open>Panic\<close> is no error value but the outcome of a
  call that panics; the remaining three are the sentinels the sources compare against.  A \<open>nil\<close> error is \<open>None\<close>.

  A context is what the code asks of it, \<open>ctx.Err()\<close>: \<open>None\<close> while it is live,
  afterwards the reason it is done.

  Messages are the fields of the generated struct that the sources read or write.  A
  received metadata map is extensional (\<open>string \<rightharpoonup> string\<close>); a map a source function ranges over
  is the list of its entries in the order the runtime visits them.
\<close>

section \<open>Errors and contexts\<close>

datatype error =
    Canceled
  | DeadlineExceeded
  | WorkerStopped
  | Msg string
  | Ext string
  | Panic string
  | Wrap string error string

primrec error_text :: "error \<Rightarrow> string" where
  "error_text Canceled = ''context canceled''"
| "error_text DeadlineExceeded = ''context deadline exceeded''"
| "error_text WorkerStopped = ''worker stopped''"
| "error_text (Msg t) = t"
| "error_text (Ext t) = t"
| "error_text (Panic t) = t"
| "error_text (Wrap pre e post) = pre @ error_text e @ post"

text \<open>\<open>errors.Is(err, target)\<close> for the sentinel targets the sources use.\<close>

primrec errors_Is :: "error \<Rightarrow> error \<Rightarrow> bool" where
  "errors_Is Canceled t \<longleftrightarrow> t = Canceled"
| "errors_Is DeadlineExceeded t \<longleftrightarrow> t = DeadlineExceeded"
| "errors_Is WorkerStopped t \<longleftrightarrow> t = WorkerStopped"
| "errors_Is (Msg s) t \<longleftrightarrow> t = Msg s"
| "errors_Is (Ext s) t \<longleftrightarrow> t = Ext s"
| "errors_Is (Panic s) t \<longleftrightarrow> t = Panic s"
| "errors_Is (Wrap pre e post) t \<longleftrightarrow> t = Wrap pre e post \<or> errors_Is e t"

type_synonym ctx = "error option"

text \<open>What \<open>ctx.Err()\<close> can return.\<close>

definition ctx_ok :: "ctx \<Rightarrow> bool" where
  "ctx_ok c \<longleftrightarrow> (case c of None \<Rightarrow> True | Some e \<Rightarrow> e = Canceled \<or> e = DeadlineExceeded)"

section \<open>The message envelope\<close>

record message =
  Originator :: string
  Topic :: string
  Action :: string
  Payload :: bytes
  MessageId :: string
  TimestampMs :: int
  Metadata :: "string \<rightharpoonup> string"

section \<open>Consumed items\<close>

record ('m, 'r) MessageItem =
  Message :: 'm
  Receipt :: 'r

record ('m, 'r) ConsumeResult =
  Items :: "('m, 'r) MessageItem list"

text \<open>
  A handler is user code: it may fail, and it works on an application state \<open>'s\<close> of its own.
\<close>

type_synonym 's Handler = "ctx \<Rightarrow> message \<Rightarrow> 's \<Rightarrow> error option \<times> 's"

section \<open>Worker configuration\<close>

text \<open>The logger is left out: it has no effect on the messages.\<close>

record WorkerConfig =
  QueueName :: string
  MaxBatch :: int
  Concurrency :: int
  PollIntervalMs :: int

definition DefaultWorkerConfig :: "string \<Rightarrow> WorkerConfig" where
  "DefaultWorkerConfig queueName =
     \<lparr>QueueName = queueName, MaxBatch = 10, Concurrency = 10, PollIntervalMs = 1000\<rparr>"

section \<open>Facts on errors\<close>

lemma errors_Is_refl [simp]: "errors_Is e e"
  by (cases e) auto

lemma ctx_okE:
  assumes "ctx_ok (Some e)"
  obtains "e = Canceled" | "e = DeadlineExceeded"
  using assms by (auto simp: ctx_ok_def)

lemma ctx_ok_not_stopped: "ctx_ok (Some e) \<Longrightarrow> \<not> errors_Is e WorkerStopped"
  by (auto elim: ctx_okE)

end
