(* ===== verification/QueueAdapter.thy ===== *)
theory QueueAdapter
  imports Types
begin

text \<open>
  The interfaces \<open>QueueAdapter\<close> and \<open>Receipt\<close> of \<open>go/core/types.go\<close> as contracts.

  The operations are the methods on an adapter state \<open>'a\<close>; \<open>pending\<close> is what a queue holds,
  oldest first, and \<open>outstanding\<close> the message of each receipt that was handed out and neither
  acknowledged nor rejected.  Producers rely on \<open>queue_publisher\<close>, the worker on all of
  \<open>queue_adapter\<close>.  Both are interpreted on the in-memory adapter.

  The oracle argument \<open>'o\<close> of \<open>consume\<close> stands for what the caller's context and the scheduler do
  while the call runs.

  A value of an interface type is the record of the methods behind it; the adapters' theories give theirs.
\<close>

section \<open>The interfaces\<close>

record ('a, 'm, 'r, 'o) QueueAdapter =
  ad_Publish :: "ctx \<Rightarrow> string \<Rightarrow> 'm list \<Rightarrow> 'a \<Rightarrow> error option \<times> 'a"
  ad_Consume :: "'o \<Rightarrow> string \<Rightarrow> int \<Rightarrow> 'a \<Rightarrow> (error + ('m, 'r) ConsumeResult option) \<times> 'a"

record ('a, 'r) Receipt_methods =
  rc_Ack :: "'r \<Rightarrow> ctx \<Rightarrow> 'a \<Rightarrow> error option \<times> 'a"
  rc_Nack :: "'r \<Rightarrow> ctx \<Rightarrow> 'a \<Rightarrow> error option \<times> 'a"

section \<open>The contracts\<close>

locale queue_publisher =
  fixes publish :: "ctx \<Rightarrow> string \<Rightarrow> 'm list \<Rightarrow> 'a \<Rightarrow> error option \<times> 'a"
    and pending :: "'a \<Rightarrow> string \<Rightarrow> 'm list"
    and inv :: "'a \<Rightarrow> bool"
  assumes publish_inv: "inv a \<Longrightarrow> publish c q ms a = (ret, a') \<Longrightarrow> inv a'"
    and publish_ok:
      "inv a \<Longrightarrow> publish c q ms a = (None, a') \<Longrightarrow> pending a' = (pending a)(q := pending a q @ ms)"
    and publish_fail: "inv a \<Longrightarrow> publish c q ms a = (Some e, a') \<Longrightarrow> pending a' = pending a"

locale queue_adapter = queue_publisher publish pending inv
  for publish :: "ctx \<Rightarrow> string \<Rightarrow> 'm list \<Rightarrow> 'a \<Rightarrow> error option \<times> 'a"
    and pending :: "'a \<Rightarrow> string \<Rightarrow> 'm list"
    and inv :: "'a \<Rightarrow> bool" +
  fixes consume ::
      "'o \<Rightarrow> string \<Rightarrow> int \<Rightarrow> 'a \<Rightarrow> (error + ('m, 'r) ConsumeResult option) \<times> 'a"
    and ack :: "'r \<Rightarrow> ctx \<Rightarrow> 'a \<Rightarrow> error option \<times> 'a"
    and nack :: "'r \<Rightarrow> ctx \<Rightarrow> 'a \<Rightarrow> error option \<times> 'a"
    and outstanding :: "'a \<Rightarrow> 'r \<Rightarrow> 'm option"
  assumes publish_outstanding: "inv a \<Longrightarrow> publish c q ms a = (ret, a') \<Longrightarrow> outstanding a' = outstanding a"
    and consume_inv: "inv a \<Longrightarrow> consume oracle q n a = (res, a') \<Longrightarrow> inv a'"
    and consume_ok:
      "inv a \<Longrightarrow> consume oracle q n a = (Inr (Some cr), a') \<Longrightarrow>
         pending a = (pending a')(q := map Message (Items cr) @ pending a' q) \<and>
         int (length (Items cr)) \<le> max 0 n \<and>
         distinct (map Receipt (Items cr)) \<and>
         (\<forall>it \<in> set (Items cr). outstanding a (Receipt it) = None) \<and>
         outstanding a' = outstanding a ++ map_of (map (\<lambda>it. (Receipt it, Message it)) (Items cr))"
    and consume_fail:
      "inv a \<Longrightarrow> consume oracle q n a = (Inl e, a') \<Longrightarrow>
         (\<exists>lost. pending a = (pending a')(q := lost @ pending a' q)) \<and> outstanding a \<subseteq>\<^sub>m outstanding a'"
    and ack_inv: "inv a \<Longrightarrow> ack r c a = (ret, a') \<Longrightarrow> inv a'"
    and ack_ok:
      "inv a \<Longrightarrow> outstanding a r = Some m \<Longrightarrow> ack r c a = (ret, a') \<Longrightarrow>
         ret = None \<and> pending a' = pending a \<and> outstanding a' = (outstanding a)(r := None)"
    and ack_settled:
      "inv a \<Longrightarrow> outstanding a r = None \<Longrightarrow> ack r c a = (ret, a') \<Longrightarrow> ret \<noteq> None \<and> a' = a"
    and nack_inv: "inv a \<Longrightarrow> nack r c a = (ret, a') \<Longrightarrow> inv a'"
    and nack_ok:
      "inv a \<Longrightarrow> outstanding a r = Some m \<Longrightarrow> nack r c a = (ret, a') \<Longrightarrow>
         ret = None \<and> outstanding a' = (outstanding a)(r := None) \<and>
         (pending a' = pending a \<or> (\<exists>q. pending a' = (pending a)(q := pending a q @ [m])))"
    and nack_settled:
      "inv a \<Longrightarrow> outstanding a r = None \<Longrightarrow> nack r c a = (ret, a') \<Longrightarrow> ret \<noteq> None \<and> a' = a"
begin

text \<open>
  A receipt that was settled once stays settled: whatever the second call is, it is refused and
  changes nothing.
\<close>

lemma settled_once:
  assumes "inv a" and "outstanding a r = Some m"
    and "ack r c a = (ret, a') \<or> nack r c a = (ret, a')"
  shows "ret = None \<and> fst (ack r c' a') \<noteq> None \<and> fst (nack r c' a') \<noteq> None \<and>
         snd (ack r c' a') = a' \<and> snd (nack r c' a') = a'"
proof -
  from assms have ok: "ret = None" "inv a'" "outstanding a' r = None"
    using ack_ok ack_inv nack_ok nack_inv by (metis fun_upd_same)+
  with ack_settled [OF ok(2,3)] nack_settled [OF ok(2,3)] show ?thesis
    by (metis prod.collapse)
qed

text \<open>Consuming takes the oldest messages, in order, and never more than asked for.\<close>

lemma consume_fifo:
  assumes "inv a" and "consume oracle q n a = (Inr (Some cr), a')"
  shows "map Message (Items cr) = take (length (Items cr)) (pending a q) \<and>
         pending a' q = drop (length (Items cr)) (pending a q) \<and>
         (\<forall>q'. q' \<noteq> q \<longrightarrow> pending a' q' = pending a q')"
proof -
  from consume_ok [OF assms] have p: "pending a = (pending a')(q := map Message (Items cr) @ pending a' q)"
    by blast
  show ?thesis by (simp add: p)
qed

end

end
