(* ===== verification/Producer.thy ===== *)
theory Producer
  imports QueueAdapter
begin

text \<open>
  \<open>go/core/producer.go\<close>: validation of names, construction of the envelope, and publishing one
  message or a batch through a queue adapter.

  What is not in the repository is a parameter: \<open>marshal\<close> is \<open>proto.Marshal\<close> on the request type,
  \<open>uuid\<close> the string of a fresh UUID and \<open>now\<close> the clock in milliseconds (for a batch, one of
  each per position).  The adapter is its \<open>Publish\<close> method on an adapter state.
\<close>

section \<open>Constants and validation\<close>

definition MaxMessageSize :: nat where
  "MaxMessageSize = 256 * 1024"

definition queue_char :: "nat \<Rightarrow> bool" where
  "queue_char ch \<longleftrightarrow>
     (97 \<le> ch \<and> ch \<le> 122) \<or> (65 \<le> ch \<and> ch \<le> 90) \<or> (48 \<le> ch \<and> ch \<le> 57) \<or>
     ch = 45 \<or> ch = 95 \<or> ch = 46"

definition validateQueueName :: "string \<Rightarrow> error option" where
  "validateQueueName queueName =
     (if queueName = [] then Some (Msg ''queue name cannot be empty'')
      else if TrimSpace queueName \<noteq> queueName
        then Some (Msg ''queue name cannot have leading or trailing whitespace'')
      else case find (\<lambda>ch. \<not> queue_char ch) (runes queueName) of
             Some ch \<Rightarrow> Some (Msg (''queue name contains invalid character: '' @ fmt_c ch))
           | None \<Rightarrow> None)"

definition validateTopicAction :: "string \<Rightarrow> string \<Rightarrow> error option" where
  "validateTopicAction topic action =
     (if topic = [] then Some (Msg ''topic cannot be empty'')
      else if action = [] then Some (Msg ''action cannot be empty'')
      else if TrimSpace topic \<noteq> topic
        then Some (Msg ''topic cannot have leading or trailing whitespace'')
      else if TrimSpace action \<noteq> action
        then Some (Msg ''action cannot have leading or trailing whitespace'')
      else None)"

section \<open>The producer\<close>

record Producer =
  originator :: string

definition NewProducer :: "string \<Rightarrow> Producer" where
  "NewProducer orig = \<lparr>originator = orig\<rparr>"

record 'p MessageSpec =
  spec_Topic :: string
  spec_Action :: string
  spec_ProtoMessage :: 'p
  spec_Metadata :: str_map

text \<open>The envelope both entry points build once validation has passed.\<close>

definition envelope :: "Producer \<Rightarrow> string \<Rightarrow> string \<Rightarrow> bytes \<Rightarrow> string \<Rightarrow> int \<Rightarrow> str_map \<Rightarrow> message" where
  "envelope p topic action payload uuid now metadata =
     \<lparr>Originator = originator p, Topic = topic, Action = action, Payload = payload,
      MessageId = uuid, TimestampMs = now, Metadata = range_copy metadata Map.empty\<rparr>"

definition Send ::
  "('p \<Rightarrow> error + bytes) \<Rightarrow> (ctx \<Rightarrow> string \<Rightarrow> message list \<Rightarrow> 'a \<Rightarrow> error option \<times> 'a) \<Rightarrow>
   string \<Rightarrow> int \<Rightarrow> Producer \<Rightarrow> ctx \<Rightarrow> string \<Rightarrow> string \<Rightarrow> string \<Rightarrow> 'p \<Rightarrow> str_map \<Rightarrow> 'a \<Rightarrow>
   error option \<times> 'a" where
  "Send marshal publish uuid now p c queueName topic action protoMessage metadata a =
     (case validateQueueName queueName of
        Some err \<Rightarrow> (Some err, a)
      | None \<Rightarrow>
     (case validateTopicAction topic action of
        Some err \<Rightarrow> (Some err, a)
      | None \<Rightarrow>
     (case marshal protoMessage of
        Inl err \<Rightarrow> (Some (Wrap (''failed to marshal payload for '' @ topic @ ''.'' @ action @ '': '') err ''''), a)
      | Inr payload \<Rightarrow>
          if length payload > MaxMessageSize
          then (Some (Msg (''payload for '' @ topic @ ''.'' @ action @ '' exceeds '' @ fmt_nat MaxMessageSize
                            @ '' bytes (got '' @ fmt_nat (length payload) @ '')'')), a)
          else publish c queueName [envelope p topic action payload uuid now metadata] a)))"

text \<open>
  The loop of \<open>SendBatch\<close>: the messages built so far, or the first error.  \<open>i\<close> is the position of
  the first specification of the list.
\<close>

fun batch_messages ::
  "('p \<Rightarrow> error + bytes) \<Rightarrow> (nat \<Rightarrow> string) \<Rightarrow> (nat \<Rightarrow> int) \<Rightarrow> Producer \<Rightarrow> nat \<Rightarrow> 'p MessageSpec list \<Rightarrow>
   error + message list" where
  "batch_messages marshal uuid now p i [] = Inr []"
| "batch_messages marshal uuid now p i (spec # specs) =
     (case validateTopicAction (spec_Topic spec) (spec_Action spec) of
        Some err \<Rightarrow> Inl (Wrap (''message '' @ fmt_nat i @ '': '') err '''')
      | None \<Rightarrow>
     (case marshal (spec_ProtoMessage spec) of
        Inl err \<Rightarrow> Inl (Wrap (''failed to marshal message '' @ fmt_nat i @ '' ('' @ spec_Topic spec @ ''.''
                                @ spec_Action spec @ ''): '') err '''')
      | Inr payload \<Rightarrow>
          if length payload > MaxMessageSize
          then Inl (Msg (''message '' @ fmt_nat i @ '' ('' @ spec_Topic spec @ ''.'' @ spec_Action spec
                          @ '') payload exceeds '' @ fmt_nat MaxMessageSize @ '' bytes (got ''
                          @ fmt_nat (length payload) @ '')''))
          else (case batch_messages marshal uuid now p (Suc i) specs of
                  Inl err \<Rightarrow> Inl err
                | Inr msgs \<Rightarrow>
                    Inr (envelope p (spec_Topic spec) (spec_Action spec) payload (uuid i) (now i)
                           (spec_Metadata spec) # msgs))))"

definition SendBatch ::
  "('p \<Rightarrow> error + bytes) \<Rightarrow> (ctx \<Rightarrow> string \<Rightarrow> message list \<Rightarrow> 'a \<Rightarrow> error option \<times> 'a) \<Rightarrow>
   (nat \<Rightarrow> string) \<Rightarrow> (nat \<Rightarrow> int) \<Rightarrow> Producer \<Rightarrow> ctx \<Rightarrow> string \<Rightarrow> 'p MessageSpec list \<Rightarrow> 'a \<Rightarrow>
   error option \<times> 'a" where
  "SendBatch marshal publish uuid now p c queueName specs a =
     (if specs = [] then (None, a)
      else case validateQueueName queueName of
             Some err \<Rightarrow> (Some (Wrap ''invalid queue name: '' err ''''), a)
           | None \<Rightarrow>
          (case batch_messages marshal uuid now p 0 specs of
             Inl err \<Rightarrow> (Some err, a)
           | Inr messages \<Rightarrow> publish c queueName messages a))"

section \<open>Facts on validation\<close>

lemma queue_char_ascii: "queue_char r \<Longrightarrow> r < 128 \<and> \<not> IsSpace r"
  by (auto simp: queue_char_def IsSpace_def)

lemma find_None_all: "find P xs = None \<longleftrightarrow> (\<forall>x \<in> set xs. \<not> P x)"
  by (auto simp: find_None_iff)

lemma validateQueueName_chars:
  assumes "validateQueueName q = None"
  shows "q \<noteq> [] \<and> list_all (\<lambda>c. queue_char (byte c)) q"
proof -
  from assms have "q \<noteq> []" "\<forall>r \<in> set (runes q). queue_char r"
    by (auto simp: validateQueueName_def find_None_all split: if_splits option.splits)
  then show ?thesis
    using runes_all_ascii [of queue_char q] queue_char_ascii by (auto simp: list_all_iff)
qed

lemma validateQueueName_ok:
  assumes "q \<noteq> []" and "list_all (\<lambda>c. queue_char (byte c)) q"
  shows "validateQueueName q = None"
proof -
  have ok: "\<forall>c \<in> set q. queue_char (byte c)" using assms(2) by (simp add: list_all_iff)
  then have "TrimSpace q = q" using queue_char_ascii by (intro TrimSpace_graphic) blast
  moreover have "\<forall>r \<in> set (runes q). queue_char r"
    using ok runes_all_ascii [of queue_char q] queue_char_ascii by blast
  then have "find (\<lambda>ch. \<not> queue_char ch) (runes q) = None" by (simp add: find_None_all)
  ultimately show ?thesis using assms(1) by (simp add: validateQueueName_def)
qed

lemma validateTopicAction_ok:
  assumes "t \<noteq> []" and "a \<noteq> []" and "list_all (\<lambda>c. byte c < 128 \<and> \<not> IsSpace (byte c)) (t @ a)"
  shows "validateTopicAction t a = None"
  using assms TrimSpace_graphic [of t] TrimSpace_graphic [of a]
  by (auto simp: validateTopicAction_def list_all_iff)

section \<open>What sending does, for any publisher\<close>

text \<open>The checks \<open>Send\<close> makes before it publishes.\<close>

definition send_accepts :: "('p \<Rightarrow> error + bytes) \<Rightarrow> string \<Rightarrow> string \<Rightarrow> string \<Rightarrow> 'p \<Rightarrow> bytes \<Rightarrow> bool" where
  "send_accepts marshal q topic action m payload \<longleftrightarrow>
     validateQueueName q = None \<and> validateTopicAction topic action = None \<and>
     marshal m = Inr payload \<and> length payload \<le> MaxMessageSize"

lemma Send_accepted:
  "send_accepts marshal q topic action m payload \<Longrightarrow>
   Send marshal publish uuid now p c q topic action m md a =
     publish c q [envelope p topic action payload uuid now md] a"
  by (simp add: Send_def send_accepts_def)

lemma Send_rejected:
  "\<nexists>payload. send_accepts marshal q topic action m payload \<Longrightarrow>
   \<exists>e. Send marshal publish uuid now p c q topic action m md a = (Some e, a)"
  by (auto simp: Send_def send_accepts_def not_le split: option.splits sum.splits)

definition spec_accepts :: "('p \<Rightarrow> error + bytes) \<Rightarrow> 'p MessageSpec \<Rightarrow> bool" where
  "spec_accepts marshal s \<longleftrightarrow>
     validateTopicAction (spec_Topic s) (spec_Action s) = None \<and>
     (\<exists>payload. marshal (spec_ProtoMessage s) = Inr payload \<and> length payload \<le> MaxMessageSize)"

definition spec_message ::
  "('p \<Rightarrow> error + bytes) \<Rightarrow> (nat \<Rightarrow> string) \<Rightarrow> (nat \<Rightarrow> int) \<Rightarrow> Producer \<Rightarrow> nat \<Rightarrow> 'p MessageSpec \<Rightarrow> message" where
  "spec_message marshal uuid now p i s =
     envelope p (spec_Topic s) (spec_Action s) (projr (marshal (spec_ProtoMessage s))) (uuid i) (now i)
       (spec_Metadata s)"

lemma batch_messages_ok:
  "\<forall>s \<in> set specs. spec_accepts marshal s \<Longrightarrow>
   batch_messages marshal uuid now p i specs =
     Inr (map (\<lambda>(j, s). spec_message marshal uuid now p j s) (zip [i ..< i + length specs] specs))"
proof (induction specs arbitrary: i)
  case Nil
  then show ?case by simp
next
  case (Cons s specs)
  then have "[i ..< i + length (s # specs)] = i # [Suc i ..< Suc i + length specs]"
    by (simp add: upt_conv_Cons del: upt_Suc)
  with Cons show ?case by (auto simp: spec_accepts_def spec_message_def simp del: upt_Suc)
qed

lemma batch_messages_error:
  "\<not> (\<forall>s \<in> set specs. spec_accepts marshal s) \<Longrightarrow>
   \<exists>e. batch_messages marshal uuid now p i specs = Inl e"
proof (induction specs arbitrary: i)
  case Nil
  then show ?case by simp
next
  case (Cons s specs)
  show ?case
  proof (cases "spec_accepts marshal s")
    case True
    with Cons.prems obtain e where "batch_messages marshal uuid now p (Suc i) specs = Inl e"
      using Cons.IH [of "Suc i"] by auto
    with True show ?thesis by (auto simp: spec_accepts_def)
  next
    case False
    then show ?thesis by (auto simp: spec_accepts_def not_le split: option.split sum.split)
  qed
qed

lemma SendBatch_accepted:
  assumes "specs \<noteq> []" "validateQueueName q = None" "\<forall>s \<in> set specs. spec_accepts marshal s"
  shows "SendBatch marshal publish uuid now p c q specs a =
    publish c q (map (\<lambda>(i, s). spec_message marshal uuid now p i s) (zip [0 ..< length specs] specs)) a"
  using assms batch_messages_ok [OF assms(3), of uuid now p 0] by (simp add: SendBatch_def)

lemma SendBatch_rejected:
  assumes "specs \<noteq> []" "validateQueueName q \<noteq> None \<or> \<not> (\<forall>s \<in> set specs. spec_accepts marshal s)"
  shows "\<exists>e. SendBatch marshal publish uuid now p c q specs a = (Some e, a)"
proof (cases "validateQueueName q")
  case None
  with assms(2) obtain e where "batch_messages marshal uuid now p 0 specs = Inl e"
    using batch_messages_error by blast
  with None assms(1) show ?thesis by (simp add: SendBatch_def)
qed (use assms(1) in \<open>simp add: SendBatch_def\<close>)

section \<open>Sending through a publisher that keeps its contract\<close>

locale message_publisher = queue_publisher publish pending inv
  for publish :: "ctx \<Rightarrow> string \<Rightarrow> message list \<Rightarrow> 'a \<Rightarrow> error option \<times> 'a"
    and pending :: "'a \<Rightarrow> string \<Rightarrow> message list"
    and inv :: "'a \<Rightarrow> bool"
begin

lemma send_ok:
  assumes "inv a" and "Send marshal publish uuid now p c q topic action m md a = (None, a')"
  shows "\<exists>payload. send_accepts marshal q topic action m payload \<and>
           pending a' = (pending a)(q := pending a q @ [envelope p topic action payload uuid now md])"
proof (cases "\<exists>payload. send_accepts marshal q topic action m payload")
  case True
  then obtain payload where acc: "send_accepts marshal q topic action m payload" by blast
  with assms(2) have "publish c q [envelope p topic action payload uuid now md] a = (None, a')"
    by (simp add: Send_accepted)
  from publish_ok [OF assms(1) this] acc show ?thesis by blast
next
  case False
  from Send_rejected [OF False] assms(2) show ?thesis by (metis option.distinct(1) prod.inject)
qed

lemma send_error:
  assumes "inv a" and "Send marshal publish uuid now p c q topic action m md a = (Some e, a')"
  shows "pending a' = pending a"
proof (cases "\<exists>payload. send_accepts marshal q topic action m payload")
  case True
  then obtain payload where "send_accepts marshal q topic action m payload" by blast
  with assms show ?thesis by (metis Send_accepted publish_fail)
next
  case False
  from Send_rejected [OF False] assms(2) show ?thesis by (metis prod.inject)
qed

lemma send_batch_ok:
  assumes "inv a" and "SendBatch marshal publish uuid now p c q specs a = (None, a')"
  shows "pending a' = (pending a)(q := pending a q @
           map (\<lambda>(i, s). spec_message marshal uuid now p i s) (zip [0 ..< length specs] specs)) \<and>
         (\<forall>s \<in> set specs. spec_accepts marshal s)"
proof (cases "specs = []")
  case True
  with assms(2) show ?thesis by (simp add: SendBatch_def)
next
  case False
  from SendBatch_rejected [OF False] assms(2)
  have acc: "validateQueueName q = None" "\<forall>s \<in> set specs. spec_accepts marshal s"
    by (metis option.distinct(1) prod.inject)+
  with False assms(2) have "publish c q
      (map (\<lambda>(i, s). spec_message marshal uuid now p i s) (zip [0 ..< length specs] specs)) a = (None, a')"
    by (simp add: SendBatch_accepted)
  from publish_ok [OF assms(1) this] acc(2) show ?thesis by blast
qed

lemma send_batch_error:
  assumes "inv a" and "SendBatch marshal publish uuid now p c q specs a = (Some e, a')"
  shows "pending a' = pending a"
proof (cases "specs \<noteq> [] \<and> validateQueueName q = None \<and> (\<forall>s \<in> set specs. spec_accepts marshal s)")
  case True
  with assms show ?thesis by (metis SendBatch_accepted publish_fail)
next
  case False
  with assms(2) have "specs \<noteq> []" by (auto simp: SendBatch_def)
  with False SendBatch_rejected [OF this] assms(2) show ?thesis by (metis prod.inject)
qed

end

section \<open>Properties\<close>

text \<open>
  validateQueueName accepts exactly the non-empty names made of ASCII letters, digits, hyphens,
  underscores and dots.  The white-space test it makes first rejects nothing the character
  test would let through, and no multi-byte or malformed UTF-8 sequence is accepted.
\<close>

lemma validateQueueName_accepts:
  "validateQueueName q = None \<longleftrightarrow> q \<noteq> [] \<and> list_all (\<lambda>c. queue_char (byte c)) q"
  using validateQueueName_ok validateQueueName_chars by blast

text \<open>
  Send and SendBatch agree: sending one message and sending the batch that holds only that
  message succeed together and have the same effect on the adapter, whatever the adapter does.
\<close>

lemma SendBatch_singleton:
  "(fst (SendBatch marshal publish uuid now p c q [s] a) = None \<longleftrightarrow>
      fst (Send marshal publish (uuid 0) (now 0) p c q (spec_Topic s) (spec_Action s)
             (spec_ProtoMessage s) (spec_Metadata s) a) = None) \<and>
   snd (SendBatch marshal publish uuid now p c q [s] a) =
     snd (Send marshal publish (uuid 0) (now 0) p c q (spec_Topic s) (spec_Action s)
            (spec_ProtoMessage s) (spec_Metadata s) a)"
  by (simp add: SendBatch_def Send_def split: option.split sum.split)

text \<open>
  The metadata of the envelope does not depend on the order in which the runtime visits the
  entries of the caller's map, and is that map.
\<close>

lemma envelope_metadata_order:
  assumes "distinct (map fst md)" and "mset md' = mset md"
  shows "envelope p topic action payload uuid now md' = envelope p topic action payload uuid now md \<and>
         Metadata (envelope p topic action payload uuid now md) = map_of md"
proof -
  from assms(2) have "mset (map fst md') = mset (map fst md)" by simp
  with assms(1) have d: "distinct (map fst md')" by (metis mset_eq_imp_distinct_iff)
  moreover from assms(2) have "set md' = set md" by (rule mset_eq_setD)
  with d assms(1) have "map_of md' = map_of md" by (simp only: map_of_inject_set)
  ultimately show ?thesis using assms(1) by (simp add: envelope_def range_copy_empty)
qed

end
