(* ===== verification/Registry.thy ===== *)
theory Registry
  imports Types
begin

text \<open>
  \<open>go/core/registry.go\<close>: the two-level table from topic and action to handler.

  The Go maps are association lists (\<open>Topics\<close> and \<open>Actions\<close> range over them, and the order
  Go leaves open is the order of the list).  The registry's lock makes every method one
  atomic step on the table, so the methods are functions of the table; \<open>Handle\<close> runs the
  handler it finds on the application state.

  The locale \<open>dispatch_table\<close> is the contract the server side relies on, and is interpreted
  on the registry at the end.
\<close>

section \<open>State and operations\<close>

record 's Registry =
  handlers :: "(string \<times> (string \<times> 's Handler) list) list"

definition NewRegistry :: "'s Registry" where
  "NewRegistry = \<lparr>handlers = []\<rparr>"

definition Register :: "string \<Rightarrow> string \<Rightarrow> 's Handler \<Rightarrow> 's Registry \<Rightarrow> 's Registry" where
  "Register topic action handler r =
     (let hs = (case map_of (handlers r) topic of
                  None \<Rightarrow> AList.update topic [] (handlers r)
                | Some _ \<Rightarrow> handlers r)
      in case map_of hs topic of
           None \<Rightarrow> r\<lparr>handlers := hs\<rparr>
         | Some th \<Rightarrow> r\<lparr>handlers := AList.update topic (AList.update action handler th) hs\<rparr>)"

definition Handle :: "'s Registry \<Rightarrow> ctx \<Rightarrow> message \<Rightarrow> 's \<Rightarrow> error option \<times> 's" where
  "Handle r c msg app =
     (case map_of (handlers r) (Topic msg) of
        None \<Rightarrow> (Some (Msg (''no handlers registered for topic: '' @ Topic msg)), app)
      | Some topicHandlers \<Rightarrow>
          (case map_of topicHandlers (Action msg) of
             None \<Rightarrow> (Some (Msg (''no handler registered for topic: '' @ Topic msg
                                  @ '', action: '' @ Action msg)), app)
           | Some handler \<Rightarrow> handler c msg app))"

definition IsRegistered :: "'s Registry \<Rightarrow> string \<Rightarrow> string \<Rightarrow> bool" where
  "IsRegistered r topic action =
     (case map_of (handlers r) topic of
        None \<Rightarrow> False
      | Some topicHandlers \<Rightarrow> (case map_of topicHandlers action of None \<Rightarrow> False | Some _ \<Rightarrow> True))"

definition Topics :: "'s Registry \<Rightarrow> string list" where
  "Topics r = map fst (handlers r)"

definition Actions :: "'s Registry \<Rightarrow> string \<Rightarrow> string list" where
  "Actions r topic =
     (case map_of (handlers r) topic of None \<Rightarrow> [] | Some topicHandlers \<Rightarrow> map fst topicHandlers)"

text \<open>
  Specification side: the table as one flat partial map, and its well-formedness (keys occur once,
  and a topic is present only when it has an action).
\<close>

definition reg_lookup :: "'s Registry \<Rightarrow> string \<times> string \<Rightarrow> 's Handler option" where
  "reg_lookup r ta =
     (case map_of (handlers r) (fst ta) of None \<Rightarrow> None | Some th \<Rightarrow> map_of th (snd ta))"

definition reg_inv :: "'s Registry \<Rightarrow> bool" where
  "reg_inv r \<longleftrightarrow> distinct (map fst (handlers r)) \<and>
     (\<forall>(t, th) \<in> set (handlers r). th \<noteq> [] \<and> distinct (map fst th))"

section \<open>The contract\<close>

text \<open>
  A dispatch table starts empty, and registering under a key changes the lookup at that key only.
  What the client may conclude: after any sequence of registrations, the last one for a key
  decides, and a key never registered is absent.
\<close>

locale dispatch_table =
  fixes empty :: 't
    and register :: "'k \<Rightarrow> 'h \<Rightarrow> 't \<Rightarrow> 't"
    and lookup :: "'t \<Rightarrow> 'k \<Rightarrow> 'h option"
    and inv :: "'t \<Rightarrow> bool"
  assumes lookup_empty: "lookup empty k = None"
    and lookup_register: "inv t \<Longrightarrow> lookup (register k h t) = (lookup t)(k \<mapsto> h)"
    and inv_empty: "inv empty"
    and inv_register: "inv t \<Longrightarrow> inv (register k h t)"
begin

lemma register_all:
  assumes "inv t"
  shows "inv (fold (\<lambda>(k, h). register k h) khs t) \<and>
         lookup (fold (\<lambda>(k, h). register k h) khs t) = lookup t ++ map_of (rev khs)"
  using assms
proof (induction khs arbitrary: t)
  case Nil
  then show ?case by simp
next
  case (Cons kh khs)
  obtain k h where kh: "kh = (k, h)" by fastforce
  from Cons.prems have "inv (register k h t)" by (rule inv_register)
  from Cons.IH [OF this] lookup_register [OF Cons.prems, of k h] show ?case
    by (simp add: kh fun_eq_iff map_add_def split: option.splits)
qed

lemma lookup_registered:
  "lookup (fold (\<lambda>(k, h). register k h) khs empty) = map_of (rev khs)"
  using register_all [OF inv_empty] lookup_empty by (auto simp: fun_eq_iff map_add_def split: option.splits)

end

section \<open>Facts on the registry\<close>

lemma handlers_Register:
  "handlers (Register t a h r) =
     AList.update t (AList.update a h (case map_of (handlers r) t of None \<Rightarrow> [] | Some th \<Rightarrow> th))
       (case map_of (handlers r) t of None \<Rightarrow> AList.update t [] (handlers r) | Some _ \<Rightarrow> handlers r)"
  by (simp add: Register_def Let_def split: option.splits)

lemma map_of_Register:
  "map_of (handlers (Register t a h r)) =
     (map_of (handlers r))(t \<mapsto> AList.update a h (case map_of (handlers r) t of None \<Rightarrow> [] | Some th \<Rightarrow> th))"
  by (simp add: handlers_Register fun_eq_iff split: option.splits)

lemma reg_lookup_Register:
  "reg_lookup (Register t a h r) = (reg_lookup r)((t, a) \<mapsto> h)"
  by (auto simp: reg_lookup_def map_of_Register fun_eq_iff split: option.splits)

lemma reg_lookup_New [simp]: "reg_lookup NewRegistry k = None"
  by (simp add: reg_lookup_def NewRegistry_def)

lemma reg_inv_New [simp]: "reg_inv NewRegistry"
  by (simp add: reg_inv_def NewRegistry_def)

lemma reg_inv_topic: "reg_inv r \<Longrightarrow> map_of (handlers r) t = Some th \<Longrightarrow> th \<noteq> [] \<and> distinct (map fst th)"
  by (auto simp: reg_inv_def dest: map_of_SomeD)

lemma reg_inv_Register:
  assumes "reg_inv r"
  shows "reg_inv (Register t a h r)"
proof -
  let ?th = "AList.update a h (case map_of (handlers r) t of None \<Rightarrow> [] | Some th \<Rightarrow> th)"
  have "distinct (map fst (handlers (Register t a h r)))"
    using assms by (auto simp: handlers_Register reg_inv_def split: option.splits)
  moreover have th: "?th \<noteq> [] \<and> distinct (map fst ?th)"
    using assms reg_inv_topic [of r t] by (auto simp: update_nonempty split: option.splits)
  moreover have "th' \<noteq> [] \<and> distinct (map fst th')"
    if "(t', th') \<in> set (handlers (Register t a h r))" for t' th'
  proof -
    from that calculation(1) have "map_of (handlers (Register t a h r)) t' = Some th'" by simp
    then show ?thesis
      using th reg_inv_topic [OF assms, of t'] by (auto simp: map_of_Register split: if_splits)
  qed
  ultimately show ?thesis by (auto simp: reg_inv_def)
qed

interpretation registry: dispatch_table
  NewRegistry "\<lambda>(t, a) h. Register t a h" reg_lookup reg_inv
  by unfold_locales (auto simp: reg_lookup_Register reg_inv_Register)

text \<open>The registry after a sequence of registrations.\<close>

definition registered :: "((string \<times> string) \<times> 's Handler) list \<Rightarrow> 's Registry" where
  "registered regs = fold (\<lambda>((t, a), h). Register t a h) regs NewRegistry"

lemma registered_fold: "registered regs = fold (\<lambda>(k, h). (case k of (t, a) \<Rightarrow> \<lambda>h. Register t a h) h) regs NewRegistry"
  unfolding registered_def by (rule arg_cong [where f = "\<lambda>f. fold f regs NewRegistry"]) (auto simp: fun_eq_iff)

lemma reg_lookup_registered: "reg_lookup (registered regs) = map_of (rev regs)"
  using registry.lookup_registered [of regs] by (simp add: registered_fold)

lemma reg_inv_registered: "reg_inv (registered regs)"
  using registry.register_all [OF reg_inv_New, of regs] by (simp add: registered_fold)

lemma IsRegistered_iff: "IsRegistered r t a \<longleftrightarrow> reg_lookup r (t, a) \<noteq> None"
  by (auto simp: IsRegistered_def reg_lookup_def split: option.splits)

lemma Handle_found:
  "reg_lookup r (Topic msg, Action msg) = Some h \<Longrightarrow> Handle r c msg app = h c msg app"
  by (auto simp: Handle_def reg_lookup_def split: option.splits)

lemma Handle_none:
  "reg_lookup r (Topic msg, Action msg) = None \<Longrightarrow> \<exists>e. Handle r c msg app = (Some e, app)"
  by (auto simp: Handle_def reg_lookup_def split: option.splits)

lemma Handle_missing:
  assumes "reg_inv r" and "reg_lookup r (Topic msg, Action msg) = None"
  shows "Handle r c msg app =
    (Some (Msg (if \<exists>a. IsRegistered r (Topic msg) a
                then ''no handler registered for topic: '' @ Topic msg @ '', action: '' @ Action msg
                else ''no handlers registered for topic: '' @ Topic msg)), app)"
proof (cases "map_of (handlers r) (Topic msg)")
  case None
  then show ?thesis by (auto simp: Handle_def IsRegistered_def)
next
  case (Some th)
  with reg_inv_topic [OF assms(1)] obtain a h where "(a, h) \<in> set th" "distinct (map fst th)"
    by (metis list.set_intros(1) neq_Nil_conv surj_pair)
  then have "map_of th a = Some h" by simp
  with Some have "IsRegistered r (Topic msg) a" by (simp add: IsRegistered_def)
  with Some assms(2) show ?thesis by (auto simp: Handle_def reg_lookup_def)
qed

section \<open>Properties\<close>

text \<open>
  C20. Dispatch: after any sequence of registrations, Handle runs the handler registered last for
  the message's topic and action; with no such registration it runs nothing, leaves the
  application state alone and names in its error the topic if nothing was ever registered under it
  and the topic and action otherwise.
\<close>

theorem Handle_registered:
  "Handle (registered regs) c msg app =
     (case map_of (rev regs) (Topic msg, Action msg) of
        Some h \<Rightarrow> h c msg app
      | None \<Rightarrow>
          (Some (Msg (if Topic msg \<in> (fst \<circ> fst) ` set regs
                      then ''no handler registered for topic: '' @ Topic msg @ '', action: '' @ Action msg
                      else ''no handlers registered for topic: '' @ Topic msg)), app))"
proof (cases "map_of (rev regs) (Topic msg, Action msg)")
  case (Some h)
  then show ?thesis by (simp add: Handle_found reg_lookup_registered)
next
  case None
  have "(\<exists>a. IsRegistered (registered regs) (Topic msg) a) \<longleftrightarrow> Topic msg \<in> (fst \<circ> fst) ` set regs"
    by (force simp: IsRegistered_iff reg_lookup_registered map_of_eq_None_iff image_iff)
  with None show ?thesis
    by (simp add: Handle_missing [OF reg_inv_registered] reg_lookup_registered)
qed

text \<open>
  Enumeration: after any sequence of registrations, Topics lists every registered topic once
  and Actions every action registered under a topic once, and IsRegistered answers exactly for the
  pairs these two listings contain.
\<close>

lemma registry_listing:
  "distinct (Topics (registered regs)) \<and>
   set (Topics (registered regs)) = (fst \<circ> fst) ` set regs \<and>
   distinct (Actions (registered regs) t) \<and>
   set (Actions (registered regs) t) = {a. (t, a) \<in> fst ` set regs} \<and>
   (IsRegistered (registered regs) t a \<longleftrightarrow> t \<in> set (Topics (registered regs)) \<and> a \<in> set (Actions (registered regs) t))"
proof -
  let ?r = "registered regs"
  have look: "(reg_lookup ?r (t, a) \<noteq> None) = ((t, a) \<in> fst ` set regs)" for t a
    by (simp add: reg_lookup_registered map_of_eq_None_iff)
  have act: "a \<in> set (Actions ?r t) \<longleftrightarrow> reg_lookup ?r (t, a) \<noteq> None" for t a
  proof (cases "map_of (handlers ?r) t")
    case (Some th)
    then show ?thesis by (simp add: Actions_def reg_lookup_def map_of_eq_None_iff del: not_None_eq)
  qed (simp add: Actions_def reg_lookup_def)
  have top: "t \<in> set (Topics ?r) \<longleftrightarrow> (\<exists>a. reg_lookup ?r (t, a) \<noteq> None)" for t
  proof
    assume "t \<in> set (Topics ?r)"
    then obtain th where th: "map_of (handlers ?r) t = Some th"
      by (metis Topics_def list.set_map map_of_eq_None_iff not_None_eq)
    with reg_inv_topic [OF reg_inv_registered] obtain a h th' where "th = (a, h) # th'"
      by (metis neq_Nil_conv surj_pair)
    with th show "\<exists>a. reg_lookup ?r (t, a) \<noteq> None" by (auto simp: reg_lookup_def)
  next
    assume "\<exists>a. reg_lookup ?r (t, a) \<noteq> None"
    then show "t \<in> set (Topics ?r)"
      by (auto simp: Topics_def reg_lookup_def split: option.splits dest!: map_of_SomeD intro: rev_image_eqI)
  qed
  have "distinct (Topics ?r)" "distinct (Actions ?r t)"
    using reg_inv_registered [of regs] reg_inv_topic [OF reg_inv_registered, of regs t]
    by (auto simp: Topics_def Actions_def reg_inv_def split: option.splits)
  moreover have "set (Topics ?r) = (fst \<circ> fst) ` set regs"
  proof (rule set_eqI)
    fix t
    have "t \<in> set (Topics ?r) \<longleftrightarrow> (\<exists>a. (t, a) \<in> fst ` set regs)" by (simp only: top look)
    also have "\<dots> \<longleftrightarrow> t \<in> (fst \<circ> fst) ` set regs" by (force simp: image_iff)
    finally show "t \<in> set (Topics ?r) \<longleftrightarrow> t \<in> (fst \<circ> fst) ` set regs" .
  qed
  moreover have "set (Actions ?r t) = {a. (t, a) \<in> fst ` set regs}" using act look by auto
  moreover have "IsRegistered ?r t a \<longleftrightarrow> t \<in> set (Topics ?r) \<and> a \<in> set (Actions ?r t)"
    using top act by (auto simp: IsRegistered_iff)
  ultimately show ?thesis by blast
qed

end
