(* ===== verification/Worker.thy ===== *)
theory Worker
  imports Registry QueueAdapter
begin

text \<open>
  \<open>go/core/worker.go\<close>, the type \<open>Worker\<close>: the polling loop of \<open>Start\<close>, the goroutine it spawns per
  message, \<open>Stop\<close>, and the clients and other goroutines that run beside them.

  The worker is a transition system.  \<open>Start\<close> has a program counter with one value per blocking
  statement; a goroutine has one per call that other goroutines can see (the handler, the
  settlement of the receipt, the release of the semaphore, \<open>wg.Done\<close>).  A step is one such
  statement, so every interleaving of the threads is a run.  A \<open>select\<close> is one rule per ready case.
  The label of a step records what it does to messages; a run carries the list of its labels.

  The queue adapter is a parameter: its methods \<open>consume\<close>, \<open>ack\<close> and \<open>nack\<close> on a state \<open>'a\<close>.  What
  other users of the adapter do between two steps is the parameter \<open>others\<close>, which is told the
  receipts this worker has been given (no one else holds them).  Handlers and adapter calls
  return; the logger is left out.
\<close>

section \<open>Configuration\<close>

definition worker_config :: "WorkerConfig \<Rightarrow> WorkerConfig" where
  "worker_config config =
     (let config1 = (if MaxBatch config \<le> 0 then config\<lparr>MaxBatch := 10\<rparr> else config);
          config2 = (if Concurrency config1 \<le> 0 then config1\<lparr>Concurrency := 10\<rparr> else config1)
      in if PollIntervalMs config2 \<le> 0 then config2\<lparr>PollIntervalMs := 1000\<rparr> else config2)"

definition poll_interval :: "WorkerConfig \<Rightarrow> int" where
  "poll_interval config = int64 (PollIntervalMs config * 1000000)"

section \<open>State\<close>

type_synonym 'r item = "(message, 'r) MessageItem"

datatype 'r start_pc =
    NotStarted
  | LoopTop
  | Consuming
  | ConsumeFailed error
  | Polling
  | Dispatching "'r item list"
  | Draining "error option"
  | Returned "error option"

datatype go_pc =
    Running
  | Handled "error option"
  | Settled
  | Released

text \<open>
  The fields of the struct, then the locals of \<open>Start\<close>: its context, its program counter, the number
  of tokens in \<open>sem\<close>, the live goroutines; last the calls of \<open>Stop\<close> that wait for \<open>done\<close>.
  A channel that is only closed is the flag that says so; \<open>w_adapter\<close> and \<open>w_app\<close> are the states
  of the shared adapter and of the handlers.
\<close>

record ('a, 's, 'r) Worker =
  w_adapter :: 'a
  w_registry :: "'s Registry"
  w_config :: WorkerConfig
  w_app :: 's
  wg :: nat
  stopCh :: bool
  done_ch :: bool
  startErr :: "error option"
  s_ctx :: ctx
  s_pc :: "'r start_pc"
  sem :: nat
  gos :: "('r item \<times> go_pc) list"
  stoppers :: nat

definition NewWorker :: "'a \<Rightarrow> 's Registry \<Rightarrow> WorkerConfig \<Rightarrow> 's \<Rightarrow> ctx \<Rightarrow> ('a, 's, 'r) Worker" where
  "NewWorker adapter registry config app c =
     \<lparr>w_adapter = adapter, w_registry = registry, w_config = worker_config config, w_app = app,
      wg = 0, stopCh = False, done_ch = False, startErr = None,
      s_ctx = c, s_pc = NotStarted, sem = 0, gos = [], stoppers = 0\<rparr>"

section \<open>waitForNextPoll and processMessage\<close>

datatype wait_case = TimerFires | CtxDone | StopClosed

text \<open>
  The result of \<open>waitForNextPoll\<close> when the \<open>select\<close> takes the given case; no result when that case is
  not ready.  The timer fires at some point, so its case is always possible.
\<close>

definition waitForNextPoll :: "wait_case \<Rightarrow> ctx \<Rightarrow> bool \<Rightarrow> int \<Rightarrow> error option option" where
  "waitForNextPoll pick c stopped pollInterval =
     (if pollInterval \<le> 0 then Some None
      else case pick of
             TimerFires \<Rightarrow> Some None
           | CtxDone \<Rightarrow> (case c of None \<Rightarrow> None | Some e \<Rightarrow> Some (Some e))
           | StopClosed \<Rightarrow> (if stopped then Some (Some WorkerStopped) else None))"

text \<open>What \<open>processMessage\<close> does with the receipt once the handler has returned.\<close>

definition settle ::
  "('r \<Rightarrow> ctx \<Rightarrow> 'a \<Rightarrow> error option \<times> 'a) \<Rightarrow> ('r \<Rightarrow> ctx \<Rightarrow> 'a \<Rightarrow> error option \<times> 'a) \<Rightarrow>
   ctx \<Rightarrow> 'r item \<Rightarrow> error option \<Rightarrow> 'a \<Rightarrow> error option \<times> 'a" where
  "settle ack nack c it err a = (case err of Some _ \<Rightarrow> nack (Receipt it) c a | None \<Rightarrow> ack (Receipt it) c a)"

definition processMessage ::
  "('r \<Rightarrow> ctx \<Rightarrow> 'a \<Rightarrow> error option \<times> 'a) \<Rightarrow> ('r \<Rightarrow> ctx \<Rightarrow> 'a \<Rightarrow> error option \<times> 'a) \<Rightarrow>
   's Registry \<Rightarrow> ctx \<Rightarrow> 'r item \<Rightarrow> 's \<Rightarrow> 'a \<Rightarrow> 's \<times> 'a" where
  "processMessage ack nack registry c it app a =
     (let (err, app') = Handle registry c (Message it) app;
          (settleErr, a') = settle ack nack c it err a
      in (app', a'))"

section \<open>Steps\<close>

datatype 'r event =
    Tau
  | Took "'r item list"
  | Began "'r item"
  | Dropped "'r item list"
  | Ran "'r item" "error option"
  | DidSettle "'r item" "error option" "error option"
  | StartReturns "error option"
  | StopCalled
  | StopReturns "error option"
  | External

text \<open>\<open>startErr\<close> is set and returned; \<open>stop_return\<close> is the bare \<open>return nil\<close>.\<close>

definition fail_return :: "error \<Rightarrow> ('a, 's, 'r) Worker \<Rightarrow> ('a, 's, 'r) Worker" where
  "fail_return e w = w\<lparr>startErr := Some e, s_pc := Draining (Some e)\<rparr>"

definition stop_return :: "('a, 's, 'r) Worker \<Rightarrow> ('a, 's, 'r) Worker" where
  "stop_return w = w\<lparr>s_pc := Draining None\<rparr>"

inductive worker_step ::
  "('o \<Rightarrow> string \<Rightarrow> int \<Rightarrow> 'a \<Rightarrow> (error + (message, 'r) ConsumeResult option) \<times> 'a) \<Rightarrow>
   ('r \<Rightarrow> ctx \<Rightarrow> 'a \<Rightarrow> error option \<times> 'a) \<Rightarrow> ('r \<Rightarrow> ctx \<Rightarrow> 'a \<Rightarrow> error option \<times> 'a) \<Rightarrow>
   'r event \<Rightarrow> ('a, 's, 'r) Worker \<Rightarrow> ('a, 's, 'r) Worker \<Rightarrow> bool"
  for consume ack nack where
  start_call:
    "s_pc w = NotStarted \<Longrightarrow> worker_step consume ack nack Tau w (w\<lparr>s_pc := LoopTop\<rparr>)"
| top_ctx:
    "s_pc w = LoopTop \<Longrightarrow> s_ctx w = Some e \<Longrightarrow>
     worker_step consume ack nack Tau w (fail_return e w)"
| top_stop:
    "s_pc w = LoopTop \<Longrightarrow> stopCh w \<Longrightarrow> worker_step consume ack nack Tau w (stop_return w)"
| top_default:
    "s_pc w = LoopTop \<Longrightarrow> s_ctx w = None \<Longrightarrow> \<not> stopCh w \<Longrightarrow>
     worker_step consume ack nack Tau w (w\<lparr>s_pc := Consuming\<rparr>)"
| consume_error:
    "s_pc w = Consuming \<Longrightarrow>
     consume orc (QueueName (w_config w)) (MaxBatch (w_config w)) (w_adapter w) = (Inl e, a') \<Longrightarrow>
     worker_step consume ack nack Tau w (w\<lparr>w_adapter := a', s_pc := ConsumeFailed e\<rparr>)"
| failed_ctx:
    "s_pc w = ConsumeFailed e \<Longrightarrow> s_ctx w = Some ctxErr \<Longrightarrow>
     worker_step consume ack nack Tau w (fail_return ctxErr w)"
| failed:
    "s_pc w = ConsumeFailed e \<Longrightarrow> s_ctx w = None \<Longrightarrow>
     worker_step consume ack nack Tau w (fail_return e w)"
| consume_empty:
    "s_pc w = Consuming \<Longrightarrow>
     consume orc (QueueName (w_config w)) (MaxBatch (w_config w)) (w_adapter w) = (Inr res, a') \<Longrightarrow>
     (case res of None \<Rightarrow> True | Some cr \<Rightarrow> Items cr = []) \<Longrightarrow>
     worker_step consume ack nack Tau w (w\<lparr>w_adapter := a', s_pc := Polling\<rparr>)"
| poll_again:
    "s_pc w = Polling \<Longrightarrow>
     waitForNextPoll pick (s_ctx w) (stopCh w) (poll_interval (w_config w)) = Some None \<Longrightarrow>
     worker_step consume ack nack Tau w (w\<lparr>s_pc := LoopTop\<rparr>)"
| poll_stopped:
    "s_pc w = Polling \<Longrightarrow>
     waitForNextPoll pick (s_ctx w) (stopCh w) (poll_interval (w_config w)) = Some (Some e) \<Longrightarrow>
     errors_Is e WorkerStopped \<Longrightarrow>
     worker_step consume ack nack Tau w (stop_return w)"
| poll_failed:
    "s_pc w = Polling \<Longrightarrow>
     waitForNextPoll pick (s_ctx w) (stopCh w) (poll_interval (w_config w)) = Some (Some e) \<Longrightarrow>
     \<not> errors_Is e WorkerStopped \<Longrightarrow>
     worker_step consume ack nack Tau w (fail_return e w)"
| consume_items:
    "s_pc w = Consuming \<Longrightarrow>
     consume orc (QueueName (w_config w)) (MaxBatch (w_config w)) (w_adapter w) = (Inr (Some cr), a') \<Longrightarrow>
     Items cr \<noteq> [] \<Longrightarrow>
     worker_step consume ack nack (Took (Items cr)) w
       (w\<lparr>w_adapter := a', s_pc := Dispatching (Items cr)\<rparr>)"
| dispatch:
    "s_pc w = Dispatching (it # its) \<Longrightarrow> int (sem w) < Concurrency (w_config w) \<Longrightarrow>
     worker_step consume ack nack (Began it) w
       (w\<lparr>sem := sem w + 1, wg := wg w + 1, gos := gos w @ [(it, Running)], s_pc := Dispatching its\<rparr>)"
| dispatch_ctx:
    "s_pc w = Dispatching (it # its) \<Longrightarrow> s_ctx w = Some e \<Longrightarrow>
     worker_step consume ack nack (Dropped (it # its)) w (fail_return e w)"
| dispatch_stop:
    "s_pc w = Dispatching (it # its) \<Longrightarrow> stopCh w \<Longrightarrow>
     worker_step consume ack nack (Dropped (it # its)) w (stop_return w)"
| dispatched:
    "s_pc w = Dispatching [] \<Longrightarrow> worker_step consume ack nack Tau w (w\<lparr>s_pc := LoopTop\<rparr>)"
| drained:
    "s_pc w = Draining ret \<Longrightarrow> wg w = 0 \<Longrightarrow>
     worker_step consume ack nack (StartReturns ret) w (w\<lparr>done_ch := True, s_pc := Returned ret\<rparr>)"
| go_handle:
    "i < length (gos w) \<Longrightarrow> gos w ! i = (it, Running) \<Longrightarrow>
     Handle (w_registry w) (s_ctx w) (Message it) (w_app w) = (err, app') \<Longrightarrow>
     worker_step consume ack nack (Ran it err) w
       (w\<lparr>w_app := app', gos := (gos w)[i := (it, Handled err)]\<rparr>)"
| go_settle:
    "i < length (gos w) \<Longrightarrow> gos w ! i = (it, Handled err) \<Longrightarrow>
     settle ack nack (s_ctx w) it err (w_adapter w) = (ret, a') \<Longrightarrow>
     worker_step consume ack nack (DidSettle it err ret) w
       (w\<lparr>w_adapter := a', gos := (gos w)[i := (it, Settled)]\<rparr>)"
| go_release:
    "i < length (gos w) \<Longrightarrow> gos w ! i = (it, Settled) \<Longrightarrow> 0 < sem w \<Longrightarrow>
     worker_step consume ack nack Tau w (w\<lparr>sem := sem w - 1, gos := (gos w)[i := (it, Released)]\<rparr>)"
| go_done:
    "i < length (gos w) \<Longrightarrow> gos w ! i = (it, Released) \<Longrightarrow>
     worker_step consume ack nack Tau w (w\<lparr>wg := wg w - 1, gos := remove_nth i (gos w)\<rparr>)"
| stop_call:
    "worker_step consume ack nack StopCalled w (w\<lparr>stopCh := True, stoppers := stoppers w + 1\<rparr>)"
| stop_returns:
    "0 < stoppers w \<Longrightarrow> done_ch w \<Longrightarrow>
     worker_step consume ack nack (StopReturns (startErr w)) w (w\<lparr>stoppers := stoppers w - 1\<rparr>)"
| ctx_done:
    "s_ctx w = None \<Longrightarrow> ctx_ok (Some e) \<Longrightarrow>
     worker_step consume ack nack External w (w\<lparr>s_ctx := Some e\<rparr>)"
| register_handler:
    "worker_step consume ack nack External w (w\<lparr>w_registry := Register t act h (w_registry w)\<rparr>)"
| app_changes:
    "worker_step consume ack nack External w (w\<lparr>w_app := app'\<rparr>)"

section \<open>Runs\<close>

text \<open>
  A run starts from a new worker on the adapter state \<open>a0\<close>; between two steps of the worker, others
  may use the adapter.  What a run did to messages is read off its labels.
\<close>

definition taken :: "'r event list \<Rightarrow> 'r item list" where
  "taken tr = concat (map (\<lambda>ev. case ev of Took its \<Rightarrow> its | _ \<Rightarrow> []) tr)"

definition begun :: "'r event list \<Rightarrow> 'r item list" where
  "begun tr = concat (map (\<lambda>ev. case ev of Began it \<Rightarrow> [it] | _ \<Rightarrow> []) tr)"

definition dropped :: "'r event list \<Rightarrow> 'r item list" where
  "dropped tr = concat (map (\<lambda>ev. case ev of Dropped its \<Rightarrow> its | _ \<Rightarrow> []) tr)"

definition handler_runs :: "'r event list \<Rightarrow> ('r item \<times> error option) list" where
  "handler_runs tr = concat (map (\<lambda>ev. case ev of Ran it err \<Rightarrow> [(it, err)] | _ \<Rightarrow> []) tr)"

definition settled :: "'r event list \<Rightarrow> ('r item \<times> error option) list" where
  "settled tr = concat (map (\<lambda>ev. case ev of DidSettle it err _ \<Rightarrow> [(it, err)] | _ \<Rightarrow> []) tr)"

inductive worker_run ::
  "('o \<Rightarrow> string \<Rightarrow> int \<Rightarrow> 'a \<Rightarrow> (error + (message, 'r) ConsumeResult option) \<times> 'a) \<Rightarrow>
   ('r \<Rightarrow> ctx \<Rightarrow> 'a \<Rightarrow> error option \<times> 'a) \<Rightarrow> ('r \<Rightarrow> ctx \<Rightarrow> 'a \<Rightarrow> error option \<times> 'a) \<Rightarrow>
   ('r set \<Rightarrow> 'a \<Rightarrow> 'a \<Rightarrow> bool) \<Rightarrow> 'a \<Rightarrow> 'r event list \<Rightarrow> ('a, 's, 'r) Worker \<Rightarrow> bool"
  for consume ack nack others a0 where
  run_new: "ctx_ok c \<Longrightarrow> worker_run consume ack nack others a0 [] (NewWorker a0 reg config app c)"
| run_step:
    "worker_run consume ack nack others a0 tr w \<Longrightarrow> worker_step consume ack nack ev w w' \<Longrightarrow>
     worker_run consume ack nack others a0 (tr @ [ev]) w'"
| run_others:
    "worker_run consume ack nack others a0 tr w \<Longrightarrow>
     others (Receipt ` set (taken tr)) (w_adapter w) a' \<Longrightarrow>
     worker_run consume ack nack others a0 (tr @ [External]) (w\<lparr>w_adapter := a'\<rparr>)"

text \<open>A worker on an adapter that is given as an interface value.\<close>

abbreviation worker_on ::
  "('a, message, 'r, 'o) QueueAdapter \<Rightarrow> ('a, 'r) Receipt_methods \<Rightarrow> ('r set \<Rightarrow> 'a \<Rightarrow> 'a \<Rightarrow> bool) \<Rightarrow> 'a \<Rightarrow>
   'r event list \<Rightarrow> ('a, 's, 'r) Worker \<Rightarrow> bool" where
  "worker_on I R \<equiv> worker_run (ad_Consume I) (rc_Ack R) (rc_Nack R)"

section \<open>What the state holds\<close>

text \<open>The items of the goroutines by the point they are at, and the items not yet dispatched.\<close>

definition running :: "('r item \<times> go_pc) list \<Rightarrow> 'r item list" where
  "running gs = concat (map (\<lambda>(it, p). case p of Running \<Rightarrow> [it] | _ \<Rightarrow> []) gs)"

definition handled :: "('r item \<times> go_pc) list \<Rightarrow> ('r item \<times> error option) list" where
  "handled gs = concat (map (\<lambda>(it, p). case p of Handled err \<Rightarrow> [(it, err)] | _ \<Rightarrow> []) gs)"

definition holding :: "('r item \<times> go_pc) list \<Rightarrow> 'r item list" where
  "holding gs = concat (map (\<lambda>(it, p). case p of Released \<Rightarrow> [] | _ \<Rightarrow> [it]) gs)"

primrec to_dispatch :: "'r start_pc \<Rightarrow> 'r item list" where
  "to_dispatch NotStarted = []"
| "to_dispatch LoopTop = []"
| "to_dispatch Consuming = []"
| "to_dispatch (ConsumeFailed e) = []"
| "to_dispatch Polling = []"
| "to_dispatch (Dispatching its) = its"
| "to_dispatch (Draining ret) = []"
| "to_dispatch (Returned ret) = []"

primrec returning :: "'r start_pc \<Rightarrow> error option option" where
  "returning NotStarted = None"
| "returning LoopTop = None"
| "returning Consuming = None"
| "returning (ConsumeFailed e) = None"
| "returning Polling = None"
| "returning (Dispatching its) = None"
| "returning (Draining ret) = Some ret"
| "returning (Returned ret) = Some ret"

lemma trace_simps [simp]:
  "taken [] = []" "begun [] = []" "dropped [] = []" "handler_runs [] = []" "settled [] = []"
  "taken (tr @ [ev]) = taken tr @ (case ev of Took its \<Rightarrow> its | _ \<Rightarrow> [])"
  "begun (tr @ [ev]) = begun tr @ (case ev of Began it \<Rightarrow> [it] | _ \<Rightarrow> [])"
  "dropped (tr @ [ev]) = dropped tr @ (case ev of Dropped its \<Rightarrow> its | _ \<Rightarrow> [])"
  "handler_runs (tr @ [ev]) = handler_runs tr @ (case ev of Ran it err \<Rightarrow> [(it, err)] | _ \<Rightarrow> [])"
  "settled (tr @ [ev]) = settled tr @ (case ev of DidSettle it err _ \<Rightarrow> [(it, err)] | _ \<Rightarrow> [])"
  by (simp_all add: taken_def begun_def dropped_def handler_runs_def settled_def)

lemma gos_simps [simp]:
  "running [] = []" "handled [] = []" "holding [] = []"
  "running (gs @ [(it, Running)]) = running gs @ [it]"
  "handled (gs @ [(it, Running)]) = handled gs"
  "holding (gs @ [(it, Running)]) = holding gs @ [it]"
  by (simp_all add: running_def handled_def holding_def)

lemma running_go:
  assumes "i < length gs"
  shows "gs ! i = (it, Running) \<Longrightarrow> mset (running gs) = add_mset it (mset (running (gs[i := (it, Handled err)])))"
    and "gs ! i = (it, Handled err) \<Longrightarrow> mset (running (gs[i := (it, Settled)])) = mset (running gs)"
    and "gs ! i = (it, Settled) \<Longrightarrow> mset (running (gs[i := (it, Released)])) = mset (running gs)"
    and "gs ! i = (it, Released) \<Longrightarrow> mset (running (remove_nth i gs)) = mset (running gs)"
  using mset_concat_update [OF assms, of "\<lambda>(it, p). case p of Running \<Rightarrow> [it] | _ \<Rightarrow> []"]
    mset_concat_remove [OF assms, of "\<lambda>(it, p). case p of Running \<Rightarrow> [it] | _ \<Rightarrow> []"]
  by (auto simp: running_def)

lemma handled_go:
  assumes "i < length gs"
  shows "gs ! i = (it, Running) \<Longrightarrow> mset (handled (gs[i := (it, Handled err)])) = add_mset (it, err) (mset (handled gs))"
    and "gs ! i = (it, Handled err) \<Longrightarrow> mset (handled gs) = add_mset (it, err) (mset (handled (gs[i := (it, Settled)])))"
    and "gs ! i = (it, Settled) \<Longrightarrow> mset (handled (gs[i := (it, Released)])) = mset (handled gs)"
    and "gs ! i = (it, Released) \<Longrightarrow> mset (handled (remove_nth i gs)) = mset (handled gs)"
  using mset_concat_update [OF assms, of "\<lambda>(it, p). case p of Handled err \<Rightarrow> [(it, err)] | _ \<Rightarrow> []"]
    mset_concat_remove [OF assms, of "\<lambda>(it, p). case p of Handled err \<Rightarrow> [(it, err)] | _ \<Rightarrow> []"]
  by (auto simp: handled_def)

lemma holding_go:
  assumes "i < length gs"
  shows "gs ! i = (it, Running) \<Longrightarrow> length (holding (gs[i := (it, Handled err)])) = length (holding gs)"
    and "gs ! i = (it, Handled err) \<Longrightarrow> length (holding (gs[i := (it, Settled)])) = length (holding gs)"
    and "gs ! i = (it, Settled) \<Longrightarrow> length (holding gs) = Suc (length (holding (gs[i := (it, Released)])))"
    and "gs ! i = (it, Released) \<Longrightarrow> length (holding (remove_nth i gs)) = length (holding gs)"
  using length_concat_update [OF assms, of "\<lambda>(it, p). case p of Released \<Rightarrow> [] | _ \<Rightarrow> [it]" "(it, Handled err)"]
    length_concat_update [OF assms, of "\<lambda>(it, p). case p of Released \<Rightarrow> [] | _ \<Rightarrow> [it]" "(it, Settled)"]
    length_concat_update [OF assms, of "\<lambda>(it, p). case p of Released \<Rightarrow> [] | _ \<Rightarrow> [it]" "(it, Released)"]
    length_concat_remove [OF assms, of "\<lambda>(it, p). case p of Released \<Rightarrow> [] | _ \<Rightarrow> [it]"]
  by (auto simp: holding_def)

lemma return_fields [simp]:
  "gos (fail_return e w) = gos w" "sem (fail_return e w) = sem w" "wg (fail_return e w) = wg w"
  "w_config (fail_return e w) = w_config w" "s_ctx (fail_return e w) = s_ctx w"
  "stopCh (fail_return e w) = stopCh w" "done_ch (fail_return e w) = done_ch w"
  "s_pc (fail_return e w) = Draining (Some e)" "startErr (fail_return e w) = Some e"
  "w_adapter (fail_return e w) = w_adapter w"
  "gos (stop_return w) = gos w" "sem (stop_return w) = sem w" "wg (stop_return w) = wg w"
  "w_config (stop_return w) = w_config w" "s_ctx (stop_return w) = s_ctx w"
  "stopCh (stop_return w) = stopCh w" "done_ch (stop_return w) = done_ch w"
  "s_pc (stop_return w) = Draining None" "startErr (stop_return w) = startErr w"
  "w_adapter (stop_return w) = w_adapter w"
  by (simp_all add: fail_return_def stop_return_def)

section \<open>Invariants\<close>

text \<open>
  The synchronisation state: tokens and wait-group count match the goroutines, the token bound, and
  \<open>done\<close> is closed exactly when \<open>Start\<close> has returned, by then with no goroutine left.
\<close>

definition sync_inv :: "('a, 's, 'r) Worker \<Rightarrow> bool" where
  "sync_inv w \<longleftrightarrow>
     sem w = length (holding (gos w)) \<and> wg w = length (gos w) \<and>
     int (sem w) \<le> Concurrency (w_config w) \<and> 0 < Concurrency (w_config w) \<and> 0 < MaxBatch (w_config w) \<and>
     (done_ch w \<longleftrightarrow> (\<exists>ret. s_pc w = Returned ret)) \<and> (done_ch w \<longrightarrow> gos w = [])"

lemma worker_config_pos:
  "0 < MaxBatch (worker_config c)" "0 < Concurrency (worker_config c)" "0 < PollIntervalMs (worker_config c)"
  by (auto simp: worker_config_def Let_def)

lemma sync_inv_step:
  assumes "worker_step consume ack nack ev w w'" and "sync_inv w"
  shows "sync_inv w'"
  using assms
proof cases
  case (go_release i it)
  then show ?thesis using assms(2) holding_go(3) [of i "gos w" it] by (auto simp: sync_inv_def)
qed (auto simp: sync_inv_def holding_go(1,2,4))

lemma sync_inv_run: "worker_run consume ack nack others a0 tr w \<Longrightarrow> sync_inv w"
proof (induction rule: worker_run.induct)
  case (run_step tr w ev w')
  then show ?case using sync_inv_step by blast
qed (auto simp: sync_inv_def NewWorker_def worker_config_pos intro: less_imp_le)

text \<open>The books: where every message is that the worker has ever taken.\<close>

definition books_inv :: "'r event list \<Rightarrow> ('a, 's, 'r) Worker \<Rightarrow> bool" where
  "books_inv tr w \<longleftrightarrow>
     taken tr = begun tr @ to_dispatch (s_pc w) @ dropped tr \<and>
     (dropped tr \<noteq> [] \<longrightarrow> returning (s_pc w) \<noteq> None) \<and>
     mset (begun tr) = mset (map fst (handler_runs tr)) + mset (running (gos w)) \<and>
     mset (handler_runs tr) = mset (settled tr) + mset (handled (gos w))"

lemma books_inv_step:
  assumes "worker_step consume ack nack ev w w'" and "books_inv tr w"
  shows "books_inv (tr @ [ev]) w'"
  using assms
proof cases
  case (go_handle i it err app')
  then show ?thesis using assms(2) running_go(1) [of i "gos w" it err]
    by (simp add: books_inv_def handled_go(1))
next
  case (go_settle i it err ret a')
  then show ?thesis using assms(2) handled_go(2) [of i "gos w" it err]
    by (simp add: books_inv_def running_go(2))
qed (auto simp: books_inv_def running_go(3,4) handled_go(3,4))

lemma books_inv_run: "worker_run consume ack nack others a0 tr w \<Longrightarrow> books_inv tr w"
proof (induction rule: worker_run.induct)
  case (run_step tr w ev w')
  then show ?case using books_inv_step by blast
qed (auto simp: books_inv_def NewWorker_def)

text \<open>
  The outcome: \<open>startErr\<close> is set exactly by the returns that report an error, a nil return means Stop
  was called, and an error is the context's or one that \<open>Consume\<close> reported.
\<close>

definition consume_fails ::
  "('o \<Rightarrow> string \<Rightarrow> int \<Rightarrow> 'a \<Rightarrow> (error + (message, 'r) ConsumeResult option) \<times> 'a) \<Rightarrow>
   WorkerConfig \<Rightarrow> error \<Rightarrow> bool" where
  "consume_fails consume cfg e \<longleftrightarrow> (\<exists>orc a a'. consume orc (QueueName cfg) (MaxBatch cfg) a = (Inl e, a'))"

definition outcome_inv ::
  "('o \<Rightarrow> string \<Rightarrow> int \<Rightarrow> 'a \<Rightarrow> (error + (message, 'r) ConsumeResult option) \<times> 'a) \<Rightarrow>
   'r event list \<Rightarrow> ('a, 's, 'r) Worker \<Rightarrow> bool" where
  "outcome_inv consume tr w \<longleftrightarrow>
     ctx_ok (s_ctx w) \<and>
     (stopCh w \<longleftrightarrow> StopCalled \<in> set tr) \<and>
     (\<forall>e. s_pc w = ConsumeFailed e \<longrightarrow> consume_fails consume (w_config w) e) \<and>
     (case returning (s_pc w) of
        None \<Rightarrow> startErr w = None
      | Some None \<Rightarrow> startErr w = None \<and> stopCh w
      | Some (Some e) \<Rightarrow> startErr w = Some e \<and> (s_ctx w = Some e \<or> consume_fails consume (w_config w) e)) \<and>
     (\<forall>ret. StartReturns ret \<in> set tr \<longleftrightarrow> s_pc w = Returned ret) \<and>
     (\<forall>ret. StopReturns ret \<in> set tr \<longrightarrow> s_pc w = Returned ret)"

lemma waitForNextPoll_error:
  "waitForNextPoll pick c stopped d = Some (Some e) \<Longrightarrow> (e = WorkerStopped \<and> stopped) \<or> c = Some e"
  by (auto simp: waitForNextPoll_def split: if_splits wait_case.splits option.splits)

lemma ctx_not_stopped: "ctx_ok c \<Longrightarrow> c \<noteq> Some WorkerStopped"
  by (auto simp: ctx_ok_def)

lemma poll_error_cases:
  assumes "waitForNextPoll pick c stopped d = Some (Some e)" and "ctx_ok c"
  shows "errors_Is e WorkerStopped \<longleftrightarrow> e = WorkerStopped \<and> stopped"
    and "\<not> errors_Is e WorkerStopped \<longleftrightarrow> c = Some e"
  using waitForNextPoll_error [OF assms(1)] assms(2) ctx_ok_not_stopped [of e] ctx_not_stopped [OF assms(2)]
  by (cases c; auto)+

lemma outcome_inv_step:
  assumes "worker_step consume ack nack ev w w'" and "outcome_inv consume tr w" and "sync_inv w"
  shows "outcome_inv consume (tr @ [ev]) w'"
  using assms
proof cases
  case (poll_stopped pick e)
  with assms(2) poll_error_cases(1) [OF poll_stopped(4)] show ?thesis by (simp add: outcome_inv_def)
next
  case (poll_failed pick e)
  with assms(2) poll_error_cases(2) [OF poll_failed(4)] show ?thesis by (simp add: outcome_inv_def)
next
  case (consume_error orc e a')
  then have "consume_fails consume (w_config w) e" unfolding consume_fails_def by blast
  with consume_error assms(2) show ?thesis by (simp add: outcome_inv_def)
next
  case (stop_returns)
  then obtain ret where r: "s_pc w = Returned ret" using assms(3) by (auto simp: sync_inv_def)
  with assms(2) have "startErr w = ret" by (auto simp: outcome_inv_def split: option.splits)
  with stop_returns r assms(2) show ?thesis by (auto simp: outcome_inv_def split: option.splits)
qed (auto simp: outcome_inv_def split: option.splits)

lemma outcome_inv_run: "worker_run consume ack nack others a0 tr w \<Longrightarrow> outcome_inv consume tr w"
proof (induction rule: worker_run.induct)
  case (run_step tr w ev w')
  show ?case by (rule outcome_inv_step [OF run_step.hyps(2) run_step.IH sync_inv_run [OF run_step.hyps(1)]])
qed (auto simp: outcome_inv_def NewWorker_def split: option.splits)

section \<open>Progress\<close>

text \<open>The steps of \<open>Start\<close> and of its goroutines, as opposed to those of their environment.\<close>

primrec own :: "'r event \<Rightarrow> bool" where
  "own Tau = True"
| "own (Took its) = True"
| "own (Began it) = True"
| "own (Dropped its) = True"
| "own (Ran it err) = True"
| "own (DidSettle it err ret) = True"
| "own (StartReturns ret) = True"
| "own StopCalled = False"
| "own (StopReturns ret) = False"
| "own External = False"

definition can_step ::
  "('o \<Rightarrow> string \<Rightarrow> int \<Rightarrow> 'a \<Rightarrow> (error + (message, 'r) ConsumeResult option) \<times> 'a) \<Rightarrow>
   ('r \<Rightarrow> ctx \<Rightarrow> 'a \<Rightarrow> error option \<times> 'a) \<Rightarrow> ('r \<Rightarrow> ctx \<Rightarrow> 'a \<Rightarrow> error option \<times> 'a) \<Rightarrow>
   ('a, 's, 'r) Worker \<Rightarrow> bool" where
  "can_step consume ack nack w \<longleftrightarrow> (\<exists>ev w'. own ev \<and> worker_step consume ack nack ev w w')"

lemma can_stepI: "worker_step consume ack nack ev w w' \<Longrightarrow> own ev \<Longrightarrow> can_step consume ack nack w"
  by (auto simp: can_step_def)

text \<open>A goroutine can always go on, and \<open>Start\<close> stays where it is meanwhile.\<close>

lemma goroutine_steps:
  assumes "sync_inv w" and "i < length (gos w)"
  shows "\<exists>ev w'. own ev \<and> worker_step consume ack nack ev w w' \<and> s_pc w' = s_pc w"
proof -
  obtain it p where g: "gos w ! i = (it, p)" by fastforce
  have stepI: "worker_step consume ack nack ev w w' \<Longrightarrow> own ev \<Longrightarrow> s_pc w' = s_pc w \<Longrightarrow> ?thesis" for ev w' by blast
  show ?thesis
  proof (cases p)
    case Running
    obtain err app' where "Handle (w_registry w) (s_ctx w) (Message it) (w_app w) = (err, app')" by fastforce
    from stepI [OF go_handle [OF assms(2) _ this]] g Running show ?thesis by simp
  next
    case (Handled err)
    obtain ret a' where "settle ack nack (s_ctx w) it err (w_adapter w) = (ret, a')" by fastforce
    from stepI [OF go_settle [OF assms(2) _ this]] g Handled show ?thesis by simp
  next
    case Settled
    with g assms have "0 < sem w" using holding_go(3) [OF assms(2)] by (simp add: sync_inv_def)
    from stepI [OF go_release [OF assms(2) _ this]] g Settled show ?thesis by simp
  next
    case Released
    from stepI [OF go_done [OF assms(2)]] g Released show ?thesis by simp
  qed
qed

lemma goroutine_can_step:
  "sync_inv w \<Longrightarrow> i < length (gos w) \<Longrightarrow> can_step consume ack nack w"
  using goroutine_steps by (fastforce simp: can_step_def)

lemma consume_can_step:
  fixes consume :: "'o \<Rightarrow> string \<Rightarrow> int \<Rightarrow> 'a \<Rightarrow> (error + (message, 'r) ConsumeResult option) \<times> 'a"
  assumes "s_pc w = Consuming"
  shows "can_step consume ack nack w"
proof -
  fix orc :: 'o
  obtain res a' where c: "consume orc (QueueName (w_config w)) (MaxBatch (w_config w)) (w_adapter w) = (res, a')"
    by fastforce
  show ?thesis
  proof (cases res)
    case (Inl e)
    with c can_stepI [OF consume_error [OF assms]] show ?thesis by simp
  next
    case (Inr ocr)
    show ?thesis
    proof (cases "case ocr of None \<Rightarrow> True | Some cr \<Rightarrow> Items cr = []")
      case True
      with c Inr can_stepI [OF consume_empty [OF assms]] show ?thesis by simp
    next
      case False
      then obtain cr where "ocr = Some cr" "Items cr \<noteq> []" by (auto split: option.splits)
      with c Inr can_stepI [OF consume_items [OF assms]] show ?thesis by simp
    qed
  qed
qed

lemma dispatch_can_step:
  assumes "sync_inv w" and "s_pc w = Dispatching its"
  shows "can_step consume ack nack w"
proof (cases its)
  case Nil
  with assms(2) can_stepI [OF dispatched] show ?thesis by simp
next
  case (Cons it its')
  show ?thesis
  proof (cases "int (sem w) < Concurrency (w_config w)")
    case True
    with assms(2) Cons can_stepI [OF dispatch] show ?thesis by simp
  next
    case False
    with assms(1) have "gos w \<noteq> []" by (auto simp: sync_inv_def)
    with goroutine_can_step [OF assms(1), of 0] show ?thesis by simp
  qed
qed

lemma never_stuck:
  assumes "sync_inv w" and "\<nexists>ret. s_pc w = Returned ret"
  shows "can_step consume ack nack w"
proof (cases "s_pc w")
  case NotStarted
  then show ?thesis by (rule can_stepI [OF start_call]) simp
next
  case LoopTop
  then show ?thesis
    using can_stepI [OF top_ctx] can_stepI [OF top_stop] can_stepI [OF top_default]
    by (cases "s_ctx w"; cases "stopCh w") auto
next
  case (ConsumeFailed e)
  then show ?thesis
    using can_stepI [OF failed_ctx] can_stepI [OF failed] by (cases "s_ctx w") auto
next
  case Polling
  have "waitForNextPoll TimerFires (s_ctx w) (stopCh w) (poll_interval (w_config w)) = Some None"
    by (simp add: waitForNextPoll_def)
  from can_stepI [OF poll_again [OF Polling this]] show ?thesis by simp
next
  case (Draining ret)
  show ?thesis
  proof (cases "gos w")
    case Nil
    with assms(1) have "wg w = 0" by (simp add: sync_inv_def)
    from can_stepI [OF drained [OF Draining this]] show ?thesis by simp
  next
    case (Cons g gs)
    with goroutine_can_step [OF assms(1), of 0] show ?thesis by simp
  qed
qed (use assms consume_can_step dispatch_can_step in auto)

text \<open>
  An upper bound on the steps a worker still makes once it has been told to stop: five per item it
  has not dispatched, the rest of each goroutine, and the way out of the loop.
\<close>

primrec go_work :: "go_pc \<Rightarrow> nat" where
  "go_work Running = 4"
| "go_work (Handled err) = 3"
| "go_work Settled = 2"
| "go_work Released = 1"

primrec pc_work :: "nat \<Rightarrow> 'r start_pc \<Rightarrow> nat" where
  "pc_work batch NotStarted = 3"
| "pc_work batch LoopTop = 2"
| "pc_work batch Consuming = 4 + 5 * batch"
| "pc_work batch (ConsumeFailed e) = 2"
| "pc_work batch Polling = 3"
| "pc_work batch (Dispatching its) = 3 + 5 * length its"
| "pc_work batch (Draining ret) = 1"
| "pc_work batch (Returned ret) = 0"

definition work_left :: "('a, 's, 'r) Worker \<Rightarrow> nat" where
  "work_left w = pc_work (nat (MaxBatch (w_config w))) (s_pc w) + sum_list (map (go_work \<circ> snd) (gos w))"

definition stopping :: "('a, 's, 'r) Worker \<Rightarrow> bool" where
  "stopping w \<longleftrightarrow> stopCh w \<or> s_ctx w \<noteq> None"

lemma go_work_update:
  assumes "i < length gs" and "gs ! i = (it, p)"
  shows "sum_list (map (go_work \<circ> snd) (gs[i := (it', p')])) + go_work p = sum_list (map (go_work \<circ> snd) gs) + go_work p'"
    and "sum_list (map (go_work \<circ> snd) (remove_nth i gs)) + go_work p = sum_list (map (go_work \<circ> snd) gs)"
  using sum_list_map_update [OF assms(1), of "go_work \<circ> snd" "(it', p')"]
    sum_list_map_remove [OF assms(1), of "go_work \<circ> snd"] assms(2) by simp_all

lemma stopping_step: "worker_step consume ack nack ev w w' \<Longrightarrow> stopping w \<Longrightarrow> stopping w'"
  by (cases rule: worker_step.cases) (auto simp: stopping_def)

lemma own_step_work:
  assumes "worker_step consume ack nack ev w w'" and "own ev" and "stopping w"
    and "\<And>orc cr a'. consume orc (QueueName (w_config w)) (MaxBatch (w_config w)) (w_adapter w) = (Inr (Some cr), a')
           \<Longrightarrow> int (length (Items cr)) \<le> MaxBatch (w_config w)"
  shows "work_left w' < work_left w"
  using assms(1)
proof cases
  case (consume_items orc cr a')
  then have "length (Items cr) \<le> nat (MaxBatch (w_config w))" using assms(4) by fastforce
  with consume_items show ?thesis by (simp add: work_left_def)
next
  case (go_handle i it err app')
  then show ?thesis using go_work_update(1) [of i "gos w" it Running it "Handled err"] by (simp add: work_left_def)
next
  case (go_settle i it err ret a')
  then show ?thesis using go_work_update(1) [of i "gos w" it "Handled err" it Settled] by (simp add: work_left_def)
next
  case (go_release i it)
  then show ?thesis using go_work_update(1) [of i "gos w" it Settled it Released] by (simp add: work_left_def)
next
  case (go_done i it)
  then show ?thesis using go_work_update(2) [of i "gos w" it Released] by (simp add: work_left_def)
qed (use assms(2,3) in \<open>auto simp: work_left_def stopping_def\<close>)

text \<open>How a run goes on: the labels after the point where it had the trace \<open>tr0\<close> and the state \<open>w0\<close>.\<close>

inductive worker_cont ::
  "('o \<Rightarrow> string \<Rightarrow> int \<Rightarrow> 'a \<Rightarrow> (error + (message, 'r) ConsumeResult option) \<times> 'a) \<Rightarrow>
   ('r \<Rightarrow> ctx \<Rightarrow> 'a \<Rightarrow> error option \<times> 'a) \<Rightarrow> ('r \<Rightarrow> ctx \<Rightarrow> 'a \<Rightarrow> error option \<times> 'a) \<Rightarrow>
   ('r set \<Rightarrow> 'a \<Rightarrow> 'a \<Rightarrow> bool) \<Rightarrow> 'r event list \<Rightarrow> ('a, 's, 'r) Worker \<Rightarrow>
   'r event list \<Rightarrow> ('a, 's, 'r) Worker \<Rightarrow> bool"
  for consume ack nack others tr0 w0 where
  cont_refl: "worker_cont consume ack nack others tr0 w0 [] w0"
| cont_step:
    "worker_cont consume ack nack others tr0 w0 ext w \<Longrightarrow> worker_step consume ack nack ev w w' \<Longrightarrow>
     worker_cont consume ack nack others tr0 w0 (ext @ [ev]) w'"
| cont_others:
    "worker_cont consume ack nack others tr0 w0 ext w \<Longrightarrow>
     others (Receipt ` set (taken (tr0 @ ext))) (w_adapter w) a' \<Longrightarrow>
     worker_cont consume ack nack others tr0 w0 (ext @ [External]) (w\<lparr>w_adapter := a'\<rparr>)"

lemma cont_run:
  assumes "worker_cont consume ack nack others tr0 w0 ext w" and "worker_run consume ack nack others a0 tr0 w0"
  shows "worker_run consume ack nack others a0 (tr0 @ ext) w"
  using assms
proof (induction rule: worker_cont.induct)
  case (cont_step ext w ev w')
  from run_step [OF cont_step.IH [OF cont_step.prems] cont_step.hyps(2)] show ?case by simp
next
  case (cont_others ext w a')
  from run_others [where others = others, OF cont_others.IH [OF cont_others.prems] cont_others.hyps(2)]
  show ?case by simp
qed simp

lemma run_cont:
  "worker_run consume ack nack others a0 tr w \<Longrightarrow>
   \<exists>w0. worker_run consume ack nack others a0 [] w0 \<and> w_adapter w0 = a0 \<and> worker_cont consume ack nack others [] w0 tr w"
proof (induction rule: worker_run.induct)
  case (run_new c reg config app)
  have "w_adapter (NewWorker a0 reg config app c) = a0" by (simp add: NewWorker_def)
  with worker_run.run_new [OF run_new] show ?case
    by (intro exI [of _ "NewWorker a0 reg config app c"] conjI cont_refl)
next
  case (run_step tr w ev w')
  then obtain w0 where "worker_run consume ack nack others a0 [] w0" "w_adapter w0 = a0"
    "worker_cont consume ack nack others [] w0 tr w" by blast
  with cont_step [OF this(3) run_step.hyps(2)] show ?case by (intro exI [of _ w0] conjI)
next
  case (run_others tr w a')
  then obtain w0 where w0: "worker_run consume ack nack others a0 [] w0" "w_adapter w0 = a0"
    "worker_cont consume ack nack others [] w0 tr w" by blast
  have "worker_cont consume ack nack others [] w0 (tr @ [External]) (w\<lparr>w_adapter := a'\<rparr>)"
    by (rule cont_others [OF w0(3)]) (use run_others.hyps(2) in simp)
  with w0(1,2) show ?case by (intro exI [of _ w0] conjI)
qed

lemma external_step_work: "worker_step consume ack nack ev w w' \<Longrightarrow> \<not> own ev \<Longrightarrow> work_left w' = work_left w"
  by (cases rule: worker_step.cases) (auto simp: work_left_def)

section \<open>On an adapter that keeps to the batch size\<close>

text \<open>
  All that termination asks of an adapter: in the states it can be in, a batch is never larger than asked for.
\<close>

locale bounded_consumer =
  fixes consume :: "'o \<Rightarrow> string \<Rightarrow> int \<Rightarrow> 'a \<Rightarrow> (error + (message, 'r) ConsumeResult option) \<times> 'a"
    and ack :: "'r \<Rightarrow> ctx \<Rightarrow> 'a \<Rightarrow> error option \<times> 'a"
    and nack :: "'r \<Rightarrow> ctx \<Rightarrow> 'a \<Rightarrow> error option \<times> 'a"
    and others :: "'r set \<Rightarrow> 'a \<Rightarrow> 'a \<Rightarrow> bool"
    and good :: "'a \<Rightarrow> bool"
  assumes consume_bound:
      "good a \<Longrightarrow> 0 < n \<Longrightarrow> consume orc q n a = (Inr (Some cr), a') \<Longrightarrow> int (length (Items cr)) \<le> n"
    and consume_good: "good a \<Longrightarrow> consume orc q n a = (res, a') \<Longrightarrow> good a'"
    and ack_good: "good a \<Longrightarrow> ack r c a = (ret, a') \<Longrightarrow> good a'"
    and nack_good: "good a \<Longrightarrow> nack r c a = (ret, a') \<Longrightarrow> good a'"
    and others_good: "good a \<Longrightarrow> others R a a' \<Longrightarrow> good a'"
begin

lemma good_step:
  assumes "worker_step consume ack nack ev w w'" and "good (w_adapter w)"
  shows "good (w_adapter w')"
  using assms
proof cases
  case (go_settle i it err ret a')
  then show ?thesis using ack_good [OF assms(2)] nack_good [OF assms(2)] by (auto simp: settle_def split: option.splits)
qed (auto dest: consume_good)

lemma good_run: "worker_run consume ack nack others a0 tr w \<Longrightarrow> good a0 \<Longrightarrow> good (w_adapter w)"
  by (induction rule: worker_run.induct) (auto simp: NewWorker_def dest: good_step others_good)

text \<open>Once told to stop, the worker makes a bounded number of steps, whatever happens around it.\<close>

lemma stop_bounded:
  assumes "worker_cont consume ack nack others tr0 w0 ext w" and "worker_run consume ack nack others a0 tr0 w0"
    and "good a0" and "stopping w0"
  shows "length (filter own ext) + work_left w \<le> work_left w0 \<and> stopping w"
  using assms
proof (induction rule: worker_cont.induct)
  case (cont_step ext w ev w')
  have run: "worker_run consume ack nack others a0 (tr0 @ ext) w" by (rule cont_run [OF cont_step.hyps(1) cont_step.prems(1)])
  note IH = cont_step.IH [OF cont_step.prems]
  have "good (w_adapter w)" by (rule good_run [OF run cont_step.prems(2)])
  moreover have "0 < MaxBatch (w_config w)" using sync_inv_run [OF run] by (simp add: sync_inv_def)
  ultimately have "own ev \<Longrightarrow> work_left w' < work_left w"
    using own_step_work [OF cont_step.hyps(2)] consume_bound IH by blast
  with external_step_work [OF cont_step.hyps(2)] stopping_step [OF cont_step.hyps(2)] IH show ?case by auto
next
  case (cont_others ext w a')
  then show ?case by (simp add: work_left_def stopping_def)
qed simp

lemma stop_terminates:
  assumes "worker_run consume ack nack others a0 tr w" and "good a0" and "stopping w"
    and "worker_cont consume ack nack others tr w ext w'"
  shows "length (filter own ext) \<le> work_left w \<and>
    (length (filter own ext) = work_left w \<longrightarrow> done_ch w') \<and>
    (\<not> done_ch w' \<longrightarrow> can_step consume ack nack w')"
proof -
  note b = stop_bounded [OF assms(4,1,2,3)]
  have run: "worker_run consume ack nack others a0 (tr @ ext) w'" by (rule cont_run [OF assms(4,1)])
  then have dn: "done_ch w' \<longleftrightarrow> (\<exists>ret. s_pc w' = Returned ret)" using sync_inv_run [OF run] by (simp add: sync_inv_def)
  have "work_left w' = 0 \<Longrightarrow> \<exists>ret. s_pc w' = Returned ret" by (cases "s_pc w'") (simp_all add: work_left_def)
  with b dn never_stuck [OF sync_inv_run [OF run]] show ?thesis by (metis add_diff_cancel_left' add_leE diff_is_0_eq)
qed

end

section \<open>On an adapter that keeps its contract\<close>

text \<open>
  The items of a multiset are held by this worker alone: their receipts differ and are open, each
  for its message.
\<close>

definition owned :: "('r \<Rightarrow> message option) \<Rightarrow> 'r item multiset \<Rightarrow> bool" where
  "owned out M \<longleftrightarrow>
     (\<forall>r. count (image_mset Receipt M) r \<le> 1) \<and> (\<forall>it. it \<in># M \<longrightarrow> out (Receipt it) = Some (Message it))"

text \<open>The items taken and not settled, abandoned ones included.\<close>

definition unsettled :: "'r event list \<Rightarrow> ('a, 's, 'r) Worker \<Rightarrow> 'r item multiset" where
  "unsettled tr w =
     mset (to_dispatch (s_pc w)) + mset (running (gos w)) + image_mset fst (mset (handled (gos w))) + mset (dropped tr)"

lemma owned_settle:
  assumes "owned out (add_mset it M)" shows "owned (out(Receipt it := None)) M"
proof -
  have "Receipt it' \<noteq> Receipt it" if "it' \<in># M" for it'
  proof
    assume eq: "Receipt it' = Receipt it"
    from that have "0 < count (image_mset Receipt M) (Receipt it)" using eq by (metis count_greater_zero_iff image_eqI set_image_mset)
    moreover have "count (image_mset Receipt (add_mset it M)) (Receipt it) \<le> 1"
      using assms unfolding owned_def by blast
    ultimately show False by (auto simp: count_eq_zero_iff)
  qed
  moreover have "count (image_mset Receipt M) r \<le> 1" for r
    using assms unfolding owned_def by (metis count_add_mset image_mset_add_mset le_SucI not_less_eq_eq One_nat_def)
  ultimately show ?thesis using assms by (auto simp: owned_def)
qed

lemma owned_take:
  assumes "owned out M" and "distinct (map Receipt its)" and "\<forall>it \<in> set its. out (Receipt it) = None"
  shows "owned (out ++ map_of (map (\<lambda>it. (Receipt it, Message it)) its)) (M + mset its)"
proof -
  let ?new = "map_of (map (\<lambda>it. (Receipt it, Message it)) its)"
  have new: "?new (Receipt it) = Some (Message it)" if "it \<in> set its" for it
    using that assms(2) by (intro map_of_is_SomeI) (auto simp: comp_def)
  have old: "?new (Receipt it) = None" if "it \<in># M" for it
  proof -
    from that assms(1) have "out (Receipt it) \<noteq> None" by (simp add: owned_def)
    with assms(3) have "Receipt it \<notin> Receipt ` set its" by force
    then show ?thesis by (force simp: map_of_eq_None_iff)
  qed
  have "count (image_mset Receipt (M + mset its)) r \<le> 1" for r
  proof (cases "r \<in> Receipt ` set its")
    case True
    with assms(3) have "out r = None" by auto
    with assms(1) have "r \<notin># image_mset Receipt M" unfolding owned_def by force
    then have "count (image_mset Receipt M) r = 0" by (simp add: count_eq_zero_iff)
    moreover have "count (mset (map Receipt its)) r \<le> 1" using assms(2) by (simp add: distinct_count_atmost_1)
    ultimately show ?thesis by simp
  next
    case False
    then have "count (mset (map Receipt its)) r = 0" by (simp add: count_eq_zero_iff)
    with assms(1) show ?thesis by (simp add: owned_def)
  qed
  moreover have "(out ++ ?new) (Receipt it) = Some (Message it)" if "it \<in># M + mset its" for it
    using that new old assms(1) by (auto simp: owned_def map_add_def)
  ultimately show ?thesis by (simp add: owned_def)
qed

lemma owned_mono:
  "owned out M \<Longrightarrow> (\<And>it. it \<in># M \<Longrightarrow> out' (Receipt it) = out (Receipt it)) \<Longrightarrow> owned out' M"
  by (simp add: owned_def)

lemma unsettled_taken:
  assumes "books_inv tr w" and "it \<in># unsettled tr w" shows "it \<in> set (taken tr)"
proof -
  from assms(1) have "mset (taken tr) =
      mset (map fst (settled tr)) + image_mset fst (mset (handled (gos w))) + mset (running (gos w)) +
      mset (to_dispatch (s_pc w)) + mset (dropped tr)"
    by (simp add: books_inv_def ac_simps)
  with assms(2) have "it \<in># mset (taken tr)" by (auto simp: unsettled_def)
  then show ?thesis by simp
qed

locale worker_queue = queue_adapter publish pending inv consume ack nack outstanding
  for publish :: "ctx \<Rightarrow> string \<Rightarrow> message list \<Rightarrow> 'a \<Rightarrow> error option \<times> 'a"
    and pending :: "'a \<Rightarrow> string \<Rightarrow> message list"
    and inv :: "'a \<Rightarrow> bool"
    and consume :: "'o \<Rightarrow> string \<Rightarrow> int \<Rightarrow> 'a \<Rightarrow> (error + (message, 'r) ConsumeResult option) \<times> 'a"
    and ack :: "'r \<Rightarrow> ctx \<Rightarrow> 'a \<Rightarrow> error option \<times> 'a"
    and nack :: "'r \<Rightarrow> ctx \<Rightarrow> 'a \<Rightarrow> error option \<times> 'a"
    and outstanding :: "'a \<Rightarrow> 'r \<Rightarrow> message option" +
  fixes others :: "'r set \<Rightarrow> 'a \<Rightarrow> 'a \<Rightarrow> bool"
  assumes consume_never_nil: "inv a \<Longrightarrow> fst (consume orc q n a) \<noteq> Inr None"
    and others_inv: "inv a \<Longrightarrow> others R a a' \<Longrightarrow> inv a'"
    and others_keep:
      "inv a \<Longrightarrow> others R a a' \<Longrightarrow> r \<in> R \<Longrightarrow> outstanding a r = Some m \<Longrightarrow> outstanding a' r = Some m"
begin

lemma consume_keeps_owned:
  assumes "inv a" and "owned (outstanding a) M" and "consume orc q n a = (res, a')"
    and "\<not> (\<exists>cr. res = Inr (Some cr) \<and> Items cr \<noteq> [])"
  shows "inv a' \<and> owned (outstanding a') M"
proof (cases res)
  case (Inl e)
  with consume_fail [OF assms(1)] assms(3) have le: "outstanding a \<subseteq>\<^sub>m outstanding a'" by blast
  have "outstanding a' (Receipt it) = outstanding a (Receipt it)" if "it \<in># M" for it
  proof -
    from that assms(2) have "outstanding a (Receipt it) = Some (Message it)" by (simp add: owned_def)
    with le show ?thesis by (metis domI map_le_def)
  qed
  with owned_mono [OF assms(2)] consume_inv [OF assms(1,3)] show ?thesis by simp
next
  case (Inr ocr)
  with assms(3,4) consume_never_nil [OF assms(1)] obtain cr where cr: "ocr = Some cr" "Items cr = []"
    by (metis fst_conv option.exhaust)
  with consume_ok [OF assms(1)] assms(3) Inr have "outstanding a' = outstanding a" by auto
  with assms(2) consume_inv [OF assms(1,3)] show ?thesis by simp
qed

lemma settle_owned:
  assumes "inv a" and "owned (outstanding a) (add_mset it M)" and "settle ack nack c it err a = (ret, a')"
  shows "ret = None \<and> inv a' \<and> owned (outstanding a') M"
proof -
  from assms(2) have out: "outstanding a (Receipt it) = Some (Message it)" by (simp add: owned_def)
  have "ret = None \<and> inv a' \<and> outstanding a' = (outstanding a)(Receipt it := None)"
  proof (cases err)
    case None
    with assms(3) have "ack (Receipt it) c a = (ret, a')" by (simp add: settle_def)
    with ack_ok [OF assms(1) out this] ack_inv [OF assms(1) this] show ?thesis by simp
  next
    case (Some e)
    with assms(3) have "nack (Receipt it) c a = (ret, a')" by (simp add: settle_def)
    with nack_ok [OF assms(1) out this] nack_inv [OF assms(1) this] show ?thesis by simp
  qed
  with owned_settle [OF assms(2)] show ?thesis by simp
qed

text \<open>One step of a worker, with the items \<open>F\<close> that other workers on the adapter hold.\<close>

lemma receipts_step:
  assumes "worker_step consume ack nack ev w w'" and "inv (w_adapter w)"
    and "owned (outstanding (w_adapter w)) (unsettled tr w + F)"
  shows "inv (w_adapter w') \<and> owned (outstanding (w_adapter w')) (unsettled (tr @ [ev]) w' + F) \<and>
    (\<forall>it err ret. ev = DidSettle it err ret \<longrightarrow> ret = None)"
  using assms(1)
proof cases
  case (consume_error orc e a')
  with consume_keeps_owned [OF assms(2,3)] show ?thesis by (simp add: unsettled_def)
next
  case (consume_empty orc res a')
  with consume_keeps_owned [OF assms(2,3), of orc _ _ "Inr res" a'] show ?thesis
    by (auto simp: unsettled_def split: option.splits)
next
  case (consume_items orc cr a')
  note ok = consume_ok [OF assms(2) consume_items(4)]
  have "owned (outstanding a') (unsettled tr w + F + mset (Items cr))"
    using owned_take [OF assms(3), of "Items cr"] ok by simp
  then show ?thesis using consume_items consume_inv [OF assms(2) consume_items(4)]
    by (simp add: unsettled_def ac_simps)
next
  case (go_handle i it err app')
  then have "unsettled (tr @ [ev]) w' = unsettled tr w"
    using running_go(1) [of i "gos w" it err] handled_go(1) [of i "gos w" it err] by (simp add: unsettled_def)
  with go_handle assms(2,3) show ?thesis by simp
next
  case (go_settle i it err ret a')
  then have "unsettled tr w = add_mset it (unsettled (tr @ [ev]) w')"
    using running_go(2) [of i "gos w" it err] handled_go(2) [of i "gos w" it err] by (simp add: unsettled_def)
  with assms(3) have "owned (outstanding (w_adapter w)) (add_mset it (unsettled (tr @ [ev]) w' + F))" by simp
  from settle_owned [OF assms(2) this go_settle(5)] go_settle(1,2) show ?thesis by auto
next
  case (dispatch it its)
  with assms(2,3) show ?thesis by (simp add: unsettled_def ac_simps)
qed (use assms(2,3) in \<open>auto simp: unsettled_def ac_simps running_go(3,4) handled_go(3,4)\<close>)

lemma receipts_inv_run:
  assumes "worker_run consume ack nack others a0 tr w" and "inv a0"
  shows "inv (w_adapter w) \<and> owned (outstanding (w_adapter w)) (unsettled tr w) \<and>
    (\<forall>it err ret. DidSettle it err ret \<in> set tr \<longrightarrow> ret = None)"
  using assms
proof (induction rule: worker_run.induct)
  case (run_new c reg config app)
  then show ?case by (simp add: NewWorker_def unsettled_def owned_def)
next
  case (run_step tr w ev w')
  with receipts_step [OF run_step.hyps(2), of tr "{#}"] show ?case by auto
next
  case (run_others tr w a')
  from run_others.IH [OF run_others.prems]
  have i: "inv (w_adapter w)" "owned (outstanding (w_adapter w)) (unsettled tr w)"
    "\<forall>it err ret. DidSettle it err ret \<in> set tr \<longrightarrow> ret = None" by simp_all
  have "owned (outstanding a') (unsettled tr w)"
  proof (rule owned_mono [OF i(2)])
    fix it assume u: "it \<in># unsettled tr w"
    with i(2) have "outstanding (w_adapter w) (Receipt it) = Some (Message it)" by (simp add: owned_def)
    moreover from u have "Receipt it \<in> Receipt ` set (taken tr)"
      using unsettled_taken [OF books_inv_run [OF run_others.hyps(1)]] by simp
    ultimately show "outstanding a' (Receipt it) = outstanding (w_adapter w) (Receipt it)"
      using others_keep [OF i(1) run_others.hyps(2)] by simp
  qed
  with others_inv [OF i(1) run_others.hyps(2)] i(3) show ?case by (auto simp: unsettled_def)
qed

text \<open>Every settlement the worker makes is accepted: it never acks or nacks a receipt twice.\<close>

lemma settlements_accepted:
  "worker_run consume ack nack others a0 tr w \<Longrightarrow> inv a0 \<Longrightarrow> DidSettle it err ret \<in> set tr \<Longrightarrow> ret = None"
  using receipts_inv_run by blast

text \<open>An abandoned item stays open for ever: no one settles its receipt.\<close>

lemma dropped_open:
  assumes "worker_run consume ack nack others a0 tr w" and "inv a0" and "it \<in> set (dropped tr)"
  shows "outstanding (w_adapter w) (Receipt it) = Some (Message it)"
  using receipts_inv_run [OF assms(1,2)] assms(3) by (simp add: owned_def unsettled_def)

end

sublocale worker_queue \<subseteq> bounded_consumer consume ack nack others inv
proof
  fix a n orc q cr a'
  assume "inv a" "0 < n" "consume orc q n a = (Inr (Some cr), a')"
  with consume_ok [of a orc q n cr a'] show "int (length (Items cr)) \<le> n" by simp
qed (fact consume_inv ack_inv nack_inv others_inv)+

section \<open>A run on one message\<close>

text \<open>The start of a run whose first Consume returns the single item \<open>it\<close>, up to the goroutine that handles it.\<close>

definition first_item ::
  "('o \<Rightarrow> string \<Rightarrow> int \<Rightarrow> 'a \<Rightarrow> (error + (message, 'r) ConsumeResult option) \<times> 'a) \<Rightarrow>
   WorkerConfig \<Rightarrow> 'a \<Rightarrow> 'r item \<Rightarrow> 'a \<Rightarrow> bool" where
  "first_item consume config a0 it a1 \<longleftrightarrow>
     (\<exists>orc. consume orc (QueueName (worker_config config)) (MaxBatch (worker_config config)) a0 = (Inr (Some \<lparr>Items = [it]\<rparr>), a1))"

definition took :: "('a, 's, 'r) Worker \<Rightarrow> 'r item \<Rightarrow> 'a \<Rightarrow> ('a, 's, 'r) Worker" where
  "took w it a1 = w\<lparr>w_adapter := a1, s_pc := Dispatching [it]\<rparr>"

definition started :: "('a, 's, 'r) Worker \<Rightarrow> 'r item \<Rightarrow> 'a \<Rightarrow> ('a, 's, 'r) Worker" where
  "started w it a1 = w\<lparr>w_adapter := a1, sem := 1, wg := 1, gos := [(it, Running)], s_pc := LoopTop\<rparr>"

lemma run_took:
  assumes "w = NewWorker a0 reg config app None"
    and "first_item consume config a0 it a1"
  shows "worker_run consume ack nack others a0 [Tau, Tau, Took [it]] (took w it a1)"
proof -
  from assms(2) obtain orc where
    orc: "consume orc (QueueName (worker_config config)) (MaxBatch (worker_config config)) a0 = (Inr (Some \<lparr>Items = [it]\<rparr>), a1)"
    by (auto simp: first_item_def)
  have r0: "worker_run consume ack nack others a0 [] w"
    unfolding assms(1) by (rule run_new) (simp add: ctx_ok_def)
  have r1: "worker_run consume ack nack others a0 [Tau] (w\<lparr>s_pc := LoopTop\<rparr>)"
    using run_step [OF r0 start_call] by (simp add: assms(1) NewWorker_def)
  have r2: "worker_run consume ack nack others a0 [Tau, Tau] (w\<lparr>s_pc := Consuming\<rparr>)"
    using run_step [OF r1 top_default] by (simp add: assms(1) NewWorker_def)
  show ?thesis
    using run_step [OF r2 consume_items [where orc = orc and cr = "\<lparr>Items = [it]\<rparr>" and a' = a1]] orc
    by (simp add: assms(1) NewWorker_def took_def)
qed

lemma run_started:
  assumes "w = NewWorker a0 reg config app None"
    and "first_item consume config a0 it a1"
  shows "worker_run consume ack nack others a0 [Tau, Tau, Took [it], Began it, Tau] (started w it a1)"
proof -
  have pos: "0 < Concurrency (worker_config config)" by (rule worker_config_pos)
  have r1: "worker_run consume ack nack others a0 [Tau, Tau, Took [it], Began it]
      ((took w it a1)\<lparr>sem := 1, wg := 1, gos := [(it, Running)], s_pc := Dispatching []\<rparr>)"
    using run_step [OF run_took [OF assms] dispatch] pos by (simp add: took_def assms(1) NewWorker_def)
  show ?thesis using run_step [OF r1 dispatched] by (simp add: took_def started_def assms(1) NewWorker_def)
qed

text \<open>The goroutine that a state \<open>v\<close> has started, when its handler succeeds.\<close>

lemma run_handled:
  assumes "worker_run consume ack nack others a0 tr v" and "gos v = [(it, Running)]"
    and "Handle (w_registry v) (s_ctx v) (Message it) (w_app v) = (None, app1)"
  shows "worker_run consume ack nack others a0 (tr @ [Ran it None]) (v\<lparr>w_app := app1, gos := [(it, Handled None)]\<rparr>)"
  using run_step [OF assms(1) go_handle [where i = 0, OF _ _ assms(3)]] assms(2) by simp

lemma run_acked:
  assumes "worker_run consume ack nack others a0 tr v" and "gos v = [(it, Handled None)]"
    and "ack (Receipt it) (s_ctx v) (w_adapter v) = (ret, a2)" and "sem v = 1" and "wg v = 1"
  shows "worker_run consume ack nack others a0 (tr @ [DidSettle it None ret, Tau, Tau])
    (v\<lparr>w_adapter := a2, sem := 0, wg := 0, gos := []\<rparr>)"
proof -
  have r1: "worker_run consume ack nack others a0 (tr @ [DidSettle it None ret]) (v\<lparr>w_adapter := a2, gos := [(it, Settled)]\<rparr>)"
    using run_step [OF assms(1) go_settle [where i = 0 and it = it and err = None and ret = ret and a' = a2]] assms(2,3)
    by (simp add: settle_def)
  have r2: "worker_run consume ack nack others a0 (tr @ [DidSettle it None ret, Tau])
      (v\<lparr>w_adapter := a2, sem := 0, gos := [(it, Released)]\<rparr>)"
    using run_step [OF r1 go_release [where i = 0 and it = it]] assms(4) by simp
  show ?thesis using run_step [OF r2 go_done [where i = 0 and it = it]] assms(5) by (simp add: remove_nth_def)
qed

section \<open>Properties\<close>

text \<open>A goroutine that is not interrupted between its two calls does what \<open>processMessage\<close> does.\<close>

lemma goroutine_processMessage:
  assumes "i < length (gos w)" and "gos w ! i = (it, Running)"
    and "processMessage ack nack (w_registry w) (s_ctx w) it (w_app w) (w_adapter w) = (app', a')"
  shows "\<exists>err ret w1. worker_step consume ack nack (Ran it err) w w1 \<and>
    worker_step consume ack nack (DidSettle it err ret) w1
      (w\<lparr>w_app := app', w_adapter := a', gos := (gos w)[i := (it, Settled)]\<rparr>)"
proof -
  obtain err where h: "Handle (w_registry w) (s_ctx w) (Message it) (w_app w) = (err, app')"
    and "snd (settle ack nack (s_ctx w) it err (w_adapter w)) = a'"
    using assms(3) by (auto simp: processMessage_def split: prod.splits)
  then obtain ret where st: "settle ack nack (s_ctx w) it err (w_adapter w) = (ret, a')" by (metis prod.collapse)
  let ?w1 = "w\<lparr>w_app := app', gos := (gos w)[i := (it, Handled err)]\<rparr>"
  have "worker_step consume ack nack (DidSettle it err ret) ?w1
      (?w1\<lparr>w_adapter := a', gos := (gos ?w1)[i := (it, Settled)]\<rparr>)"
    by (rule go_settle) (use assms(1) st in simp_all)
  with go_handle [OF assms(1,2) h, of consume ack nack] show ?thesis by auto
qed

text \<open>
  C2. At every moment of every run the books balance, for any adapter and any interleaving: the
  messages taken from the queue are, in the order received, those given to a goroutine, those
  of the current batch still to be dispatched, and those abandoned at shutdown; and each of the
  dispatched ones either has its handler running, or has been handled once and awaits settlement,
  or has been settled once with the outcome of that one run of the handler.
\<close>

theorem worker_books_balance:
  assumes "worker_run consume ack nack others a0 tr w"
  shows "taken tr = begun tr @ to_dispatch (s_pc w) @ dropped tr \<and>
    mset (begun tr) = mset (running (gos w)) + mset (map fst (handled (gos w))) + mset (map fst (settled tr)) \<and>
    mset (handler_runs tr) = mset (settled tr) + mset (handled (gos w))"
  using books_inv_run [OF assms] by (simp add: books_inv_def ac_simps)

text \<open>The step of a run that made one of its labels, and how the run went on from there.\<close>

lemma run_split:
  assumes "worker_run consume ack nack others a0 tr w" and "tr = tr1 @ ev # tr2" and "ev \<noteq> External"
  shows "\<exists>w1 w2. worker_run consume ack nack others a0 tr1 w1 \<and> worker_step consume ack nack ev w1 w2 \<and>
    worker_cont consume ack nack others (tr1 @ [ev]) w2 tr2 w"
  using assms
proof (induction arbitrary: tr2 rule: worker_run.induct)
  case (run_step tr w ev' w')
  show ?case
  proof (cases tr2 rule: rev_cases)
    case Nil
    with run_step.prems have "tr = tr1" "ev' = ev" by simp_all
    with run_step.hyps Nil show ?thesis by (blast intro: cont_refl)
  next
    case (snoc tr3 e)
    with run_step.prems have "tr = tr1 @ ev # tr3" "e = ev'" by simp_all
    with run_step.IH [of tr3] run_step.prems(2) obtain w1 w2 where
      "worker_run consume ack nack others a0 tr1 w1" "worker_step consume ack nack ev w1 w2"
      "worker_cont consume ack nack others (tr1 @ [ev]) w2 tr3 w" by blast
    with cont_step [OF this(3) run_step.hyps(2)] snoc \<open>e = ev'\<close> show ?thesis by blast
  qed
next
  case (run_others tr w a')
  then obtain tr3 where tr3: "tr2 = tr3 @ [External]" "tr = tr1 @ ev # tr3" by (cases tr2 rule: rev_cases) auto
  with run_others.IH [of tr3] run_others.prems(2) obtain w1 w2 where
    w: "worker_run consume ack nack others a0 tr1 w1" "worker_step consume ack nack ev w1 w2"
    "worker_cont consume ack nack others (tr1 @ [ev]) w2 tr3 w" by blast
  have "worker_cont consume ack nack others (tr1 @ [ev]) w2 (tr3 @ [External]) (w\<lparr>w_adapter := a'\<rparr>)"
    by (rule cont_others [OF w(3)]) (use run_others.hyps(2) tr3(2) in simp)
  with w(1,2) tr3(1) show ?case by blast
qed simp

text \<open>A settlement is made after the handler's run it reports, by Ack if that run returned nil and by Nack if not.\<close>

lemma step_settles:
  assumes "worker_step consume ack nack (DidSettle it err r) w w'" and "books_inv tr w"
  shows "(it, err) \<in> set (handler_runs tr) \<and>
    (if err = None then ack (Receipt it) (s_ctx w) (w_adapter w) else nack (Receipt it) (s_ctx w) (w_adapter w)) =
      (r, w_adapter w')"
  using assms(1)
proof cases
  case (go_settle i a')
  then have "(it, err) \<in># mset (handled (gos w))" using handled_go(2) [of i "gos w" it err] by simp
  with assms(2) have "(it, err) \<in># mset (handler_runs tr)" unfolding books_inv_def by simp
  with go_settle show ?thesis by (cases err) (simp_all add: settle_def)
qed

text \<open>At some step of the run, a call of \<open>Consume\<close> on the adapter as it then was returned the error \<open>e\<close>.\<close>

definition consume_failed_in ::
  "('o \<Rightarrow> string \<Rightarrow> int \<Rightarrow> 'a \<Rightarrow> (error + (message, 'r) ConsumeResult option) \<times> 'a) \<Rightarrow>
   ('r \<Rightarrow> ctx \<Rightarrow> 'a \<Rightarrow> error option \<times> 'a) \<Rightarrow> ('r \<Rightarrow> ctx \<Rightarrow> 'a \<Rightarrow> error option \<times> 'a) \<Rightarrow>
   ('r set \<Rightarrow> 'a \<Rightarrow> 'a \<Rightarrow> bool) \<Rightarrow> 'a \<Rightarrow> 'r event list \<Rightarrow> ('a, 's, 'r) Worker \<Rightarrow> error \<Rightarrow> bool" where
  "consume_failed_in consume ack nack others a0 tr w e \<longleftrightarrow>
     (\<exists>tr1 tr2 w1 w2 orc. tr = tr1 @ Tau # tr2 \<and> worker_run consume ack nack others a0 tr1 w1 \<and>
        worker_step consume ack nack Tau w1 w2 \<and> worker_cont consume ack nack others (tr1 @ [Tau]) w2 tr2 w \<and>
        s_pc w1 = Consuming \<and>
        consume orc (QueueName (w_config w1)) (MaxBatch (w_config w1)) (w_adapter w1) = (Inl e, w_adapter w2))"

lemma consume_failed_step:
  assumes "consume_failed_in consume ack nack others a0 tr w e" and "worker_step consume ack nack ev w w'"
  shows "consume_failed_in consume ack nack others a0 (tr @ [ev]) w' e"
proof -
  from assms(1) obtain tr1 tr2 w1 w2 orc where f: "tr = tr1 @ Tau # tr2" "worker_run consume ack nack others a0 tr1 w1"
    "worker_step consume ack nack Tau w1 w2" "worker_cont consume ack nack others (tr1 @ [Tau]) w2 tr2 w" "s_pc w1 = Consuming"
    "consume orc (QueueName (w_config w1)) (MaxBatch (w_config w1)) (w_adapter w1) = (Inl e, w_adapter w2)"
    unfolding consume_failed_in_def by blast
  have "tr @ [ev] = tr1 @ Tau # (tr2 @ [ev])" using f(1) by simp
  with f(2,3,5,6) cont_step [OF f(4) assms(2)] show ?thesis unfolding consume_failed_in_def by blast
qed

lemma consume_failed_others:
  assumes "consume_failed_in consume ack nack others a0 tr w e" and "others (Receipt ` set (taken tr)) (w_adapter w) a'"
  shows "consume_failed_in consume ack nack others a0 (tr @ [External]) (w\<lparr>w_adapter := a'\<rparr>) e"
proof -
  from assms(1) obtain tr1 tr2 w1 w2 orc where f: "tr = tr1 @ Tau # tr2" "worker_run consume ack nack others a0 tr1 w1"
    "worker_step consume ack nack Tau w1 w2" "worker_cont consume ack nack others (tr1 @ [Tau]) w2 tr2 w" "s_pc w1 = Consuming"
    "consume orc (QueueName (w_config w1)) (MaxBatch (w_config w1)) (w_adapter w1) = (Inl e, w_adapter w2)"
    unfolding consume_failed_in_def by blast
  have "worker_cont consume ack nack others (tr1 @ [Tau]) w2 (tr2 @ [External]) (w\<lparr>w_adapter := a'\<rparr>)"
    by (rule cont_others [OF f(4)]) (use assms(2) f(1) in simp)
  moreover have "tr @ [External] = tr1 @ Tau # (tr2 @ [External])" using f(1) by simp
  ultimately show ?thesis using f(2,3,5,6) unfolding consume_failed_in_def by blast
qed

text \<open>Where an error comes from that \<open>Start\<close> is about to return.\<close>

lemma error_source:
  assumes "worker_run consume ack nack others a0 tr w"
  shows "(\<forall>e. s_pc w = ConsumeFailed e \<longrightarrow> consume_failed_in consume ack nack others a0 tr w e) \<and>
    (\<forall>e. returning (s_pc w) = Some (Some e) \<longrightarrow> s_ctx w = Some e \<or> consume_failed_in consume ack nack others a0 tr w e)"
  using assms
proof (induction rule: worker_run.induct)
  case (run_new c reg config app)
  then show ?case by (simp add: NewWorker_def)
next
  case (run_step tr w ev w')
  note kept = consume_failed_step [OF _ run_step.hyps(2)]
  from run_step.hyps(2) show ?case
  proof cases
    case (consume_error orc e a')
    have "consume_failed_in consume ack nack others a0 (tr @ [ev]) w' e"
      unfolding consume_failed_in_def using run_step.hyps consume_error cont_refl
      by (intro exI [of _ tr] exI [of _ "[]"] exI [of _ w] exI [of _ w'] exI [of _ orc]) simp
    with consume_error show ?thesis by simp
  next
    case (poll_failed pick e)
    have "ctx_ok (s_ctx w)" using outcome_inv_run [OF run_step.hyps(1)] by (simp add: outcome_inv_def)
    from poll_error_cases(2) [OF poll_failed(4) this] poll_failed show ?thesis by simp
  qed (use run_step.IH kept in auto)
next
  case (run_others tr w a')
  note kept = consume_failed_others [where others = others and consume = consume and ack = ack and nack = nack, OF _ run_others.hyps(2)]
  from run_others.IH kept show ?case by (simp, blast)
qed

text \<open>
  C1. When Start has returned, or a Stop has returned, the worker has drained: no goroutine is left,
  every message taken was either abandoned before its dispatch or handled exactly once and then
  settled exactly once.  Each settlement reports a run of the handler that was made before it, and is a call of
  Ack on the item's receipt if that run returned nil and a call of Nack if it returned an error, on the adapter
  as it was at that moment of the run.
\<close>

theorem worker_drained:
  assumes "worker_run consume ack nack others a0 tr w"
    and "StartReturns ret \<in> set tr \<or> StopReturns ret \<in> set tr"
  shows "gos w = [] \<and> wg w = 0 \<and> sem w = 0 \<and> taken tr = begun tr @ dropped tr \<and>
    mset (settled tr) = mset (handler_runs tr) \<and> mset (map fst (settled tr)) = mset (begun tr) \<and>
    (\<forall>tr1 it err r tr2. tr = tr1 @ DidSettle it err r # tr2 \<longrightarrow>
       (it, err) \<in> set (handler_runs tr1) \<and>
       (\<exists>w1 w2. worker_run consume ack nack others a0 tr1 w1 \<and> worker_step consume ack nack (DidSettle it err r) w1 w2 \<and>
          (if err = None then ack (Receipt it) (s_ctx w1) (w_adapter w1) else nack (Receipt it) (s_ctx w1) (w_adapter w1)) =
            (r, w_adapter w2) \<and>
          worker_cont consume ack nack others (tr1 @ [DidSettle it err r]) w2 tr2 w))"
proof -
  from outcome_inv_run [OF assms(1)] assms(2) have pc: "s_pc w = Returned ret" by (auto simp: outcome_inv_def)
  with sync_inv_run [OF assms(1)] have "gos w = []" by (auto simp: sync_inv_def)
  moreover have "(it, err) \<in> set (handler_runs tr1) \<and>
      (\<exists>w1 w2. worker_run consume ack nack others a0 tr1 w1 \<and> worker_step consume ack nack (DidSettle it err r) w1 w2 \<and>
         (if err = None then ack (Receipt it) (s_ctx w1) (w_adapter w1) else nack (Receipt it) (s_ctx w1) (w_adapter w1)) =
           (r, w_adapter w2) \<and>
         worker_cont consume ack nack others (tr1 @ [DidSettle it err r]) w2 tr2 w)"
    if tr: "tr = tr1 @ DidSettle it err r # tr2" for tr1 it err r tr2
  proof -
    from run_split [OF assms(1) tr] obtain w1 w2 where w: "worker_run consume ack nack others a0 tr1 w1"
      "worker_step consume ack nack (DidSettle it err r) w1 w2"
      "worker_cont consume ack nack others (tr1 @ [DidSettle it err r]) w2 tr2 w" by auto
    from step_settles [OF w(2) books_inv_run [OF w(1)]] w show ?thesis by blast
  qed
  ultimately show ?thesis using pc sync_inv_run [OF assms(1)] books_inv_run [OF assms(1)]
    by (simp add: sync_inv_def books_inv_def)
qed

text \<open>
  C30. What Start and Stop report, for any adapter and any interleaving: Start returns nil only after Stop was called; an
  error it returns is its context's, or was returned by one of its own calls of the adapter's Consume in this run, for the
  configured queue and batch size; and every Stop returns exactly what Start returned, never before it.
\<close>

theorem worker_outcome:
  assumes "worker_run consume ack nack others a0 tr w"
  shows "(StartReturns None \<in> set tr \<longrightarrow> StopCalled \<in> set tr) \<and>
    (StartReturns (Some e) \<in> set tr \<longrightarrow> s_ctx w = Some e \<or> consume_failed_in consume ack nack others a0 tr w e) \<and>
    (StopReturns ret \<in> set tr \<longrightarrow> StartReturns ret \<in> set tr) \<and>
    (StartReturns ret \<in> set tr \<longrightarrow> startErr w = ret)"
proof -
  have o: "outcome_inv consume tr w" by (rule outcome_inv_run [OF assms])
  then have "StartReturns r \<in> set tr \<Longrightarrow> returning (s_pc w) = Some r" for r by (simp add: outcome_inv_def)
  with o error_source [OF assms] show ?thesis by (auto simp: outcome_inv_def split: option.splits)
qed

text \<open>
  C35. The number of handlers that run or whose message is being settled never exceeds the configured
  concurrency, and the semaphore and the wait group count exactly the goroutines they are meant
  to count.
\<close>

theorem concurrency_bounded:
  assumes "worker_run consume ack nack others a0 tr w"
  shows "int (length (running (gos w)) + length (handled (gos w))) \<le> Concurrency (w_config w) \<and>
    sem w = length (holding (gos w)) \<and> wg w = length (gos w)"
proof -
  have "length (running gs) + length (handled gs) \<le> length (holding gs)" for gs :: "('c item \<times> go_pc) list"
    by (induction gs) (auto simp: running_def handled_def holding_def split: go_pc.split)
  from this [of "gos w"] sync_inv_run [OF assms] show ?thesis by (auto simp: sync_inv_def)
qed


text \<open>
  The pause between polls: a configured number of milliseconds up to about 292 years is that pause
  in nanoseconds, but a larger one can overflow to a negative duration, and then
  waitForNextPoll does not wait at all.
\<close>

lemma poll_interval_bounds:
  "(0 < ms \<and> ms \<le> 9223372036854 \<longrightarrow>
      poll_interval (worker_config \<lparr>QueueName = q, MaxBatch = b, Concurrency = k, PollIntervalMs = ms\<rparr>) = ms * 1000000) \<and>
   (ms \<le> 0 \<longrightarrow>
      poll_interval (worker_config \<lparr>QueueName = q, MaxBatch = b, Concurrency = k, PollIntervalMs = ms\<rparr>) = 1000000000) \<and>
   poll_interval (worker_config \<lparr>QueueName = q, MaxBatch = b, Concurrency = k, PollIntervalMs = 9223372036855\<rparr>) < 0 \<and>
   (poll_interval cfg \<le> 0 \<longrightarrow> waitForNextPoll pick c stopped (poll_interval cfg) = Some None)"
proof -
  have "poll_interval (worker_config \<lparr>QueueName = q, MaxBatch = b, Concurrency = k, PollIntervalMs = ms\<rparr>) =
      int64 ((if ms \<le> 0 then 1000 else ms) * 1000000)" for ms
    by (simp add: poll_interval_def worker_config_def Let_def)
  then show ?thesis by (auto simp: int64_id int64_def waitForNextPoll_def)
qed

end
