(* ===== verification/WorkerPool.thy ===== *)
theory WorkerPool
  imports Worker
begin

text \<open>
  \<open>go/core/worker.go\<close>, the type \<open>WorkerPool\<close>: several workers on one adapter and one registry, started
  with a common cancellable context.

  The pool is a transition system over the states of its workers.  The adapter, the handlers' state and
  the pool context are shared, so they are fields of the pool, and \<open>view\<close> is worker \<open>i\<close> with
  the shared parts filled in; a step of worker \<open>i\<close> is a step of its own system on that view.
  Each worker goroutine of \<open>Start\<close> then reports, cancels and signals the wait group; the
  listener, the waiter that closes \<open>doneCh\<close>, and \<open>Start\<close>'s own \<open>select\<close> run beside them.
\<close>

section \<open>State\<close>

datatype pool_pc =
    PoolIdle
  | PoolSelect
  | PoolWait error
  | PoolReturning "error option"
  | PoolReturned "error option"

text \<open>A worker goroutine: in the worker's Start; at the send on errCh; at poolCancel; at wg.Done; gone.\<close>

datatype pool_go =
    PgRun
  | PgSend error
  | PgCancel
  | PgDone
  | PgExit

record ('a, 's, 'r) WorkerPool =
  p_workers :: "('a, 's, 'r) Worker list"
  p_stopCh :: bool
  p_done :: bool
  p_adapter :: 'a
  p_app :: 's
  p_ctx :: ctx
  p_poolCtx :: ctx
  p_pc :: pool_pc
  p_gos :: "pool_go list"
  p_errCh :: "error list"
  p_listening :: bool
  p_doneCh :: bool
  p_stoppers :: nat

definition NewWorkerPool ::
  "'a \<Rightarrow> 's Registry \<Rightarrow> WorkerConfig \<Rightarrow> int \<Rightarrow> 's \<Rightarrow> ctx \<Rightarrow> error + ('a, 's, 'r) WorkerPool" where
  "NewWorkerPool adapter registry config numWorkers app c =
     (if numWorkers < 0 then Inl (Panic ''makeslice: len out of range'')
      else Inr \<lparr>p_workers = replicate (nat numWorkers) (NewWorker adapter registry config app None),
                p_stopCh = False, p_done = False, p_adapter = adapter, p_app = app, p_ctx = c, p_poolCtx = None,
                p_pc = PoolIdle, p_gos = [], p_errCh = [], p_listening = False, p_doneCh = False, p_stoppers = 0\<rparr>)"

definition view :: "('a, 's, 'r) WorkerPool \<Rightarrow> nat \<Rightarrow> ('a, 's, 'r) Worker" where
  "view p i = (p_workers p ! i)\<lparr>w_adapter := p_adapter p, w_app := p_app p, s_ctx := p_poolCtx p\<rparr>"

definition poolCancel :: "('a, 's, 'r) WorkerPool \<Rightarrow> ('a, 's, 'r) WorkerPool" where
  "poolCancel p = (case p_poolCtx p of None \<Rightarrow> p\<lparr>p_poolCtx := Some Canceled\<rparr> | Some _ \<Rightarrow> p)"

text \<open>After a worker's Start: an error other than \<open>context.Canceled\<close> is reported.\<close>

definition after_worker :: "error option \<Rightarrow> pool_go" where
  "after_worker err = (case err of Some e \<Rightarrow> (if e \<noteq> Canceled then PgSend e else PgDone) | None \<Rightarrow> PgDone)"

section \<open>Steps\<close>

inductive pool_step ::
  "('o \<Rightarrow> string \<Rightarrow> int \<Rightarrow> 'a \<Rightarrow> (error + (message, 'r) ConsumeResult option) \<times> 'a) \<Rightarrow>
   ('r \<Rightarrow> ctx \<Rightarrow> 'a \<Rightarrow> error option \<times> 'a) \<Rightarrow> ('r \<Rightarrow> ctx \<Rightarrow> 'a \<Rightarrow> error option \<times> 'a) \<Rightarrow>
   (nat \<times> 'r event) option \<Rightarrow> ('a, 's, 'r) WorkerPool \<Rightarrow> ('a, 's, 'r) WorkerPool \<Rightarrow> bool"
  for consume ack nack where
  pool_start:
    "p_pc p = PoolIdle \<Longrightarrow>
     pool_step consume ack nack None p
       (p\<lparr>p_poolCtx := p_ctx p, p_gos := replicate (length (p_workers p)) PgRun, p_listening := True, p_pc := PoolSelect\<rparr>)"
| pool_worker:
    "i < length (p_gos p) \<Longrightarrow> p_gos p ! i = PgRun \<Longrightarrow> own ev \<Longrightarrow>
     worker_step consume ack nack ev (view p i) w' \<Longrightarrow>
     pool_step consume ack nack (Some (i, ev)) p
       (p\<lparr>p_workers := (p_workers p)[i := w'], p_adapter := w_adapter w', p_app := w_app w'\<rparr>)"
| pool_worker_returns:
    "i < length (p_gos p) \<Longrightarrow> p_gos p ! i = PgRun \<Longrightarrow> s_pc (p_workers p ! i) = Returned err \<Longrightarrow>
     pool_step consume ack nack None p (p\<lparr>p_gos := (p_gos p)[i := after_worker err]\<rparr>)"
| pool_send:
    "i < length (p_gos p) \<Longrightarrow> p_gos p ! i = PgSend e \<Longrightarrow> length (p_errCh p) < length (p_workers p) \<Longrightarrow>
     pool_step consume ack nack None p (p\<lparr>p_errCh := p_errCh p @ [e], p_gos := (p_gos p)[i := PgCancel]\<rparr>)"
| pool_send_default:
    "i < length (p_gos p) \<Longrightarrow> p_gos p ! i = PgSend e \<Longrightarrow> \<not> length (p_errCh p) < length (p_workers p) \<Longrightarrow>
     pool_step consume ack nack None p (p\<lparr>p_gos := (p_gos p)[i := PgCancel]\<rparr>)"
| pool_cancel:
    "i < length (p_gos p) \<Longrightarrow> p_gos p ! i = PgCancel \<Longrightarrow>
     pool_step consume ack nack None p (poolCancel (p\<lparr>p_gos := (p_gos p)[i := PgDone]\<rparr>))"
| pool_wg_done:
    "i < length (p_gos p) \<Longrightarrow> p_gos p ! i = PgDone \<Longrightarrow>
     pool_step consume ack nack None p (p\<lparr>p_gos := (p_gos p)[i := PgExit]\<rparr>)"
| pool_listen_stop:
    "p_listening p \<Longrightarrow> p_stopCh p \<Longrightarrow> pool_step consume ack nack None p (poolCancel (p\<lparr>p_listening := False\<rparr>))"
| pool_listen_ctx:
    "p_listening p \<Longrightarrow> p_poolCtx p \<noteq> None \<Longrightarrow> pool_step consume ack nack None p (p\<lparr>p_listening := False\<rparr>)"
| pool_all_done:
    "p_pc p \<noteq> PoolIdle \<Longrightarrow> \<not> p_doneCh p \<Longrightarrow> set (p_gos p) \<subseteq> {PgExit} \<Longrightarrow>
     pool_step consume ack nack None p (p\<lparr>p_doneCh := True\<rparr>)"
| pool_select_ctx:
    "p_pc p = PoolSelect \<Longrightarrow> p_ctx p = Some e \<Longrightarrow>
     pool_step consume ack nack None p (poolCancel (p\<lparr>p_pc := PoolWait e\<rparr>))"
| pool_select_err:
    "p_pc p = PoolSelect \<Longrightarrow> p_errCh p = e # es \<Longrightarrow>
     pool_step consume ack nack None p (p\<lparr>p_errCh := es, p_pc := PoolWait e\<rparr>)"
| pool_select_done:
    "p_pc p = PoolSelect \<Longrightarrow> p_doneCh p \<Longrightarrow>
     pool_step consume ack nack None p (p\<lparr>p_pc := PoolReturning None\<rparr>)"
| pool_wait:
    "p_pc p = PoolWait e \<Longrightarrow> p_doneCh p \<Longrightarrow>
     pool_step consume ack nack None p (p\<lparr>p_pc := PoolReturning (Some e)\<rparr>)"
| pool_deferred:
    "p_pc p = PoolReturning ret \<Longrightarrow>
     pool_step consume ack nack None p (poolCancel (p\<lparr>p_done := True, p_pc := PoolReturned ret\<rparr>))"
| pool_propagate:
    "p_pc p \<noteq> PoolIdle \<Longrightarrow> p_ctx p = Some e \<Longrightarrow> p_poolCtx p = None \<Longrightarrow>
     pool_step consume ack nack None p (p\<lparr>p_poolCtx := Some e\<rparr>)"

text \<open>The steps of the pool's environment: Stop, the parent context, registrations, the application.\<close>

inductive pool_env :: "('a, 's, 'r) WorkerPool \<Rightarrow> ('a, 's, 'r) WorkerPool \<Rightarrow> bool" where
  pool_stop_call: "pool_env p (p\<lparr>p_stopCh := True, p_stoppers := p_stoppers p + 1\<rparr>)"
| pool_stop_returns: "0 < p_stoppers p \<Longrightarrow> p_done p \<Longrightarrow> pool_env p (p\<lparr>p_stoppers := p_stoppers p - 1\<rparr>)"
| pool_ctx_done: "p_ctx p = None \<Longrightarrow> ctx_ok (Some e) \<Longrightarrow> pool_env p (p\<lparr>p_ctx := Some e\<rparr>)"
| pool_register:
    "pool_env p (p\<lparr>p_workers := map (\<lambda>w. w\<lparr>w_registry := Register t act h (w_registry w)\<rparr>) (p_workers p)\<rparr>)"
| pool_app: "pool_env p (p\<lparr>p_app := app'\<rparr>)"

text \<open>A run of a pool keeps the labels of each worker's steps.\<close>

definition log_step :: "(nat \<times> 'r event) option \<Rightarrow> 'r event list list \<Rightarrow> 'r event list list" where
  "log_step lab trs = (case lab of None \<Rightarrow> trs | Some (i, ev) \<Rightarrow> trs[i := trs ! i @ [ev]])"

inductive pool_run ::
  "('o \<Rightarrow> string \<Rightarrow> int \<Rightarrow> 'a \<Rightarrow> (error + (message, 'r) ConsumeResult option) \<times> 'a) \<Rightarrow>
   ('r \<Rightarrow> ctx \<Rightarrow> 'a \<Rightarrow> error option \<times> 'a) \<Rightarrow> ('r \<Rightarrow> ctx \<Rightarrow> 'a \<Rightarrow> error option \<times> 'a) \<Rightarrow>
   ('r set \<Rightarrow> 'a \<Rightarrow> 'a \<Rightarrow> bool) \<Rightarrow> 'a \<Rightarrow> 'r event list list \<Rightarrow> ('a, 's, 'r) WorkerPool \<Rightarrow> bool"
  for consume ack nack others a0 where
  pool_new:
    "ctx_ok c \<Longrightarrow> NewWorkerPool a0 reg config n app c = Inr p \<Longrightarrow>
     pool_run consume ack nack others a0 (replicate (length (p_workers p)) []) p"
| pool_steps:
    "pool_run consume ack nack others a0 trs p \<Longrightarrow> pool_step consume ack nack lab p p' \<Longrightarrow>
     pool_run consume ack nack others a0 (log_step lab trs) p'"
| pool_envs:
    "pool_run consume ack nack others a0 trs p \<Longrightarrow> pool_env p p' \<Longrightarrow>
     pool_run consume ack nack others a0 trs p'"
| pool_others:
    "pool_run consume ack nack others a0 trs p \<Longrightarrow>
     others (Receipt ` (\<Union>tr \<in> set trs. set (taken tr))) (p_adapter p) a' \<Longrightarrow>
     pool_run consume ack nack others a0 trs (p\<lparr>p_adapter := a'\<rparr>)"

section \<open>Each worker of a pool is a worker\<close>

definition visible :: "'r event list \<Rightarrow> 'r event list" where
  "visible tr = filter (\<lambda>ev. ev \<noteq> External) tr"

lemma visible_reads:
  "taken (visible tr) = taken tr" "begun (visible tr) = begun tr" "dropped (visible tr) = dropped tr"
  "settled (visible tr) = settled tr" "handler_runs (visible tr) = handler_runs tr"
  by (induction tr)
    (auto simp: visible_def taken_def begun_def dropped_def settled_def handler_runs_def split: event.splits)

lemma visible_snoc [simp]: "visible (tr @ [ev]) = visible tr @ (if ev = External then [] else [ev])"
  by (simp add: visible_def)

lemma own_step_ctx: "worker_step consume ack nack ev w w' \<Longrightarrow> own ev \<Longrightarrow> s_ctx w' = s_ctx w"
  by (cases rule: worker_step.cases) auto

abbreviation any_others :: "'r set \<Rightarrow> 'a \<Rightarrow> 'a \<Rightarrow> bool" where
  "any_others \<equiv> \<lambda>_ _ _. True"

text \<open>What the rest of a pool can do to a worker's view: change the shared parts, end the context.\<close>

lemma run_env:
  assumes "worker_run consume ack nack any_others a0 tr v" and "c = s_ctx v \<or> s_ctx v = None \<and> ctx_ok c"
  shows "\<exists>tr'. worker_run consume ack nack any_others a0 tr' (v\<lparr>w_adapter := a, w_app := app, s_ctx := c\<rparr>) \<and>
    visible tr' = visible tr"
proof -
  have r1: "worker_run consume ack nack any_others a0 (tr @ [External]) (v\<lparr>w_adapter := a\<rparr>)"
    by (rule run_others [OF assms(1)]) simp
  have r2: "worker_run consume ack nack any_others a0 ((tr @ [External]) @ [External]) (v\<lparr>w_adapter := a, w_app := app\<rparr>)"
    using run_step [OF r1 app_changes] by simp
  show ?thesis
  proof (cases "c = s_ctx v")
    case True
    with r2 show ?thesis by (intro exI [of _ "(tr @ [External]) @ [External]"]) (simp add: visible_def)
  next
    case False
    with assms(2) obtain e where "c = Some e" "s_ctx v = None" "ctx_ok (Some e)" by (cases c) auto
    with run_step [OF r2 ctx_done] show ?thesis
      by (intro exI [of _ "((tr @ [External]) @ [External]) @ [External]"]) (simp add: visible_def)
  qed
qed

definition simulated ::
  "('o \<Rightarrow> string \<Rightarrow> int \<Rightarrow> 'a \<Rightarrow> (error + (message, 'r) ConsumeResult option) \<times> 'a) \<Rightarrow>
   ('r \<Rightarrow> ctx \<Rightarrow> 'a \<Rightarrow> error option \<times> 'a) \<Rightarrow> ('r \<Rightarrow> ctx \<Rightarrow> 'a \<Rightarrow> error option \<times> 'a) \<Rightarrow>
   'a \<Rightarrow> 'r event list list \<Rightarrow> ('a, 's, 'r) WorkerPool \<Rightarrow> nat \<Rightarrow> bool" where
  "simulated consume ack nack a0 trs p i \<longleftrightarrow>
     (\<exists>tr. worker_run consume ack nack any_others a0 tr (view p i) \<and> visible tr = trs ! i)"

text \<open>A change of the pool that leaves worker \<open>i\<close> alone.\<close>

lemma simulated_env:
  assumes "simulated consume ack nack a0 trs p i" and "p_workers p' ! i = p_workers p ! i" and "trs' ! i = trs ! i"
    and "p_poolCtx p' = p_poolCtx p \<or> p_poolCtx p = None \<and> ctx_ok (p_poolCtx p')"
  shows "simulated consume ack nack a0 trs' p' i"
proof -
  from assms(1) obtain tr where tr: "worker_run consume ack nack any_others a0 tr (view p i)" "visible tr = trs ! i"
    by (auto simp: simulated_def)
  have "p_poolCtx p' = s_ctx (view p i) \<or> s_ctx (view p i) = None \<and> ctx_ok (p_poolCtx p')"
    using assms(4) by (auto simp: view_def)
  from run_env [OF tr(1) this, where a = "p_adapter p'" and app = "p_app p'"] tr(2) assms(2,3) show ?thesis
    by (auto simp: simulated_def view_def)
qed

definition pool_shape :: "'r event list list \<Rightarrow> ('a, 's, 'r) WorkerPool \<Rightarrow> bool" where
  "pool_shape trs p \<longleftrightarrow>
     length trs = length (p_workers p) \<and> ctx_ok (p_ctx p) \<and> ctx_ok (p_poolCtx p) \<and>
     (p_pc p = PoolIdle \<longrightarrow> p_poolCtx p = None \<and> p_gos p = [] \<and> \<not> p_doneCh p \<and> \<not> p_listening p \<and> p_errCh p = []) \<and>
     (p_pc p \<noteq> PoolIdle \<longrightarrow> length (p_gos p) = length (p_workers p))"

lemma poolCancel_fields [simp]:
  "p_workers (poolCancel p) = p_workers p" "p_gos (poolCancel p) = p_gos p" "p_pc (poolCancel p) = p_pc p"
  "p_errCh (poolCancel p) = p_errCh p" "p_doneCh (poolCancel p) = p_doneCh p" "p_done (poolCancel p) = p_done p"
  "p_ctx (poolCancel p) = p_ctx p" "p_listening (poolCancel p) = p_listening p" "p_adapter (poolCancel p) = p_adapter p"
  "p_app (poolCancel p) = p_app p" "p_stopCh (poolCancel p) = p_stopCh p"
  by (simp_all add: poolCancel_def split: option.split)

lemma poolCancel_ctx: "p_poolCtx (poolCancel p) = p_poolCtx p \<or> p_poolCtx p = None \<and> p_poolCtx (poolCancel p) = Some Canceled"
  by (simp add: poolCancel_def split: option.split)

lemma ctx_ok_Canceled [simp]: "ctx_ok (Some Canceled)"
  by (simp add: ctx_ok_def)

lemma log_step_simps [simp]:
  "log_step None trs = trs" "log_step (Some (i, ev)) trs = trs[i := trs ! i @ [ev]]"
  by (simp_all add: log_step_def)

lemma pool_shape_step:
  assumes "pool_step consume ack nack lab p p'" and "pool_shape trs p" shows "pool_shape (log_step lab trs) p'"
  using assms(1)
proof cases
  case (pool_cancel i)
  then show ?thesis using assms(2) poolCancel_ctx [of "p\<lparr>p_gos := (p_gos p)[i := PgDone]\<rparr>"] by (auto simp: pool_shape_def)
next
  case pool_listen_stop
  then show ?thesis using assms(2) poolCancel_ctx [of "p\<lparr>p_listening := False\<rparr>"] by (auto simp: pool_shape_def)
next
  case (pool_select_ctx e)
  then show ?thesis using assms(2) poolCancel_ctx [of "p\<lparr>p_pc := PoolWait e\<rparr>"] by (auto simp: pool_shape_def)
next
  case (pool_deferred ret)
  then show ?thesis using assms(2) poolCancel_ctx [of "p\<lparr>p_done := True, p_pc := PoolReturned ret\<rparr>"]
    by (auto simp: pool_shape_def)
qed (use assms(2) in \<open>auto simp: pool_shape_def\<close>)

lemma pool_shape_run: "pool_run consume ack nack others a0 trs p \<Longrightarrow> pool_shape trs p"
proof (induction rule: pool_run.induct)
  case (pool_steps trs p lab p')
  then show ?case using pool_shape_step by blast
next
  case (pool_envs trs p p')
  from pool_envs.hyps(2) pool_envs.IH show ?case by cases (auto simp: pool_shape_def)
qed (auto simp: pool_shape_def NewWorkerPool_def ctx_ok_def split: if_splits)

lemma pool_step_ctx:
  assumes "pool_step consume ack nack lab p p'" and "pool_shape trs p"
  shows "p_poolCtx p' = p_poolCtx p \<or> p_poolCtx p = None \<and> ctx_ok (p_poolCtx p')"
  using assms(1)
proof cases
  case pool_start
  then show ?thesis using assms(2) by (simp add: pool_shape_def)
next
  case (pool_cancel i)
  then show ?thesis using poolCancel_ctx [of "p\<lparr>p_gos := (p_gos p)[i := PgDone]\<rparr>"] by auto
next
  case pool_listen_stop
  then show ?thesis using poolCancel_ctx [of "p\<lparr>p_listening := False\<rparr>"] by auto
next
  case (pool_select_ctx e)
  then show ?thesis using poolCancel_ctx [of "p\<lparr>p_pc := PoolWait e\<rparr>"] by auto
next
  case (pool_deferred ret)
  then show ?thesis using poolCancel_ctx [of "p\<lparr>p_done := True, p_pc := PoolReturned ret\<rparr>"] by auto
next
  case (pool_propagate e)
  then show ?thesis using assms(2) by (simp add: pool_shape_def)
qed simp_all

lemma pool_step_workers:
  assumes "pool_step consume ack nack lab p p'"
  shows "lab = None \<Longrightarrow> p_workers p' = p_workers p"
    and "lab = Some (i, ev) \<Longrightarrow> \<exists>w'. worker_step consume ack nack ev (view p i) w' \<and> own ev \<and> i < length (p_gos p) \<and>
           p' = p\<lparr>p_workers := (p_workers p)[i := w'], p_adapter := w_adapter w', p_app := w_app w'\<rparr>"
  using assms by (cases rule: pool_step.cases; auto)+

text \<open>A step of the pool is one of a worker, or leaves the workers and the adapter alone.\<close>

lemma pool_step_elim [consumes 2, case_names other worker]:
  assumes "pool_step consume ack nack lab p p'" and "pool_shape trs p"
  obtains "lab = None" "p_workers p' = p_workers p" "p_adapter p' = p_adapter p"
  | i ev w' where "lab = Some (i, ev)" "worker_step consume ack nack ev (view p i) w'" "own ev" "i < length (p_workers p)"
      "i < length trs" "length trs = length (p_workers p)"
      "p' = p\<lparr>p_workers := (p_workers p)[i := w'], p_adapter := w_adapter w', p_app := w_app w'\<rparr>"
proof (cases lab)
  case None
  with assms(1) have "p_adapter p' = p_adapter p" by (auto elim: pool_step.cases)
  with None pool_step_workers(1) [OF assms(1)] that(1) show thesis by blast
next
  case (Some l)
  obtain i ev where l: "l = (i, ev)" by fastforce
  with Some pool_step_workers(2) [OF assms(1)] obtain w' where
    w': "worker_step consume ack nack ev (view p i) w'" "own ev" "i < length (p_gos p)"
      "p' = p\<lparr>p_workers := (p_workers p)[i := w'], p_adapter := w_adapter w', p_app := w_app w'\<rparr>" by blast
  with assms(2) have "i < length (p_workers p)" "length trs = length (p_workers p)" by (auto simp: pool_shape_def)
  with that(2) [OF _ w'(1,2) _ _ _ w'(4)] Some l show thesis by simp
qed

lemma simulated_own:
  assumes "simulated consume ack nack a0 trs p i" and "worker_step consume ack nack ev (view p i) w'" and "own ev"
    and "i < length (p_workers p)" and "i < length trs"
  shows "simulated consume ack nack a0 (trs[i := trs ! i @ [ev]])
    (p\<lparr>p_workers := (p_workers p)[i := w'], p_adapter := w_adapter w', p_app := w_app w'\<rparr>) i"
proof -
  from assms(1) obtain tr where tr: "worker_run consume ack nack any_others a0 tr (view p i)" "visible tr = trs ! i"
    by (auto simp: simulated_def)
  have "view (p\<lparr>p_workers := (p_workers p)[i := w'], p_adapter := w_adapter w', p_app := w_app w'\<rparr>) i = w'"
    using assms(4) own_step_ctx [OF assms(2,3)] by (simp add: view_def)
  moreover have "ev \<noteq> External" using assms(3) by auto
  ultimately show ?thesis using run_step [OF tr(1) assms(2)] tr(2) assms(5)
    by (auto simp: simulated_def intro!: exI [of _ "tr @ [ev]"])
qed

lemma simulated_run:
  assumes "pool_run consume ack nack others a0 trs p" and "i < length (p_workers p)"
  shows "simulated consume ack nack a0 trs p i"
  using assms
proof (induction arbitrary: i rule: pool_run.induct)
  case (pool_new c reg config n app p)
  then have "view p i = NewWorker a0 reg config app None" "replicate (length (p_workers p)) [] ! i = []"
    by (auto simp: NewWorkerPool_def view_def NewWorker_def split: if_splits)
  with run_new [where c = None and others = any_others and app = app and reg = reg and config = config]
  show ?case using pool_new.prems by (auto simp: simulated_def visible_def ctx_ok_def intro!: exI [of _ "[]"])
next
  case (pool_steps trs p lab p')
  note shape = pool_shape_run [OF pool_steps.hyps(1)]
  note ctx = pool_step_ctx [OF pool_steps.hyps(2) shape]
  from pool_steps.hyps(2) shape show ?case
  proof (cases rule: pool_step_elim)
    case other
    with pool_steps.prems simulated_env [OF pool_steps.IH _ _ ctx, of i "log_step lab trs"] show ?thesis by simp
  next
    case (worker j ev w')
    then have i: "i < length (p_workers p)" using pool_steps.prems by simp
    show ?thesis
    proof (cases "i = j")
      case True
      with simulated_own [OF pool_steps.IH [OF i], of ev w'] worker show ?thesis by simp
    next
      case False
      with worker i show ?thesis by (intro simulated_env [OF pool_steps.IH _ _ ctx]) auto
    qed
  qed
next
  case (pool_envs trs p p')
  have keep: "simulated consume ack nack a0 trs p' i"
    if "p_workers p' = p_workers p" "p_poolCtx p' = p_poolCtx p"
    using that pool_envs.prems by (intro simulated_env [OF pool_envs.IH]) auto
  from pool_envs.hyps(2) show ?case
  proof cases
    case (pool_register t act h)
    then have i: "i < length (p_workers p)" using pool_envs.prems by simp
    from pool_envs.IH [OF i] obtain tr where
      tr: "worker_run consume ack nack any_others a0 tr (view p i)" "visible tr = trs ! i" by (auto simp: simulated_def)
    have "view p' i = (view p i)\<lparr>w_registry := Register t act h (w_registry (view p i))\<rparr>"
      using i by (simp add: pool_register view_def)
    with run_step [OF tr(1) register_handler] tr(2) show ?thesis
      by (auto simp: simulated_def intro!: exI [of _ "tr @ [External]"])
  qed (use keep in auto)
next
  case (pool_others trs p a')
  then show ?case by (intro simulated_env [OF pool_others.IH]) auto
qed

section \<open>Invariant of the pool\<close>

text \<open>Some worker's Start returned \<open>e\<close>, and \<open>e\<close> is to be reported.\<close>

definition worker_failed :: "('a, 's, 'r) WorkerPool \<Rightarrow> error \<Rightarrow> bool" where
  "worker_failed p e \<longleftrightarrow> (\<exists>w \<in> set (p_workers p). s_pc w = Returned (Some e)) \<and> e \<noteq> Canceled"

primrec go_fits :: "'r start_pc \<Rightarrow> pool_go \<Rightarrow> bool" where
  "go_fits pc PgRun \<longleftrightarrow> True"
| "go_fits pc (PgSend e) \<longleftrightarrow> pc = Returned (Some e) \<and> e \<noteq> Canceled"
| "go_fits pc PgCancel \<longleftrightarrow> (\<exists>ret. pc = Returned ret)"
| "go_fits pc PgDone \<longleftrightarrow> (\<exists>ret. pc = Returned ret)"
| "go_fits pc PgExit \<longleftrightarrow> (\<exists>ret. pc = Returned ret)"

text \<open>Goroutines that may still send on \<open>errCh\<close>.\<close>

primrec may_send :: "pool_go \<Rightarrow> nat" where
  "may_send PgRun = 1"
| "may_send (PgSend e) = 1"
| "may_send PgCancel = 0"
| "may_send PgDone = 0"
| "may_send PgExit = 0"

definition pool_inv :: "('a, 's, 'r) WorkerPool \<Rightarrow> bool" where
  "pool_inv p \<longleftrightarrow>
     (\<forall>i < length (p_gos p). go_fits (s_pc (p_workers p ! i)) (p_gos p ! i)) \<and>
     length (p_errCh p) + sum_list (map may_send (p_gos p)) \<le> length (p_gos p) \<and>
     (\<forall>e \<in> set (p_errCh p). worker_failed p e) \<and>
     (p_doneCh p \<longrightarrow> set (p_gos p) \<subseteq> {PgExit}) \<and>
     (\<forall>e. p_pc p \<in> {PoolWait e, PoolReturning (Some e), PoolReturned (Some e)} \<longrightarrow> p_ctx p = Some e \<or> worker_failed p e) \<and>
     (\<forall>ret. p_pc p \<in> {PoolReturning ret, PoolReturned ret} \<longrightarrow> p_doneCh p) \<and>
     (p_done p \<longleftrightarrow> (\<exists>ret. p_pc p = PoolReturned ret))"

lemma returned_no_own_step:
  assumes "worker_step consume ack nack ev w w'" and "own ev" and "sync_inv w"
  shows "s_pc w \<noteq> Returned ret"
proof
  assume r: "s_pc w = Returned ret"
  with assms(3) have "gos w = []" by (auto simp: sync_inv_def)
  from assms(1) this r assms(2) show False by cases auto
qed

lemma simulated_sync:
  assumes "simulated consume ack nack a0 trs p i" shows "sync_inv (view p i)"
  using assms sync_inv_run by (auto simp: simulated_def)

lemma worker_failed_cong: "p_workers p' = p_workers p \<Longrightarrow> worker_failed p' = worker_failed p"
  by (simp add: worker_failed_def fun_eq_iff)

lemma pool_inv_worker:
  assumes "pool_inv p" and "i < length (p_gos p)" and "length (p_gos p) = length (p_workers p)"
    and "p_gos p ! i = PgRun" and "\<And>ret. s_pc (p_workers p ! i) \<noteq> Returned ret"
    and p': "p' = p\<lparr>p_workers := (p_workers p)[i := w'], p_adapter := a, p_app := app\<rparr>"
  shows "pool_inv p'"
proof -
  have mono: "worker_failed p' e" if "worker_failed p e" for e
  proof -
    from that obtain j where j: "j < length (p_workers p)" "s_pc (p_workers p ! j) = Returned (Some e)" "e \<noteq> Canceled"
      by (auto simp: worker_failed_def in_set_conv_nth)
    with assms(5) have "j \<noteq> i" by auto
    with j show ?thesis unfolding worker_failed_def p'
      by (auto intro!: bexI [of _ "p_workers p ! j"] simp: in_set_conv_nth) (metis length_list_update nth_list_update_neq)
  qed
  moreover have "go_fits (s_pc (p_workers p' ! j)) (p_gos p' ! j)" if "j < length (p_gos p')" for j
    using that assms(1,2,4) by (cases "j = i") (auto simp: pool_inv_def p')
  ultimately show ?thesis using assms(1) unfolding pool_inv_def by (auto simp: p')
qed

lemma pool_inv_go:
  assumes "pool_inv p" and "i < length (p_gos p)" and "go_fits (s_pc (p_workers p ! i)) g"
    and "may_send g + length es \<le> may_send (p_gos p ! i) + length (p_errCh p)"
    and "\<forall>e \<in> set es. worker_failed p e" and "p_gos p ! i \<noteq> PgExit"
  shows "pool_inv (p\<lparr>p_errCh := es, p_gos := (p_gos p)[i := g]\<rparr>)"
proof -
  let ?p' = "p\<lparr>p_errCh := es, p_gos := (p_gos p)[i := g]\<rparr>"
  have [simp]: "worker_failed ?p' = worker_failed p" by (rule worker_failed_cong) simp
  have "p_gos p ! i \<in> set (p_gos p)" using assms(2) by simp
  with assms(1,6) have "\<not> p_doneCh p" by (auto simp: pool_inv_def)
  moreover have "go_fits (s_pc (p_workers p ! j)) ((p_gos p)[i := g] ! j)" if "j < length (p_gos p)" for j
    using that assms(1-3) by (cases "j = i") (auto simp: pool_inv_def)
  moreover have "length es + sum_list (map may_send ((p_gos p)[i := g])) \<le> length (p_gos p)"
    using sum_list_map_update [OF assms(2), of may_send g] assms(1,4) by (simp add: pool_inv_def)
  ultimately show ?thesis using assms(1,5) unfolding pool_inv_def by auto
qed

lemma pool_inv_go_same:
  assumes "pool_inv p" and "i < length (p_gos p)" and "go_fits (s_pc (p_workers p ! i)) g"
    and "may_send g \<le> may_send (p_gos p ! i)" and "p_gos p ! i \<noteq> PgExit"
  shows "pool_inv (p\<lparr>p_gos := (p_gos p)[i := g]\<rparr>)"
proof -
  have "\<forall>e \<in> set (p_errCh p). worker_failed p e" using assms(1) by (simp add: pool_inv_def)
  from pool_inv_go [OF assms(1-3) _ this assms(5)] assms(4) show ?thesis by simp
qed

lemma pool_inv_cancel: "pool_inv (poolCancel p) \<longleftrightarrow> pool_inv p"
  unfolding pool_inv_def by (simp add: worker_failed_cong [of "poolCancel p" p])

lemma pool_inv_fits:
  "pool_inv p \<Longrightarrow> i < length (p_gos p) \<Longrightarrow> p_gos p ! i = g \<Longrightarrow> go_fits (s_pc (p_workers p ! i)) g"
  by (auto simp: pool_inv_def)

lemma pool_inv_step:
  assumes "pool_step consume ack nack lab p p'" and "pool_inv p" and "pool_shape trs p"
    and "\<And>i. i < length (p_workers p) \<Longrightarrow> sync_inv (view p i)"
  shows "pool_inv p'"
  using assms(1)
proof cases
  case pool_start
  then show ?thesis using assms(2,3) by (auto simp: pool_inv_def pool_shape_def sum_list_replicate)
next
  case (pool_worker i ev w')
  with assms(3) have "i < length (p_workers p)" "length (p_gos p) = length (p_workers p)"
    by (auto simp: pool_shape_def)
  moreover from this have "s_pc (p_workers p ! i) \<noteq> Returned ret" for ret
    using returned_no_own_step [OF pool_worker(6,5) assms(4), of ret] by (simp add: view_def)
  ultimately show ?thesis by (intro pool_inv_worker [OF assms(2) pool_worker(3) _ pool_worker(4) _ pool_worker(2)])
next
  case (pool_worker_returns i err)
  then have "go_fits (s_pc (p_workers p ! i)) (after_worker err)" "may_send (after_worker err) \<le> may_send (p_gos p ! i)"
    by (auto simp: after_worker_def split: option.split)
  with pool_inv_go_same [OF assms(2) pool_worker_returns(3)] pool_worker_returns(2,4) show ?thesis by simp
next
  case (pool_send i e)
  have f: "go_fits (s_pc (p_workers p ! i)) (PgSend e)" by (rule pool_inv_fits [OF assms(2) pool_send(3,4)])
  then have "worker_failed p e"
    using pool_send assms(3) by (auto simp: worker_failed_def pool_shape_def intro: nth_mem)
  then have "\<forall>e' \<in> set (p_errCh p @ [e]). worker_failed p e'" using assms(2) by (auto simp: pool_inv_def)
  from pool_inv_go [OF assms(2) pool_send(3) _ _ this, of PgCancel] f pool_send(2,4) show ?thesis by simp
next
  case (pool_send_default i e)
  have "go_fits (s_pc (p_workers p ! i)) (PgSend e)" by (rule pool_inv_fits [OF assms(2) pool_send_default(3,4)])
  with pool_inv_go_same [OF assms(2) pool_send_default(3), of PgCancel] pool_send_default(2,4) show ?thesis by simp
next
  case (pool_cancel i)
  have "go_fits (s_pc (p_workers p ! i)) PgCancel" by (rule pool_inv_fits [OF assms(2) pool_cancel(3,4)])
  with pool_inv_go_same [OF assms(2) pool_cancel(3), of PgDone] pool_cancel(2,4) show ?thesis
    by (simp add: pool_inv_cancel)
next
  case (pool_wg_done i)
  have "go_fits (s_pc (p_workers p ! i)) PgDone" by (rule pool_inv_fits [OF assms(2) pool_wg_done(3,4)])
  with pool_inv_go_same [OF assms(2) pool_wg_done(3), of PgExit] pool_wg_done(2,4) show ?thesis by simp
qed (use assms(2) in \<open>auto simp: pool_inv_def pool_inv_cancel worker_failed_def\<close>)

lemma pool_inv_run:
  "pool_run consume ack nack others a0 trs p \<Longrightarrow> pool_inv p"
proof (induction rule: pool_run.induct)
  case (pool_new c reg config n app p)
  then show ?case by (auto simp: pool_inv_def NewWorkerPool_def split: if_splits)
next
  case (pool_steps trs p lab p')
  show ?case
    by (rule pool_inv_step [OF pool_steps.hyps(2) pool_steps.IH pool_shape_run [OF pool_steps.hyps(1)]])
      (rule simulated_sync [OF simulated_run [OF pool_steps.hyps(1)]])
next
  case (pool_envs trs p p')
  have "length (p_gos p) \<le> length (p_workers p)"
    using pool_shape_run [OF pool_envs.hyps(1)] by (cases "p_pc p = PoolIdle") (auto simp: pool_shape_def)
  then have reg: "p_workers p' ! i = (p_workers p ! i)\<lparr>w_registry := Register t act h (w_registry (p_workers p ! i))\<rparr>"
    if "p' = p\<lparr>p_workers := map (\<lambda>w. w\<lparr>w_registry := Register t act h (w_registry w)\<rparr>) (p_workers p)\<rparr>"
      "i < length (p_gos p)" for i t act h using that by simp
  from pool_envs.hyps(2) show ?case
  proof cases
    case (pool_register t act h)
    then have "worker_failed p' = worker_failed p" by (auto simp: worker_failed_def fun_eq_iff)
    with pool_register reg [OF pool_register] pool_envs.IH show ?thesis unfolding pool_inv_def by auto
  qed (use pool_envs.IH in \<open>auto simp: pool_inv_def worker_failed_def\<close>)
next
  case (pool_others trs p a')
  then show ?case by (auto simp: pool_inv_def worker_failed_def)
qed

section \<open>Receipts of the whole pool\<close>

definition pool_unsettled :: "'r event list list \<Rightarrow> ('a, 's, 'r) WorkerPool \<Rightarrow> 'r item multiset" where
  "pool_unsettled trs p = sum_list (map (\<lambda>(tr, w). unsettled tr w) (zip trs (p_workers p)))"

lemma unsettled_view [simp]: "unsettled tr (view p i) = unsettled tr (p_workers p ! i)"
  by (simp add: unsettled_def view_def)

lemma pool_unsettled_split:
  assumes "i < length trs" and "length trs = length (p_workers p)"
  shows "pool_unsettled trs p = unsettled (trs ! i) (p_workers p ! i) +
    sum_list (map (\<lambda>(tr, w). unsettled tr w) (remove_nth i (zip trs (p_workers p))))"
  using sum_list_map_split [of i "zip trs (p_workers p)" "\<lambda>(tr, w). unsettled tr w"] assms
  by (simp add: pool_unsettled_def)

lemma pool_unsettled_taken:
  assumes "pool_run consume ack nack others a0 trs p" and "it \<in># pool_unsettled trs p"
  shows "it \<in> (\<Union>tr \<in> set trs. set (taken tr))"
proof -
  note shape = pool_shape_run [OF assms(1)]
  have "\<exists>tw \<in> set xs. it \<in># f tw" if "it \<in># sum_list (map f xs)" for f and xs :: "('c event list \<times> ('b, 'd, 'c) Worker) list"
    using that by (induction xs) auto
  from this [OF assms(2) [unfolded pool_unsettled_def]] obtain i where
    i: "i < length trs" "i < length (p_workers p)" "it \<in># unsettled (trs ! i) (p_workers p ! i)"
    using shape by (auto simp: set_zip pool_shape_def)
  from simulated_run [OF assms(1) i(2)] obtain T where
    T: "worker_run consume ack nack any_others a0 T (view p i)" "visible T = trs ! i" by (auto simp: simulated_def)
  have r: "taken (trs ! i) = taken T" "dropped (trs ! i) = dropped T" using T(2) visible_reads [of T] by simp_all
  with i(3) have "it \<in># unsettled T (view p i)" by (simp add: unsettled_def view_def)
  then have "it \<in> set (taken (trs ! i))" using unsettled_taken [OF books_inv_run [OF T(1)]] r(1) by simp
  with nth_mem [OF i(1)] show ?thesis by blast
qed

lemma pool_unsettled_update:
  assumes "i < length trs" and "length trs = length (p_workers p)"
  shows "pool_unsettled (trs[i := tr]) (p\<lparr>p_workers := (p_workers p)[i := w'], p_adapter := a, p_app := app\<rparr>) =
    unsettled tr w' + sum_list (map (\<lambda>(tr, w). unsettled tr w) (remove_nth i (zip trs (p_workers p))))"
proof -
  have "remove_nth i (zip (trs[i := tr]) ((p_workers p)[i := w'])) = remove_nth i (zip trs (p_workers p))"
    using update_zip [of trs "p_workers p" i "(tr, w')"] remove_nth_update [of i "zip trs (p_workers p)" "(tr, w')"]
    by (simp del: remove_nth_update)
  with pool_unsettled_split [of i "trs[i := tr]" "p\<lparr>p_workers := (p_workers p)[i := w'], p_adapter := a, p_app := app\<rparr>"] assms
  show ?thesis by simp
qed

lemma log_step_settles:
  assumes "tr \<in> set (trs[i := trs ! i @ [ev]])" and "DidSettle it err ret \<in> set tr" and "i < length trs"
  shows "ev = DidSettle it err ret \<or> (\<exists>tr' \<in> set trs. DidSettle it err ret \<in> set tr')"
proof -
  from assms(1) have "tr = trs ! i @ [ev] \<or> tr \<in> set trs" using set_update_subset_insert by fast
  with assms(2,3) nth_mem [of i trs] show ?thesis by auto
qed

context worker_queue
begin

lemma pool_receipts_run:
  assumes "pool_run consume ack nack others a0 trs p" and "inv a0"
  shows "inv (p_adapter p) \<and> owned (outstanding (p_adapter p)) (pool_unsettled trs p) \<and>
    (\<forall>tr \<in> set trs. \<forall>it err ret. DidSettle it err ret \<in> set tr \<longrightarrow> ret = None)"
  using assms
proof (induction rule: pool_run.induct)
  case (pool_new c reg config n app p)
  have "sum_list (replicate k {#}) = ({#} :: 'r item multiset)" for k :: nat by (induction k) auto
  then have "pool_unsettled (replicate (length (p_workers p)) []) p = {#}"
    using pool_new by (auto simp: NewWorkerPool_def pool_unsettled_def unsettled_def NewWorker_def split: if_splits)
  then show ?case using pool_new by (auto simp: NewWorkerPool_def owned_def split: if_splits)
next
  case (pool_steps trs p lab p')
  note IH = pool_steps.IH [OF pool_steps.prems]
  from pool_steps.hyps(2) pool_shape_run [OF pool_steps.hyps(1)] show ?case
  proof (cases rule: pool_step_elim)
    case other
    with IH show ?thesis by (simp add: pool_unsettled_def)
  next
    case (worker i ev w')
    let ?F = "sum_list (map (\<lambda>(tr, w). unsettled tr w) (remove_nth i (zip trs (p_workers p))))"
    have "owned (outstanding (w_adapter (view p i))) (unsettled (trs ! i) (view p i) + ?F)"
      using IH pool_unsettled_split [OF worker(5,6)] by (simp add: view_def unsettled_def)
    from receipts_step [OF worker(2) _ this] IH
    have ok: "inv (w_adapter w')" "owned (outstanding (w_adapter w')) (unsettled (trs ! i @ [ev]) w' + ?F)"
      "\<forall>it err ret. ev = DidSettle it err ret \<longrightarrow> ret = None" by (simp_all add: view_def)
    moreover have "ret = None" if "tr \<in> set (trs[i := trs ! i @ [ev]])" "DidSettle it err ret \<in> set tr" for tr it err ret
      using log_step_settles [OF that worker(5)] IH ok(3) by blast
    ultimately show ?thesis unfolding worker(1,7) log_step_simps pool_unsettled_update [OF worker(5,6)] by simp
  qed
next
  case (pool_envs trs p p')
  from pool_envs.hyps(2) show ?case
  proof cases
    case (pool_register t act h)
    have "map (\<lambda>(tr, w). unsettled tr w) (zip ts (map (\<lambda>w. w\<lparr>w_registry := Register t act h (w_registry w)\<rparr>) ws)) =
        map (\<lambda>(tr, w). unsettled tr w) (zip ts ws)" for ts and ws :: "('a, 'b, 'r) Worker list"
      by (auto simp: zip_map2 unsettled_def)
    then show ?thesis using pool_register pool_envs by (simp add: pool_unsettled_def)
  qed (use pool_envs in \<open>auto simp: pool_unsettled_def\<close>)
next
  case (pool_others trs p a')
  note IH = pool_others.IH [OF pool_others.prems]
  have "owned (outstanding a') (pool_unsettled trs p)"
  proof (rule owned_mono)
    show "owned (outstanding (p_adapter p)) (pool_unsettled trs p)" using IH by simp
    fix it assume u: "it \<in># pool_unsettled trs p"
    then have "outstanding (p_adapter p) (Receipt it) = Some (Message it)" using IH by (simp add: owned_def)
    moreover from u have "Receipt it \<in> Receipt ` (\<Union>tr \<in> set trs. set (taken tr))"
      using pool_unsettled_taken [OF pool_others.hyps(1)] by blast
    ultimately show "outstanding a' (Receipt it) = outstanding (p_adapter p) (Receipt it)"
      using others_keep [OF _ pool_others.hyps(2)] IH by simp
  qed
  then show ?case using IH others_inv [OF _ pool_others.hyps(2)] by (simp add: pool_unsettled_def)
qed

end

section \<open>A pool whose only worker fails\<close>

text \<open>
  The run in which the worker's first Consume fails and Start's \<open>select\<close> then finds both the error
  and \<open>doneCh\<close> ready, in two halves: the worker, then the pool.
\<close>

definition lone_pool :: "'a \<Rightarrow> 's Registry \<Rightarrow> WorkerConfig \<Rightarrow> 's \<Rightarrow> ('a, 's, 'r) WorkerPool" where
  "lone_pool a0 reg cfg app =
     \<lparr>p_workers = [NewWorker a0 reg cfg app None], p_stopCh = False, p_done = False, p_adapter = a0, p_app = app,
      p_ctx = None, p_poolCtx = None, p_pc = PoolSelect, p_gos = [PgRun], p_errCh = [], p_listening = True,
      p_doneCh = False, p_stoppers = 0\<rparr>"

definition lone_failed :: "error \<Rightarrow> 'a \<Rightarrow> 'a \<Rightarrow> 's Registry \<Rightarrow> WorkerConfig \<Rightarrow> 's \<Rightarrow> ('a, 's, 'r) WorkerPool" where
  "lone_failed e a' a0 reg cfg app =
     (lone_pool a0 reg cfg app)\<lparr>p_adapter := a',
        p_workers := [(NewWorker a0 reg cfg app None)\<lparr>w_adapter := a', startErr := Some e, done_ch := True,
                        s_pc := Returned (Some e)\<rparr>]\<rparr>"

lemma lone_pool_start:
  fixes consume :: "'o \<Rightarrow> string \<Rightarrow> int \<Rightarrow> 'a \<Rightarrow> (error + (message, 'r) ConsumeResult option) \<times> 'a"
    and app :: 's
  shows "pool_run consume ack nack others a0 [[]] (lone_pool a0 reg cfg app)"
proof -
  obtain p :: "('a, 's, 'r) WorkerPool" where p: "NewWorkerPool a0 reg cfg 1 app None = Inr p" by (simp add: NewWorkerPool_def)
  then have "length (p_workers p) = 1" by (auto simp: NewWorkerPool_def)
  then have n: "pool_run consume ack nack others a0 [[]] p"
    using pool_new [OF _ p, where consume = consume and ack = ack and nack = nack and others = others]
    by (simp add: ctx_ok_def)
  have "lone_pool a0 reg cfg app = p\<lparr>p_poolCtx := p_ctx p, p_gos := replicate (length (p_workers p)) PgRun,
      p_listening := True, p_pc := PoolSelect\<rparr>"
    using p by (auto simp: NewWorkerPool_def lone_pool_def)
  moreover have "p_pc p = PoolIdle" using p by (auto simp: NewWorkerPool_def)
  ultimately show ?thesis using pool_steps [OF n pool_start] by simp
qed

lemma lone_worker_step:
  assumes "pool_run consume ack nack others a0 [tr] p" and "p_gos p = [PgRun]" and "p_workers p = [w]"
    and "worker_step consume ack nack ev (view p 0) w'" and "own ev"
  shows "pool_run consume ack nack others a0 [tr @ [ev]] (p\<lparr>p_workers := [w'], p_adapter := w_adapter w', p_app := w_app w'\<rparr>)"
  using pool_steps [OF assms(1) pool_worker [OF _ _ assms(5,4)]] assms(2,3) by simp

text \<open>A run of a worker that nobody disturbs, as a run of a pool of one.\<close>

lemma lone_pool_follows:
  assumes "worker_run consume ack nack rest a0 tr w" and "list_all own tr" and "s_ctx w = None"
  shows "\<exists>p v. pool_run consume ack nack others a0 [tr] p \<and> p_gos p = [PgRun] \<and> p_workers p = [v] \<and> view p 0 = w"
  using assms
proof (induction rule: worker_run.induct)
  case (run_new c reg config app)
  then have "view (lone_pool a0 reg config app) 0 = NewWorker a0 reg config app c" by (simp add: view_def lone_pool_def NewWorker_def)
  with lone_pool_start [of consume ack nack others a0 reg config app] show ?case
    by (intro exI [of _ "lone_pool a0 reg config app"] exI [of _ "NewWorker a0 reg config app None"]) (simp add: lone_pool_def)
next
  case (run_step tr w ev w')
  then have ev: "own ev" by simp
  with own_step_ctx [OF run_step.hyps(2)] run_step.prems(2) have "s_ctx w = None" by simp
  with run_step obtain p v where p: "pool_run consume ack nack others a0 [tr] p" "p_gos p = [PgRun]" "p_workers p = [v]" "view p 0 = w"
    by auto
  then have "p_poolCtx p = s_ctx w'" using \<open>s_ctx w = None\<close> run_step.prems(2) by (auto simp: view_def)
  then have "view (p\<lparr>p_workers := [w'], p_adapter := w_adapter w', p_app := w_app w'\<rparr>) 0 = w'" by (simp add: view_def)
  with lone_worker_step [OF p(1-3) _ ev, of w'] run_step.hyps(2) p(2,4) show ?case by fastforce
qed simp

lemma lone_worker_fails:
  assumes "consume orc (QueueName (worker_config cfg)) (MaxBatch (worker_config cfg)) a0 = (Inl e, a')"
  shows "pool_run consume ack nack others a0 [[Tau, Tau, Tau, Tau, StartReturns (Some e)]] (lone_failed e a' a0 reg cfg app)"
proof -
  let ?w = "NewWorker a0 reg cfg app None"
  let ?p = "\<lambda>a w. (lone_pool a0 reg cfg app)\<lparr>p_adapter := a, p_workers := [w]\<rparr>"
  have step: "pool_run consume ack nack others a0 [tr @ [ev]] (?p (w_adapter w') w')"
    if "pool_run consume ack nack others a0 [tr] (?p a w)" "worker_step consume ack nack ev w w'" "own ev"
      "w\<lparr>w_adapter := a, w_app := app, s_ctx := None\<rparr> = w" "w_app w' = app" for tr ev a w w'
  proof -
    have "view (?p a w) 0 = w" using that(4) by (simp add: view_def lone_pool_def)
    with lone_worker_step [OF that(1), of w ev w'] that(2-5) show ?thesis by (simp add: lone_pool_def)
  qed
  have r0: "pool_run consume ack nack others a0 [[]] (?p a0 ?w)"
    using lone_pool_start [of consume ack nack others a0 reg cfg app] by (simp add: lone_pool_def)
  have r1: "pool_run consume ack nack others a0 [[Tau]] (?p a0 (?w\<lparr>s_pc := LoopTop\<rparr>))"
    using step [OF r0 start_call] by (simp add: NewWorker_def)
  have r2: "pool_run consume ack nack others a0 [[Tau, Tau]] (?p a0 (?w\<lparr>s_pc := Consuming\<rparr>))"
    using step [OF r1 top_default] by (simp add: NewWorker_def)
  have r3: "pool_run consume ack nack others a0 [[Tau, Tau, Tau]] (?p a' (?w\<lparr>w_adapter := a', s_pc := ConsumeFailed e\<rparr>))"
    using step [OF r2 consume_error [where orc = orc and e = e and a' = a']] assms by (simp add: NewWorker_def)
  have r4: "pool_run consume ack nack others a0 [[Tau, Tau, Tau, Tau]]
      (?p a' (?w\<lparr>w_adapter := a', startErr := Some e, s_pc := Draining (Some e)\<rparr>))"
    using step [OF r3 failed [where e = e]] by (simp add: NewWorker_def fail_return_def)
  show ?thesis
    using step [OF r4 drained [where ret = "Some e"]] by (simp add: NewWorker_def lone_failed_def)
qed

lemma lone_pool_returns_nil:
  assumes "pool_run consume ack nack others a0 trs (lone_failed e a' a0 reg cfg app)" and "e \<noteq> Canceled"
  shows "pool_run consume ack nack others a0 trs
    ((lone_failed e a' a0 reg cfg app)\<lparr>p_gos := [PgExit], p_errCh := [e], p_poolCtx := Some Canceled, p_doneCh := True,
       p_done := True, p_pc := PoolReturned None\<rparr>)"
proof -
  let ?p = "lone_failed e a' a0 reg cfg app"
  have r1: "pool_run consume ack nack others a0 trs (?p\<lparr>p_gos := [PgSend e]\<rparr>)"
    using pool_steps [OF assms(1) pool_worker_returns [where i = 0 and err = "Some e"]] assms(2)
    by (simp add: lone_failed_def lone_pool_def after_worker_def)
  have r2: "pool_run consume ack nack others a0 trs (?p\<lparr>p_errCh := [e], p_gos := [PgCancel]\<rparr>)"
    using pool_steps [OF r1 pool_send [where i = 0 and e = e]] by (simp add: lone_failed_def lone_pool_def)
  have r3: "pool_run consume ack nack others a0 trs (?p\<lparr>p_errCh := [e], p_poolCtx := Some Canceled, p_gos := [PgDone]\<rparr>)"
    using pool_steps [OF r2 pool_cancel [where i = 0]] by (simp add: lone_failed_def lone_pool_def poolCancel_def)
  have r4: "pool_run consume ack nack others a0 trs (?p\<lparr>p_errCh := [e], p_poolCtx := Some Canceled, p_gos := [PgExit]\<rparr>)"
    using pool_steps [OF r3 pool_wg_done [where i = 0]] by (simp add: lone_failed_def lone_pool_def)
  have r5: "pool_run consume ack nack others a0 trs
      (?p\<lparr>p_errCh := [e], p_poolCtx := Some Canceled, p_gos := [PgExit], p_doneCh := True\<rparr>)"
    using pool_steps [OF r4 pool_all_done] by (simp add: lone_failed_def lone_pool_def)
  have r6: "pool_run consume ack nack others a0 trs
      (?p\<lparr>p_errCh := [e], p_poolCtx := Some Canceled, p_gos := [PgExit], p_doneCh := True, p_pc := PoolReturning None\<rparr>)"
    using pool_steps [OF r5 pool_select_done] by (simp add: lone_failed_def lone_pool_def)
  show ?thesis
    using pool_steps [OF r6 pool_deferred [where ret = None]] by (simp add: lone_failed_def lone_pool_def poolCancel_def)
qed

lemma lone_pool_swallows:
  fixes consume :: "'o \<Rightarrow> string \<Rightarrow> int \<Rightarrow> 'a \<Rightarrow> (error + (message, 'r) ConsumeResult option) \<times> 'a"
  assumes "consume orc (QueueName (worker_config cfg)) (MaxBatch (worker_config cfg)) a0 = (Inl e, a')"
    and "e \<noteq> Canceled"
  shows "\<exists>trs p. pool_run consume ack nack others a0 trs (p :: ('a, 's, 'r) WorkerPool) \<and> p_pc p = PoolReturned None \<and>
    worker_failed p e \<and> p_ctx p = None \<and> p_done p \<and> length (p_workers p) = 1"
  using lone_pool_returns_nil [OF lone_worker_fails [where consume = consume and orc = orc and cfg = cfg, OF assms(1)] assms(2)]
  by (intro exI conjI) (assumption, simp_all add: lone_failed_def lone_pool_def worker_failed_def assms(2))

section \<open>Progress\<close>

lemma pool_go_steps:
  assumes "pool_run consume ack nack others a0 trs p" and "i < length (p_gos p)" and "p_gos p ! i \<noteq> PgExit"
  shows "\<exists>lab p'. pool_step consume ack nack lab p p'"
proof (cases "p_gos p ! i")
  case PgRun
  have "p_gos p \<noteq> []" using assms(2) by auto
  with pool_shape_run [OF assms(1)] assms(2) have i: "i < length (p_workers p)" by (auto simp: pool_shape_def)
  show ?thesis
  proof (cases "\<exists>ret. s_pc (p_workers p ! i) = Returned ret")
    case True
    with pool_worker_returns [OF assms(2) PgRun] show ?thesis by blast
  next
    case False
    then have "\<nexists>ret. s_pc (view p i) = Returned ret" by (simp add: view_def)
    from never_stuck [OF simulated_sync [OF simulated_run [OF assms(1) i]] this, of consume ack nack]
    obtain ev w' where "own ev" "worker_step consume ack nack ev (view p i) w'" by (auto simp: can_step_def)
    from pool_worker [OF assms(2) PgRun this] show ?thesis by blast
  qed
next
  case (PgSend e)
  with pool_send [OF assms(2)] pool_send_default [OF assms(2)] show ?thesis by blast
next
  case PgCancel
  with pool_cancel [OF assms(2)] show ?thesis by blast
next
  case PgDone
  with pool_wg_done [OF assms(2)] show ?thesis by blast
qed (use assms(3) in simp)

section \<open>Stopping the others\<close>

text \<open>
  Who has called \<open>poolCancel\<close>: a goroutine whose worker failed, once it is past that call; the listener, unless it saw the
  context done; and \<open>Start\<close> when it returns.  What is in \<open>errCh\<close>, or was taken from it, comes from a goroutine that
  has called it or is about to.
\<close>

definition about_to_cancel :: "('a, 's, 'r) WorkerPool \<Rightarrow> bool" where
  "about_to_cancel p \<longleftrightarrow> p_poolCtx p \<noteq> None \<or> PgCancel \<in> set (p_gos p)"

definition cancel_inv :: "('a, 's, 'r) WorkerPool \<Rightarrow> bool" where
  "cancel_inv p \<longleftrightarrow>
     (\<forall>i < length (p_gos p). \<forall>e. p_gos p ! i \<in> {PgDone, PgExit} \<and> s_pc (p_workers p ! i) = Returned (Some e) \<and> e \<noteq> Canceled \<longrightarrow>
        p_poolCtx p \<noteq> None) \<and>
     (p_pc p \<noteq> PoolIdle \<and> \<not> p_listening p \<longrightarrow> p_poolCtx p \<noteq> None) \<and>
     (p_errCh p \<noteq> [] \<longrightarrow> about_to_cancel p) \<and>
     (\<forall>e. p_pc p = PoolWait e \<longrightarrow> about_to_cancel p) \<and>
     (\<forall>ret. p_pc p = PoolReturned ret \<longrightarrow> p_poolCtx p \<noteq> None)"

lemma poolCancel_done [simp]: "p_poolCtx (poolCancel p) \<noteq> None"
  by (simp add: poolCancel_def split: option.split)

lemma cancel_inv_done: "p_poolCtx p \<noteq> None \<Longrightarrow> cancel_inv p"
  by (simp add: cancel_inv_def about_to_cancel_def)

text \<open>A goroutine that is not at \<open>poolCancel\<close> goes on, past it only if it had nothing to report.\<close>

lemma cancel_inv_go:
  assumes "cancel_inv p" and "i < length (p_gos p)" and "p_gos p ! i \<noteq> PgCancel"
    and "es \<noteq> [] \<longrightarrow> p_errCh p \<noteq> [] \<or> g = PgCancel"
    and "g \<in> {PgDone, PgExit} \<Longrightarrow> p_gos p ! i \<in> {PgDone, PgExit} \<or> (\<forall>e. s_pc (p_workers p ! i) = Returned (Some e) \<longrightarrow> e = Canceled)"
  shows "cancel_inv (p\<lparr>p_errCh := es, p_gos := (p_gos p)[i := g]\<rparr>)"
proof -
  have set: "PgCancel \<in> set ((p_gos p)[i := g]) \<longleftrightarrow> PgCancel \<in> set (p_gos p) \<or> g = PgCancel"
  proof -
    have "PgCancel \<in> set (p_gos p) \<Longrightarrow> PgCancel \<in> set ((p_gos p)[i := g])"
      using assms(3) by (metis in_set_conv_nth length_list_update nth_list_update_neq)
    moreover have "g = PgCancel \<Longrightarrow> PgCancel \<in> set ((p_gos p)[i := g])" using set_update_memI [OF assms(2)] by metis
    ultimately show ?thesis using set_update_subset_insert [of "p_gos p" i g] by auto
  qed
  have "p_poolCtx p \<noteq> None" if "j < length (p_gos p)" "(p_gos p)[i := g] ! j \<in> {PgDone, PgExit}"
    "s_pc (p_workers p ! j) = Returned (Some e)" "e \<noteq> Canceled" for j e
  proof (cases "j = i")
    case True
    with that assms(2,5) have "p_gos p ! i \<in> {PgDone, PgExit}" by auto
    with that True assms(1) show ?thesis unfolding cancel_inv_def by blast
  next
    case False
    with that assms(1) show ?thesis unfolding cancel_inv_def by auto
  qed
  with set assms(1,4) show ?thesis by (auto simp: cancel_inv_def about_to_cancel_def)
qed

lemma cancel_inv_go_same:
  assumes "cancel_inv p" and "i < length (p_gos p)" and "p_gos p ! i \<noteq> PgCancel"
    and "g \<in> {PgDone, PgExit} \<Longrightarrow> p_gos p ! i \<in> {PgDone, PgExit} \<or> (\<forall>e. s_pc (p_workers p ! i) = Returned (Some e) \<longrightarrow> e = Canceled)"
  shows "cancel_inv (p\<lparr>p_gos := (p_gos p)[i := g]\<rparr>)"
  using cancel_inv_go [OF assms(1-3), of "p_errCh p" g] assms(4) by simp

lemma cancel_inv_step:
  assumes "pool_step consume ack nack lab p p'" and "cancel_inv p" and "pool_shape trs p"
  shows "cancel_inv p'"
  using assms(1)
proof cases
  case pool_start
  with assms(3) show ?thesis by (auto simp: cancel_inv_def about_to_cancel_def pool_shape_def)
next
  case (pool_worker i ev w')
  have "s_pc (p_workers p' ! j) = s_pc (p_workers p ! j)" if "p_gos p ! j \<in> {PgDone, PgExit}" for j
    using that pool_worker by (cases "j = i") auto
  with pool_worker assms(2) show ?thesis by (auto simp: cancel_inv_def about_to_cancel_def)
next
  case (pool_worker_returns i err)
  have "\<forall>e. s_pc (p_workers p ! i) = Returned (Some e) \<longrightarrow> e = Canceled" if "after_worker err \<in> {PgDone, PgExit}"
    using that pool_worker_returns(5) by (auto simp: after_worker_def split: option.splits if_splits)
  with pool_worker_returns(2-4) show ?thesis by (auto intro!: cancel_inv_go_same [OF assms(2)])
next
  case (pool_send i e)
  then show ?thesis using cancel_inv_go [OF assms(2) pool_send(3), of "p_errCh p @ [e]" PgCancel] by simp
next
  case (pool_send_default i e)
  then show ?thesis using cancel_inv_go_same [OF assms(2) pool_send_default(3), of PgCancel] by simp
next
  case (pool_cancel i)
  show ?thesis unfolding pool_cancel(2) by (rule cancel_inv_done) simp
next
  case (pool_wg_done i)
  then show ?thesis using cancel_inv_go_same [OF assms(2) pool_wg_done(3), of PgExit] by simp
next
  case pool_listen_stop
  show ?thesis unfolding pool_listen_stop(2) by (rule cancel_inv_done) simp
next
  case (pool_select_ctx e)
  show ?thesis unfolding pool_select_ctx(2) by (rule cancel_inv_done) simp
next
  case (pool_deferred ret)
  show ?thesis unfolding pool_deferred(2) by (rule cancel_inv_done) simp
next
  case pool_listen_ctx
  then show ?thesis by (auto intro: cancel_inv_done)
next
  case (pool_propagate e)
  then show ?thesis by (auto intro: cancel_inv_done)
qed (use assms(2) in \<open>auto simp: cancel_inv_def about_to_cancel_def\<close>)

lemma cancel_inv_run: "pool_run consume ack nack others a0 trs p \<Longrightarrow> cancel_inv p"
proof (induction rule: pool_run.induct)
  case (pool_new c reg config n app p)
  then show ?case by (auto simp: cancel_inv_def NewWorkerPool_def split: if_splits)
next
  case (pool_steps trs p lab p')
  from cancel_inv_step [OF pool_steps.hyps(2) pool_steps.IH pool_shape_run [OF pool_steps.hyps(1)]] show ?case .
next
  case (pool_envs trs p p')
  have "length (p_gos p) \<le> length (p_workers p)"
    using pool_shape_run [OF pool_envs.hyps(1)] by (cases "p_pc p = PoolIdle") (auto simp: pool_shape_def)
  with pool_envs.hyps(2) pool_envs.IH show ?case by cases (auto simp: cancel_inv_def about_to_cancel_def)
next
  case (pool_others trs p a')
  then show ?case by (simp add: cancel_inv_def about_to_cancel_def)
qed

section \<open>Properties\<close>

text \<open>
  C17. When the pool's Start has returned, every worker has drained: its goroutines are gone, and each
  message it took was abandoned before dispatch or handled exactly once and settled exactly once
  with the outcome of its handler.
\<close>

theorem pool_drained:
  assumes "pool_run consume ack nack others a0 trs p" and "p_done p" and "i < length (p_workers p)"
  shows "gos (p_workers p ! i) = [] \<and> done_ch (p_workers p ! i) \<and>
    taken (trs ! i) = begun (trs ! i) @ dropped (trs ! i) \<and>
    mset (settled (trs ! i)) = mset (handler_runs (trs ! i)) \<and>
    mset (map fst (settled (trs ! i))) = mset (begun (trs ! i))"
proof -
  note inv = pool_inv_run [OF assms(1)]
  from inv assms(2) obtain ret' where "p_pc p = PoolReturned ret'" by (auto simp: pool_inv_def)
  with inv have "set (p_gos p) \<subseteq> {PgExit}" "p_pc p \<noteq> PoolIdle" by (auto simp: pool_inv_def)
  moreover from this pool_shape_run [OF assms(1)] assms(3) have "i < length (p_gos p)" by (simp add: pool_shape_def)
  ultimately have "go_fits (s_pc (p_workers p ! i)) PgExit" using pool_inv_fits [OF inv] by (metis nth_mem singletonD subsetD)
  then obtain ret where ret: "s_pc (view p i) = Returned ret" by (auto simp: view_def)
  from simulated_run [OF assms(1,3)] obtain T where
    T: "worker_run consume ack nack any_others a0 T (view p i)" "visible T = trs ! i" by (auto simp: simulated_def)
  have s: "gos (view p i) = []" "done_ch (view p i)" using sync_inv_run [OF T(1)] ret by (auto simp: sync_inv_def)
  then have "taken T = begun T @ dropped T" "mset (settled T) = mset (handler_runs T)"
    "mset (map fst (settled T)) = mset (begun T)"
    using books_inv_run [OF T(1)] ret by (simp_all add: books_inv_def)
  with visible_reads [of T] T(2) s show ?thesis by (simp add: view_def)
qed

text \<open>
  The pool's Start reports nothing but its parent context's error or an error other than
  context.Canceled that some worker's Start returned; and no worker's report is lost for want of
  room, since errCh can take one error from each.
\<close>

lemma pool_outcome:
  assumes "pool_run consume ack nack others a0 trs p"
  shows "(p_pc p = PoolReturned (Some e) \<longrightarrow> p_ctx p = Some e \<or> worker_failed p e) \<and>
    (i < length (p_gos p) \<and> p_gos p ! i = PgSend e \<longrightarrow> length (p_errCh p) < length (p_workers p))"
proof -
  note inv = pool_inv_run [OF assms]
  have "length (p_errCh p) < length (p_workers p)" if "i < length (p_gos p)" "p_gos p ! i = PgSend e"
  proof -
    have "1 \<le> sum_list (map may_send (p_gos p))"
      using sum_list_map_split [OF that(1), of may_send] that(2) by simp
    with inv have "length (p_errCh p) < length (p_gos p)" unfolding pool_inv_def by linarith
    moreover have "p_gos p \<noteq> []" using that(1) by auto
    ultimately show ?thesis using pool_shape_run [OF assms] by (auto simp: pool_shape_def)
  qed
  with inv show ?thesis unfolding pool_inv_def by auto
qed

text \<open>
  C18. One failure stops the whole pool.  In every run: when a worker's Start has returned an error other than
  context.Canceled and its goroutine has gone on to wg.Done, the context of every worker of the pool is done; when the
  pool's Start is waiting for its workers because of an error, that context is done or a goroutine is about to cancel
  it; when the listener for Stop has left its select, it is done; and when Start has returned it is done, and an error
  it returned is the parent context's or one other than context.Canceled with which some worker's Start has returned.
  No worker's report is lost for want of room in errCh.
\<close>

theorem pool_failure_stops_all:
  assumes "pool_run consume ack nack others a0 trs p"
  shows "(i < length (p_gos p) \<and> p_gos p ! i \<in> {PgDone, PgExit} \<and> s_pc (p_workers p ! i) = Returned (Some e) \<and> e \<noteq> Canceled \<longrightarrow>
      (\<forall>j. s_ctx (view p j) \<noteq> None)) \<and>
    (p_pc p = PoolWait e \<longrightarrow> p_poolCtx p \<noteq> None \<or> PgCancel \<in> set (p_gos p)) \<and>
    (p_pc p \<noteq> PoolIdle \<and> \<not> p_listening p \<longrightarrow> p_poolCtx p \<noteq> None) \<and>
    (p_pc p = PoolReturned ret \<longrightarrow> p_poolCtx p \<noteq> None \<and> (ret = Some e \<longrightarrow> p_ctx p = Some e \<or> worker_failed p e)) \<and>
    (i < length (p_gos p) \<and> p_gos p ! i = PgSend e \<longrightarrow> length (p_errCh p) < length (p_workers p))"
proof -
  have "s_ctx (view p j) = p_poolCtx p" for j by (simp add: view_def)
  with cancel_inv_run [OF assms] pool_outcome [OF assms, of e i] show ?thesis
    by (auto simp: cancel_inv_def about_to_cancel_def)
qed

text \<open>
  The pool cannot deadlock: until its Start has returned, some thread of the pool can make a step.
\<close>

lemma pool_never_stuck:
  assumes "pool_run consume ack nack others a0 trs p" and "\<not> p_done p"
  shows "\<exists>lab p'. pool_step consume ack nack lab p p'"
proof (cases "p_doneCh p \<or> p_pc p = PoolIdle")
  case True
  show ?thesis
  proof (cases "p_pc p")
    case PoolIdle
    from pool_start [OF this] show ?thesis by blast
  next
    case PoolSelect
    with True have "p_doneCh p" by simp
    from pool_select_done [OF PoolSelect this] show ?thesis by blast
  next
    case (PoolWait e)
    with True have "p_doneCh p" by simp
    from pool_wait [OF PoolWait this] show ?thesis by blast
  next
    case (PoolReturning ret)
    from pool_deferred [OF this] show ?thesis by blast
  next
    case (PoolReturned ret)
    with pool_inv_run [OF assms(1)] assms(2) show ?thesis by (simp add: pool_inv_def)
  qed
next
  case False
  show ?thesis
  proof (cases "set (p_gos p) \<subseteq> {PgExit}")
    case True
    with False pool_all_done [of p] show ?thesis by blast
  next
    case rest: False
    then obtain i where "i < length (p_gos p)" "p_gos p ! i \<noteq> PgExit" by (auto simp: subset_iff in_set_conv_nth)
    from pool_go_steps [OF assms(1) this] show ?thesis .
  qed
qed

text \<open>
  The pool's Start can report success although a worker failed: when the only worker's Consume
  fails, there is a run in which the select of Start finds both the worker's error and doneCh
  ready, takes doneCh, and returns nil.
\<close>

lemma pool_swallows_error:
  fixes consume :: "'o \<Rightarrow> string \<Rightarrow> int \<Rightarrow> 'a \<Rightarrow> (error + (message, 'r) ConsumeResult option) \<times> 'a"
  assumes "consume orc (QueueName (worker_config cfg)) (MaxBatch (worker_config cfg)) a0 = (Inl e, a')"
    and "e \<noteq> Canceled"
  shows "\<exists>trs p. pool_run consume ack nack others a0 trs (p :: ('a, 's, 'r) WorkerPool) \<and> p_pc p = PoolReturned None \<and>
    worker_failed p e \<and> p_ctx p = None"
  using lone_pool_swallows [where consume = consume and orc = orc and cfg = cfg, OF assms] by blast

text \<open>An adapter whose Consume always fails, for the witnesses; its state is a number.\<close>

definition boom :: "unit \<Rightarrow> string \<Rightarrow> int \<Rightarrow> nat \<Rightarrow> (error + (message, nat) ConsumeResult option) \<times> nat" where
  "boom _ _ _ a = (Inl (Ext ''boom''), a)"

definition no_settle :: "nat \<Rightarrow> ctx \<Rightarrow> nat \<Rightarrow> error option \<times> nat" where
  "no_settle _ _ a = (None, a)"

text \<open>The failing worker and the pool that swallows its error, as concrete states.\<close>

definition boom_returned :: "(nat, unit, nat) WorkerPool" where
  "boom_returned = (lone_failed (Ext ''boom'') 7 7 NewRegistry (DefaultWorkerConfig ''jobs'') ())
     \<lparr>p_gos := [PgExit], p_errCh := [Ext ''boom''], p_poolCtx := Some Canceled, p_doneCh := True, p_done := True,
      p_pc := PoolReturned None\<rparr>"

lemma boom_run:
  "pool_run boom no_settle no_settle (\<lambda>_ _ _. False) 7 [[Tau, Tau, Tau, Tau, StartReturns (Some (Ext ''boom''))]] boom_returned"
  unfolding boom_returned_def
  by (rule lone_pool_returns_nil [OF lone_worker_fails [where orc = "()"]]) (simp_all add: boom_def)

theorem pool_drained_witness: "gos (p_workers boom_returned ! 0) = [] \<and> done_ch (p_workers boom_returned ! 0)"
  using pool_drained [OF boom_run, of 0] by (simp add: boom_returned_def lone_failed_def)

theorem pool_failure_stops_all_witness:
  "s_pc (p_workers boom_returned ! 0) = Returned (Some (Ext ''boom'')) \<and> p_gos boom_returned ! 0 = PgExit \<and>
   (\<forall>j. s_ctx (view boom_returned j) \<noteq> None)"
proof -
  have b: "s_pc (p_workers boom_returned ! 0) = Returned (Some (Ext ''boom''))" "p_gos boom_returned ! 0 = PgExit"
    "length (p_gos boom_returned) = 1" by (simp_all add: boom_returned_def lone_failed_def)
  with pool_failure_stops_all [OF boom_run, of 0 "Ext ''boom''"] show ?thesis by simp
qed

end
