(* ===== verification/MemoryAdapter.thy ===== *)
theory MemoryAdapter
  imports Producer
begin

text \<open>
  \<open>go/adapters/memory/adapter.go\<close>: queues as buffered channels.

  Channels and receipts are objects the code shares by reference (a receipt's closure keeps the
  channel it was read from, even after \<open>Clear\<close> has put another in its place), so the state is an
  explicit heap: \<open>queues\<close> maps a name to the address of its channel, \<open>chans\<close> and \<open>receipts\<close> are
  the objects by address.  The element type \<open>'m\<close> is a message; the adapter never looks into one.

  The oracle of \<open>Consume\<close> gives for every turn of its loop what \<open>ctx.Err()\<close> is by then, and
  which case Go's \<open>select\<close> picks when both the channel and the context are ready.

  Each function is the method as one thread runs it alone; \<open>MemoryRaces\<close> splits the methods at
  their points of interleaving.
\<close>

section \<open>State\<close>

record 'm messageWithReceipt =
  mwr_message :: 'm
  mwr_receipt :: "nat option"

record 'm channel =
  ch_cap :: int
  ch_buf :: "'m messageWithReceipt list"

record 'm memoryReceipt =
  mr_msg :: 'm
  acked :: bool
  nacked :: bool
  requeue_chan :: "nat option"

record 'm MemAdapter =
  queues :: "(string \<times> nat) list"
  bufferSize :: int
  chans :: "'m channel list"
  receipts :: "'m memoryReceipt list"

definition NewAdapter :: "int \<Rightarrow> 'm MemAdapter" where
  "NewAdapter bufSize =
     \<lparr>queues = [], bufferSize = (if bufSize \<le> 0 then 1000 else bufSize), chans = [], receipts = []\<rparr>"

section \<open>Channels\<close>

definition chan_len :: "nat \<Rightarrow> 'm MemAdapter \<Rightarrow> int" where
  "chan_len cid a = int (length (ch_buf (chans a ! cid)))"

definition chan_cap :: "nat \<Rightarrow> 'm MemAdapter \<Rightarrow> int" where
  "chan_cap cid a = ch_cap (chans a ! cid)"

definition set_buf :: "nat \<Rightarrow> 'm messageWithReceipt list \<Rightarrow> 'm MemAdapter \<Rightarrow> 'm MemAdapter" where
  "set_buf cid b a = a\<lparr>chans := (chans a)[cid := (chans a ! cid)\<lparr>ch_buf := b\<rparr>]\<rparr>"

definition chan_send :: "nat \<Rightarrow> 'm \<Rightarrow> 'm MemAdapter \<Rightarrow> 'm MemAdapter" where
  "chan_send cid m a =
     set_buf cid (ch_buf (chans a ! cid) @ [\<lparr>mwr_message = m, mwr_receipt = None\<rparr>]) a"

text \<open>\<open>a.queues[name] = make(chan *messageWithReceipt, a.bufferSize)\<close>\<close>

definition make_queue :: "string \<Rightarrow> 'm MemAdapter \<Rightarrow> 'm MemAdapter" where
  "make_queue name a =
     a\<lparr>queues := AList.update name (length (chans a)) (queues a),
       chans := chans a @ [\<lparr>ch_cap = bufferSize a, ch_buf = []\<rparr>]\<rparr>"

definition ensure_queue :: "string \<Rightarrow> 'm MemAdapter \<Rightarrow> nat \<times> 'm MemAdapter" where
  "ensure_queue name a =
     (case map_of (queues a) name of
        Some cid \<Rightarrow> (cid, a)
      | None \<Rightarrow> (length (chans a), make_queue name a))"

section \<open>Receipts\<close>

definition Ack :: "nat \<Rightarrow> ctx \<Rightarrow> 'm MemAdapter \<Rightarrow> error option \<times> 'm MemAdapter" where
  "Ack r c a =
     (if r < length (receipts a) then
        (let rc = receipts a ! r in
         if acked rc then (Some (Msg ''message already acknowledged''), a)
         else if nacked rc then (Some (Msg ''message already nacked''), a)
         else (None, a\<lparr>receipts := (receipts a)[r := rc\<lparr>acked := True\<rparr>]\<rparr>))
      else (Some (Panic ''nil pointer dereference''), a))"

text \<open>The closure of \<open>Consume\<close>: a send that gives up when the channel is full.\<close>

definition requeueF :: "nat \<Rightarrow> 'm \<Rightarrow> 'm MemAdapter \<Rightarrow> 'm MemAdapter" where
  "requeueF cid msg a = (if chan_len cid a < chan_cap cid a then chan_send cid msg a else a)"

definition Nack :: "nat \<Rightarrow> ctx \<Rightarrow> 'm MemAdapter \<Rightarrow> error option \<times> 'm MemAdapter" where
  "Nack r c a =
     (if r < length (receipts a) then
        (let rc = receipts a ! r in
         if acked rc then (Some (Msg ''message already acknowledged''), a)
         else if nacked rc then (Some (Msg ''message already nacked''), a)
         else (let a1 = a\<lparr>receipts := (receipts a)[r := rc\<lparr>nacked := True\<rparr>]\<rparr> in
               (None, case requeue_chan rc of None \<Rightarrow> a1 | Some cid \<Rightarrow> requeueF cid (mr_msg rc) a1)))
      else (Some (Panic ''nil pointer dereference''), a))"

section \<open>The methods of the adapter\<close>

definition Publish :: "ctx \<Rightarrow> string \<Rightarrow> 'm list \<Rightarrow> 'm MemAdapter \<Rightarrow> error option \<times> 'm MemAdapter" where
  "Publish c queueName messages a =
     (case messages of
        [] \<Rightarrow> (None, a)
      | _ \<Rightarrow>
     (case c of
        Some err \<Rightarrow> (Some err, a)
      | None \<Rightarrow>
          (let (cid, a1) = ensure_queue queueName a in
           if int (length messages) > chan_cap cid a1 - chan_len cid a1
           then (Some (Msg (''queue '' @ queueName @ '' is full'')), a1)
           else (None, fold (chan_send cid) messages a1))))"

text \<open>One receive of the \<open>Consume\<close> loop: the item and its fresh receipt.\<close>

definition receive :: "nat \<Rightarrow> 'm MemAdapter \<Rightarrow> ('m, nat) MessageItem \<times> 'm MemAdapter" where
  "receive cid a =
     (let m = mwr_message (hd (ch_buf (chans a ! cid))) in
      (\<lparr>Message = m, Receipt = length (receipts a)\<rparr>,
       (set_buf cid (tl (ch_buf (chans a ! cid))) a)
         \<lparr>receipts := receipts a @ [\<lparr>mr_msg = m, acked = False, nacked = False, requeue_chan = Some cid\<rparr>]\<rparr>))"

type_synonym select_oracle = "nat \<Rightarrow> ctx \<times> bool"

fun consume_loop ::
  "select_oracle \<Rightarrow> nat \<Rightarrow> nat \<Rightarrow> nat \<Rightarrow> ('m, nat) MessageItem list \<Rightarrow> 'm MemAdapter \<Rightarrow>
   (error + ('m, nat) ConsumeResult option) \<times> 'm MemAdapter" where
  "consume_loop oracle cid i 0 items a = (Inr (Some \<lparr>Items = items\<rparr>), a)"
| "consume_loop oracle cid i (Suc n) items a =
     (case (chan_len cid a > 0, oracle i) of
        (True, Some err, True) \<Rightarrow> (Inl err, a)
      | (True, _) \<Rightarrow> (let (it, a') = receive cid a in consume_loop oracle cid (Suc i) n (items @ [it]) a')
      | (False, Some err, _) \<Rightarrow> (Inl err, a)
      | (False, None, _) \<Rightarrow> (Inr (Some \<lparr>Items = items\<rparr>), a))"

definition Consume ::
  "select_oracle \<Rightarrow> string \<Rightarrow> int \<Rightarrow> 'm MemAdapter \<Rightarrow>
   (error + ('m, nat) ConsumeResult option) \<times> 'm MemAdapter" where
  "Consume oracle queueName maxBatch a =
     (let (cid, a1) = ensure_queue queueName a in
      if maxBatch < 0 then (Inl (Panic ''makeslice: cap out of range''), a1)
      else consume_loop oracle cid 0 (nat maxBatch) [] a1)"

definition QueueDepth :: "string \<Rightarrow> 'm MemAdapter \<Rightarrow> int" where
  "QueueDepth queueName a =
     (case map_of (queues a) queueName of None \<Rightarrow> 0 | Some cid \<Rightarrow> chan_len cid a)"

text \<open>One turn of the loop of \<open>Clear\<close>: the channel is drained, then replaced.\<close>

definition clear_queue :: "string \<times> nat \<Rightarrow> 'm MemAdapter \<Rightarrow> 'm MemAdapter" where
  "clear_queue nq a = make_queue (fst nq) (set_buf (snd nq) [] a)"

definition Clear :: "'m MemAdapter \<Rightarrow> 'm MemAdapter" where
  "Clear a = fold clear_queue (queues a) a"

text \<open>The adapter as a value of the interfaces of \<open>core/types.go\<close>.\<close>

definition mem_QueueAdapter :: "('m MemAdapter, 'm, nat, select_oracle) QueueAdapter" where
  "mem_QueueAdapter = \<lparr>ad_Publish = Publish, ad_Consume = Consume\<rparr>"

definition mem_Receipt :: "('m MemAdapter, nat) Receipt_methods" where
  "mem_Receipt = \<lparr>rc_Ack = Ack, rc_Nack = Nack\<rparr>"

section \<open>Specification view and invariant\<close>

definition pending :: "'m MemAdapter \<Rightarrow> string \<Rightarrow> 'm list" where
  "pending a q =
     (case map_of (queues a) q of None \<Rightarrow> [] | Some cid \<Rightarrow> map mwr_message (ch_buf (chans a ! cid)))"

definition outstanding :: "'m MemAdapter \<Rightarrow> nat \<Rightarrow> 'm option" where
  "outstanding a r =
     (if r < length (receipts a) \<and> \<not> acked (receipts a ! r) \<and> \<not> nacked (receipts a ! r)
      then Some (mr_msg (receipts a ! r)) else None)"

definition mem_inv :: "'m MemAdapter \<Rightarrow> bool" where
  "mem_inv a \<longleftrightarrow>
     0 < bufferSize a \<and>
     distinct (map fst (queues a)) \<and> distinct (map snd (queues a)) \<and>
     (\<forall>(q, cid) \<in> set (queues a). cid < length (chans a)) \<and>
     (\<forall>ch \<in> set (chans a). ch_cap ch = bufferSize a \<and> int (length (ch_buf ch)) \<le> bufferSize a) \<and>
     (\<forall>rc \<in> set (receipts a). \<forall>cid. requeue_chan rc = Some cid \<longrightarrow> cid < length (chans a))"

section \<open>The heap\<close>

lemma set_buf_fields [simp, chan_simps]:
  "queues (set_buf cid b a) = queues a" "bufferSize (set_buf cid b a) = bufferSize a"
  "receipts (set_buf cid b a) = receipts a" "length (chans (set_buf cid b a)) = length (chans a)"
  by (simp_all add: set_buf_def)

lemma ch_cap_set_buf [simp, chan_simps]: "ch_cap (chans (set_buf cid b a) ! i) = ch_cap (chans a ! i)"
  by (cases "i = cid"; cases "cid < length (chans a)") (simp_all add: set_buf_def list_update_beyond)

lemma ch_buf_set_buf [chan_simps]:
  "cid < length (chans a) \<Longrightarrow> ch_buf (chans (set_buf cid b a) ! i) = (if i = cid then b else ch_buf (chans a ! i))"
  by (auto simp: set_buf_def nth_list_update)

lemma chan_send_fields [simp, chan_simps]:
  "queues (chan_send cid m a) = queues a" "bufferSize (chan_send cid m a) = bufferSize a"
  "receipts (chan_send cid m a) = receipts a" "length (chans (chan_send cid m a)) = length (chans a)"
  by (simp_all add: chan_send_def)

lemma fold_chan_send:
  "cid < length (chans a) \<Longrightarrow>
   fold (chan_send cid) ms a =
     set_buf cid (ch_buf (chans a ! cid) @ map (\<lambda>m. \<lparr>mwr_message = m, mwr_receipt = None\<rparr>) ms) a"
proof (induction ms arbitrary: a)
  case Nil
  then show ?case by (simp add: set_buf_def)
next
  case (Cons m ms)
  have "set_buf cid b (set_buf cid b' a) = set_buf cid b a" for b b'
    using Cons.prems by (simp add: set_buf_def)
  with Cons show ?case by (simp add: chan_send_def ch_buf_set_buf)
qed

lemma make_queue_fields [simp]:
  "bufferSize (make_queue q a) = bufferSize a" "receipts (make_queue q a) = receipts a"
  "chans (make_queue q a) = chans a @ [\<lparr>ch_cap = bufferSize a, ch_buf = []\<rparr>]"
  "queues (make_queue q a) = AList.update q (length (chans a)) (queues a)"
  by (simp_all add: make_queue_def)

section \<open>Invariant and view of each heap operation\<close>

lemma mem_inv_queue: "mem_inv a \<Longrightarrow> map_of (queues a) q = Some cid \<Longrightarrow> cid < length (chans a)"
  by (auto simp: mem_inv_def dest!: map_of_SomeD)

lemma mem_inv_owner:
  "mem_inv a \<Longrightarrow> map_of (queues a) q = Some cid \<Longrightarrow> map_of (queues a) q' = Some cid \<Longrightarrow> q = q'"
proof -
  assume inv: "mem_inv a" and "map_of (queues a) q = Some cid" "map_of (queues a) q' = Some cid"
  then have "(q, cid) \<in> set (queues a)" "(q', cid) \<in> set (queues a)" by (auto dest: map_of_SomeD)
  moreover from inv have "inj_on snd (set (queues a))" by (simp add: mem_inv_def distinct_map)
  ultimately show "q = q'" by (metis inj_on_eq_iff prod.inject snd_conv)
qed

lemma mem_inv_New: "mem_inv (NewAdapter n)"
  by (simp add: mem_inv_def NewAdapter_def)

lemma mem_inv_set_buf:
  assumes "mem_inv a" and "cid < length (chans a)" and "int (length b) \<le> ch_cap (chans a ! cid)"
  shows "mem_inv (set_buf cid b a)"
proof -
  have "ch_cap ch = bufferSize a \<and> int (length (ch_buf ch)) \<le> bufferSize a"
    if "ch \<in> set (chans (set_buf cid b a))" for ch
  proof -
    from that have "ch \<in> insert ((chans a ! cid)\<lparr>ch_buf := b\<rparr>) (set (chans a))"
      using set_update_subset_insert by (fastforce simp: set_buf_def)
    moreover have "chans a ! cid \<in> set (chans a)" using assms(2) by simp
    ultimately show ?thesis using assms by (auto simp: mem_inv_def)
  qed
  then have "\<forall>ch \<in> set (chans (set_buf cid b a)). ch_cap ch = bufferSize a \<and> int (length (ch_buf ch)) \<le> bufferSize a"
    by blast
  then show ?thesis using assms(1) by (simp add: mem_inv_def)
qed

lemma pending_set_buf:
  assumes "mem_inv a" and "cid < length (chans a)"
  shows "pending (set_buf cid b a) q =
           (if map_of (queues a) q = Some cid then map mwr_message b else pending a q)"
  using assms by (auto simp: pending_def ch_buf_set_buf split: option.splits)

lemma pending_set_buf_owned:
  assumes "mem_inv a" and "map_of (queues a) q = Some cid"
  shows "pending (set_buf cid b a) = (pending a)(q := map mwr_message b)"
proof
  fix q'
  have "map_of (queues a) q' = Some cid \<longleftrightarrow> q' = q" using mem_inv_owner assms by blast
  then show "pending (set_buf cid b a) q' = ((pending a)(q := map mwr_message b)) q'"
    using pending_set_buf [OF assms(1) mem_inv_queue [OF assms]] by simp
qed

lemma pending_queue: "map_of (queues a) q = Some cid \<Longrightarrow> pending a q = map mwr_message (ch_buf (chans a ! cid))"
  by (simp add: pending_def)

lemma snd_update_new: "k \<notin> fst ` set al \<Longrightarrow> AList.update k v al = al @ [(k, v)]"
  by (induction al) auto

lemma mem_inv_update_receipts:
  assumes "mem_inv a" and "r < length (receipts a)" and "requeue_chan rc = requeue_chan (receipts a ! r)"
  shows "mem_inv (a\<lparr>receipts := (receipts a)[r := rc]\<rparr>)"
proof -
  have "receipts a ! r \<in> set (receipts a)" using assms(2) by simp
  then have "\<forall>rc' \<in> insert rc (set (receipts a)). \<forall>cid. requeue_chan rc' = Some cid \<longrightarrow> cid < length (chans a)"
    using assms(1,3) by (auto simp: mem_inv_def)
  then have "\<forall>rc' \<in> set ((receipts a)[r := rc]). \<forall>cid. requeue_chan rc' = Some cid \<longrightarrow> cid < length (chans a)"
    using set_update_subset_insert [of "receipts a" r rc] by blast
  then show ?thesis using assms(1) by (simp add: mem_inv_def)
qed

lemma pending_receipts [simp]: "pending (a\<lparr>receipts := rs\<rparr>) = pending a"
  by (simp add: pending_def fun_eq_iff split: option.split)

lemma outstanding_chans [simp]:
  "outstanding (set_buf cid b a) = outstanding a" "outstanding (make_queue q a) = outstanding a"
  by (simp_all add: outstanding_def fun_eq_iff)

lemma ensure_queue_props:
  assumes "mem_inv a" and "ensure_queue q a = (cid, a1)"
  shows "mem_inv a1" "cid < length (chans a1)" "map_of (queues a1) q = Some cid"
    "pending a1 = pending a" "outstanding a1 = outstanding a" "bufferSize a1 = bufferSize a"
proof -
  have "mem_inv a1 \<and> cid < length (chans a1) \<and> map_of (queues a1) q = Some cid \<and> pending a1 = pending a
        \<and> outstanding a1 = outstanding a \<and> bufferSize a1 = bufferSize a"
  proof (cases "map_of (queues a) q")
    case None
    then have new: "q \<notin> fst ` set (queues a)" by (simp add: map_of_eq_None_iff)
    from assms(2) None have a1: "a1 = make_queue q a" "cid = length (chans a)"
      by (auto simp: ensure_queue_def)
    have "length (chans a) \<notin> snd ` set (queues a)" using assms(1) by (force simp: mem_inv_def)
    moreover have "mem_inv a1"
      using assms(1) new calculation
      by (auto simp: a1 mem_inv_def snd_update_new less_Suc_eq intro: order_less_imp_le)
    moreover have "pending a1 = pending a"
      using assms(1) None mem_inv_queue [OF assms(1)]
      by (auto simp: a1 pending_def fun_eq_iff nth_append split: option.splits)
    ultimately show ?thesis by (simp add: a1)
  next
    case (Some cid')
    with assms show ?thesis by (auto simp: ensure_queue_def mem_inv_queue)
  qed
  then show "mem_inv a1" "cid < length (chans a1)" "map_of (queues a1) q = Some cid"
    "pending a1 = pending a" "outstanding a1 = outstanding a" "bufferSize a1 = bufferSize a" by auto
qed

section \<open>The contract of the interface\<close>

lemma Publish_live:
  assumes "ms \<noteq> []" and "ensure_queue q a = (cid, a1)"
  shows "Publish None q ms a =
    (if int (length ms) > chan_cap cid a1 - chan_len cid a1
     then (Some (Msg (''queue '' @ q @ '' is full'')), a1)
     else (None, fold (chan_send cid) ms a1))"
  using assms by (cases ms) (simp_all add: Publish_def del: fold.simps)

lemma Publish_cases:
  assumes "mem_inv a" and "Publish c q ms a = (ret, a')"
  shows "mem_inv a' \<and> outstanding a' = outstanding a \<and>
    (ret = None \<and> pending a' = (pending a)(q := pending a q @ ms) \<or> ret \<noteq> None \<and> pending a' = pending a)"
proof (cases "ms = [] \<or> c \<noteq> None")
  case True
  with assms show ?thesis by (auto simp: Publish_def split: list.splits option.splits)
next
  case False
  obtain cid a1 where e: "ensure_queue q a = (cid, a1)" by fastforce
  note a1 = ensure_queue_props [OF assms(1) e]
  show ?thesis
  proof (cases "int (length ms) > chan_cap cid a1 - chan_len cid a1")
    case True
    with assms(2) False a1 show ?thesis by (auto simp: Publish_live [OF _ e])
  next
    case room: False
    let ?b = "ch_buf (chans a1 ! cid) @ map (\<lambda>m. \<lparr>mwr_message = m, mwr_receipt = None\<rparr>) ms"
    from assms(2) False e room have ret: "ret = None" and a': "a' = set_buf cid ?b a1"
      by (auto simp: Publish_live [OF _ e] fold_chan_send [OF a1(2)])
    have "mem_inv a'" unfolding a' using a1(1,2) room
      by (intro mem_inv_set_buf) (auto simp: chan_cap_def chan_len_def)
    moreover have "pending a' = (pending a)(q := pending a q @ ms)"
      using pending_set_buf_owned [OF a1(1,3), of ?b] pending_queue [OF a1(3)]
      by (simp add: a' a1(4) comp_def)
    ultimately show ?thesis using ret a1(5) by (simp add: a')
  qed
qed

lemma outstanding_settle:
  assumes "r < length (receipts a)" and "acked rc \<or> nacked rc"
  shows "outstanding (a\<lparr>receipts := (receipts a)[r := rc]\<rparr>) = (outstanding a)(r := None)"
  using assms by (auto simp: outstanding_def fun_eq_iff nth_list_update)

lemma outstanding_None_iff:
  "outstanding a r = None \<longleftrightarrow> r < length (receipts a) \<longrightarrow> acked (receipts a ! r) \<or> nacked (receipts a ! r)"
  by (simp add: outstanding_def)

lemma Ack_settled:
  "outstanding a r = None \<Longrightarrow> \<exists>e. Ack r c a = (Some e, a)"
  by (auto simp: outstanding_None_iff Ack_def Let_def)

lemma Nack_settled:
  "outstanding a r = None \<Longrightarrow> \<exists>e. Nack r c a = (Some e, a)"
  by (auto simp: outstanding_None_iff Nack_def Let_def)

lemma Ack_open:
  "outstanding a r = Some m \<Longrightarrow>
   Ack r c a = (None, a\<lparr>receipts := (receipts a)[r := (receipts a ! r)\<lparr>acked := True\<rparr>]\<rparr>) \<and> r < length (receipts a)"
  by (auto simp: outstanding_def Ack_def Let_def split: if_splits)

lemma Ack_cases:
  assumes "mem_inv a" and "outstanding a r = Some m" and "Ack r c a = (ret, a')"
  shows "mem_inv a' \<and> ret = None \<and> pending a' = pending a \<and> outstanding a' = (outstanding a)(r := None)"
  using Ack_open [OF assms(2), of c] assms(1,3) by (auto simp: outstanding_settle mem_inv_update_receipts)

lemma requeueF_props:
  assumes "mem_inv a" and "cid < length (chans a)"
  shows "mem_inv (requeueF cid m a) \<and> outstanding (requeueF cid m a) = outstanding a \<and>
    (pending (requeueF cid m a) = pending a \<or>
     (\<exists>q. pending (requeueF cid m a) = (pending a)(q := pending a q @ [m])))"
proof (cases "chan_len cid a < chan_cap cid a")
  case True
  let ?b = "ch_buf (chans a ! cid) @ [\<lparr>mwr_message = m, mwr_receipt = None\<rparr>]"
  have eq: "requeueF cid m a = set_buf cid ?b a" using True by (simp add: requeueF_def chan_send_def)
  have "mem_inv (set_buf cid ?b a)"
    using assms True by (intro mem_inv_set_buf) (auto simp: chan_len_def chan_cap_def)
  moreover have "pending (set_buf cid ?b a) = pending a \<or>
     (\<exists>q. pending (set_buf cid ?b a) = (pending a)(q := pending a q @ [m]))"
  proof (cases "\<exists>q. map_of (queues a) q = Some cid")
    case True
    then obtain q where q: "map_of (queues a) q = Some cid" by blast
    then have "pending (set_buf cid ?b a) = (pending a)(q := pending a q @ [m])"
      by (simp add: pending_set_buf_owned [OF assms(1)] pending_queue)
    then show ?thesis by blast
  next
    case False
    with assms show ?thesis by (simp add: fun_eq_iff pending_set_buf)
  qed
  ultimately show ?thesis by (simp add: eq)
next
  case False
  with assms(1) show ?thesis by (simp add: requeueF_def)
qed

lemma Nack_open:
  assumes "outstanding a r = Some m"
  shows "Nack r c a =
      (None, let a1 = a\<lparr>receipts := (receipts a)[r := (receipts a ! r)\<lparr>nacked := True\<rparr>]\<rparr> in
             case requeue_chan (receipts a ! r) of None \<Rightarrow> a1 | Some cid \<Rightarrow> requeueF cid m a1)"
    and "r < length (receipts a)"
  using assms by (auto simp: outstanding_def Nack_def Let_def split: if_splits)

lemma Nack_cases:
  assumes "mem_inv a" and "outstanding a r = Some m" and "Nack r c a = (ret, a')"
  shows "mem_inv a' \<and> ret = None \<and> outstanding a' = (outstanding a)(r := None) \<and>
    (pending a' = pending a \<or> (\<exists>q. pending a' = (pending a)(q := pending a q @ [m])))"
proof -
  let ?a1 = "a\<lparr>receipts := (receipts a)[r := (receipts a ! r)\<lparr>nacked := True\<rparr>]\<rparr>"
  note r = Nack_open(2) [OF assms(2)]
  have inv: "mem_inv ?a1" by (rule mem_inv_update_receipts [OF assms(1) r]) simp
  have out: "outstanding ?a1 = (outstanding a)(r := None)" by (rule outstanding_settle [OF r]) simp
  show ?thesis
  proof (cases "requeue_chan (receipts a ! r)")
    case None
    with Nack_open(1) [OF assms(2), of c] assms(3) inv out show ?thesis by simp
  next
    case (Some cid)
    moreover have "receipts a ! r \<in> set (receipts a)" using r by simp
    ultimately have "cid < length (chans ?a1)" using assms(1) by (auto simp: mem_inv_def)
    note requeueF_props [OF inv this, of m]
    with Some Nack_open(1) [OF assms(2), of c] assms(3) out show ?thesis by simp
  qed
qed

lemma Ack_inv:
  assumes "mem_inv a" and "Ack r c a = (ret, a')"
  shows "mem_inv a'"
proof (cases "outstanding a r")
  case None
  from Ack_settled [OF this, of c] assms show ?thesis by auto
next
  case (Some m)
  from Ack_cases [OF assms(1) this assms(2)] show ?thesis by blast
qed

lemma Nack_inv:
  assumes "mem_inv a" and "Nack r c a = (ret, a')"
  shows "mem_inv a'"
proof (cases "outstanding a r")
  case None
  from Nack_settled [OF this, of c] assms show ?thesis by auto
next
  case (Some m)
  from Nack_cases [OF assms(1) this assms(2)] show ?thesis by blast
qed

lemma receive_props:
  assumes "mem_inv a" and "map_of (queues a) q = Some cid" and "0 < chan_len cid a"
    and "receive cid a = (it, a')"
  shows "mem_inv a'" "queues a' = queues a" "Receipt it = length (receipts a)"
    "length (receipts a') = Suc (length (receipts a))"
    "pending a = (pending a')(q := Message it # pending a' q)"
    "outstanding a' = (outstanding a)(Receipt it \<mapsto> Message it)"
proof -
  let ?m = "mwr_message (hd (ch_buf (chans a ! cid)))"
  let ?s = "set_buf cid (tl (ch_buf (chans a ! cid))) a"
  have it: "it = \<lparr>Message = ?m, Receipt = length (receipts a)\<rparr>"
    and a': "a' = ?s\<lparr>receipts := receipts a @ [\<lparr>mr_msg = ?m, acked = False, nacked = False, requeue_chan = Some cid\<rparr>]\<rparr>"
    using assms(4) by (auto simp: receive_def Let_def)
  note cid = mem_inv_queue [OF assms(1,2)]
  have "chans a ! cid \<in> set (chans a)" using cid by simp
  then have "ch_cap (chans a ! cid) = bufferSize a" "int (length (ch_buf (chans a ! cid))) \<le> bufferSize a"
    using assms(1) by (auto simp: mem_inv_def)
  then have "int (length (tl (ch_buf (chans a ! cid)))) \<le> ch_cap (chans a ! cid)" by simp
  then have "mem_inv ?s" by (rule mem_inv_set_buf [OF assms(1) cid])
  then show "mem_inv a'" using cid by (auto simp: a' mem_inv_def)
  show "queues a' = queues a" "Receipt it = length (receipts a)" "length (receipts a') = Suc (length (receipts a))"
    by (simp_all add: a' it)
  have "ch_buf (chans a ! cid) \<noteq> []" using assms(3) by (simp add: chan_len_def)
  then have "map mwr_message (ch_buf (chans a ! cid)) = ?m # map mwr_message (tl (ch_buf (chans a ! cid)))"
    by (metis list.collapse list.simps(9))
  then show "pending a = (pending a')(q := Message it # pending a' q)"
    using pending_queue [OF assms(2)]
    by (auto simp: a' it pending_set_buf_owned [OF assms(1,2)] fun_eq_iff)
  show "outstanding a' = (outstanding a)(Receipt it \<mapsto> Message it)"
    by (auto simp: a' it outstanding_def fun_eq_iff nth_append)
qed

lemma consume_step_cases [consumes 1, case_names stopped empty received]:
  assumes "consume_loop oracle cid i (Suc n) items a = (res, a')"
  obtains e b where "oracle i = (Some e, b)" "res = Inl e" "a' = a"
  | "chan_len cid a = 0" "res = Inr (Some \<lparr>Items = items\<rparr>)" "a' = a"
  | it a1 where "0 < chan_len cid a" "receive cid a = (it, a1)"
      "consume_loop oracle cid (Suc i) n (items @ [it]) a1 = (res, a')"
proof -
  obtain c b where o: "oracle i = (c, b)" by fastforce
  obtain it a1 where r: "receive cid a = (it, a1)" by fastforce
  show thesis
  proof (cases "chan_len cid a > 0")
    case False
    then have "chan_len cid a = 0" by (simp add: chan_len_def)
    show thesis
    proof (cases c)
      case None
      with assms o False have "res = Inr (Some \<lparr>Items = items\<rparr>)" "a' = a" by simp_all
      with \<open>chan_len cid a = 0\<close> show thesis by (rule that(2))
    next
      case (Some e)
      with assms o False have "oracle i = (Some e, b)" "res = Inl e" "a' = a" by simp_all
      then show thesis by (rule that(1))
    qed
  next
    case True
    show thesis
    proof (cases "c \<noteq> None \<and> b")
      case True
      then obtain e where "c = Some e" b by blast
      with assms o \<open>chan_len cid a > 0\<close> have "oracle i = (Some e, b)" "res = Inl e" "a' = a" by simp_all
      then show thesis by (rule that(1))
    next
      case False
      with assms o r True have "consume_loop oracle cid (Suc i) n (items @ [it]) a1 = (res, a')"
        by (cases c; cases b) simp_all
      with True r show thesis by (rule that(3))
    qed
  qed
qed

lemma consume_loop_props:
  assumes "mem_inv a" and "map_of (queues a) q = Some cid"
    and "consume_loop oracle cid i n items a = (res, a')"
  shows "mem_inv a' \<and> (\<exists>new. pending a = (pending a')(q := map Message new @ pending a' q) \<and> length new \<le> n \<and>
    map Receipt new = [length (receipts a) ..< length (receipts a) + length new] \<and>
    outstanding a' = outstanding a ++ map_of (map (\<lambda>it. (Receipt it, Message it)) new) \<and>
    (res = Inr (Some \<lparr>Items = items @ new\<rparr>) \<or> (\<exists>e i. res = Inl e \<and> fst (oracle i) = Some e)))"
  using assms
proof (induction n arbitrary: i items a)
  case 0
  then show ?case by auto
next
  case (Suc n)
  from Suc.prems(3) show ?case
  proof (cases rule: consume_step_cases)
    case (stopped e b)
    then have "\<exists>e i. res = Inl e \<and> fst (oracle i) = Some e" by (metis fst_conv)
    with stopped(3) Suc.prems(1) show ?thesis by (intro conjI exI [of _ "[]"]) auto
  next
    case empty
    with Suc.prems(1) show ?thesis by (intro conjI exI [of _ "[]"]) auto
  next
    case (received it a1)
    note rp = receive_props [OF Suc.prems(1,2) received(1,2)]
    have "map_of (queues a1) q = Some cid" using rp(2) Suc.prems(2) by simp
    from Suc.IH [OF rp(1) this received(3)] obtain new where inv: "mem_inv a'" and
      new: "pending a1 = (pending a')(q := map Message new @ pending a' q)" "length new \<le> n"
        "map Receipt new = [length (receipts a1) ..< length (receipts a1) + length new]"
        "outstanding a' = outstanding a1 ++ map_of (map (\<lambda>it. (Receipt it, Message it)) new)"
        "res = Inr (Some \<lparr>Items = (items @ [it]) @ new\<rparr>) \<or> (\<exists>e i. res = Inl e \<and> fst (oracle i) = Some e)"
      by (elim conjE exE) (rule that)
    have "Receipt it \<notin> set (map Receipt new)" by (simp only: new(3)) (auto simp: rp(3,4))
    then have fresh: "Receipt it \<notin> dom (map_of (map (\<lambda>it. (Receipt it, Message it)) new))"
      by (auto simp: dom_map_of_conv_image_fst)
    have "pending a = (pending a')(q := map Message (it # new) @ pending a' q)"
      using rp(5) new(1) by simp
    moreover have "map Receipt (it # new) = [length (receipts a) ..< length (receipts a) + length (it # new)]"
      using new(3) rp(3,4) by (simp add: upt_conv_Cons del: upt_Suc)
    moreover have "outstanding a' = outstanding a ++ map_of (map (\<lambda>it. (Receipt it, Message it)) (it # new))"
      using new(4) rp(6) fresh by (simp add: map_add_upd_left)
    moreover have "res = Inr (Some \<lparr>Items = items @ it # new\<rparr>) \<or> (\<exists>e i. res = Inl e \<and> fst (oracle i) = Some e)"
      using new(5) by simp
    ultimately show ?thesis using inv new(2)
      by (intro conjI exI [of _ "it # new"]) (assumption | simp)+
  qed
qed

lemma Consume_props:
  assumes "mem_inv a" and "Consume oracle q n a = (res, a')"
  shows "mem_inv a' \<and> (\<exists>new. pending a = (pending a')(q := map Message new @ pending a' q) \<and>
    int (length new) \<le> max 0 n \<and> distinct (map Receipt new) \<and> (\<forall>it \<in> set new. outstanding a (Receipt it) = None) \<and>
    outstanding a' = outstanding a ++ map_of (map (\<lambda>it. (Receipt it, Message it)) new) \<and>
    (res = Inr (Some \<lparr>Items = new\<rparr>) \<or> (\<exists>e. res = Inl e)))"
proof -
  obtain cid a1 where e: "ensure_queue q a = (cid, a1)" by fastforce
  note a1 = ensure_queue_props [OF assms(1) e]
  show ?thesis
  proof (cases "n < 0")
    case True
    with assms(2) e a1 show ?thesis by (intro conjI exI [of _ "[]"]) (auto simp: Consume_def)
  next
    case False
    with assms(2) e have "consume_loop oracle cid 0 (nat n) [] a1 = (res, a')" by (simp add: Consume_def)
    from consume_loop_props [OF a1(1,3) this] obtain new where
      new: "mem_inv a'" "pending a1 = (pending a')(q := map Message new @ pending a' q)" "length new \<le> nat n"
        "map Receipt new = [length (receipts a1) ..< length (receipts a1) + length new]"
        "outstanding a' = outstanding a1 ++ map_of (map (\<lambda>it. (Receipt it, Message it)) new)"
        "res = Inr (Some \<lparr>Items = new\<rparr>) \<or> (\<exists>e. res = Inl e)" by auto
    have "outstanding a (Receipt it) = None" if "it \<in> set new" for it
    proof -
      from that new(4) have "Receipt it \<in> set [length (receipts a1) ..< length (receipts a1) + length new]"
        by (metis image_eqI list.set_map)
      then have "outstanding a1 (Receipt it) = None" by (simp add: outstanding_def)
      then show ?thesis by (simp add: a1(5))
    qed
    moreover have "distinct (map Receipt new)" by (simp only: new(4) distinct_upt)
    ultimately show ?thesis using new False
      by (intro conjI exI [of _ new]) (auto simp: a1(4,5) nat_le_iff)
  qed
qed

lemma Consume_keeps:
  assumes "mem_inv a" and "Consume oracle q n (a :: 'm MemAdapter) = (res, a')"
  shows "(\<exists>lost. pending a = (pending a')(q := lost @ pending a' q)) \<and> outstanding a \<subseteq>\<^sub>m outstanding a'"
proof -
  from Consume_props [OF assms] obtain new :: "('m, nat) MessageItem list" where
    new: "pending a = (pending a')(q := map Message new @ pending a' q)" "\<forall>it \<in> set new. outstanding a (Receipt it) = None"
      "outstanding a' = outstanding a ++ map_of (map (\<lambda>it. (Receipt it, Message it)) new)" by blast
  from new(2) have "dom (outstanding a) \<inter> dom (map_of (map (\<lambda>it. (Receipt it, Message it)) new)) = {}"
    by (auto simp: dom_map_of_conv_image_fst)
  then have "outstanding a' = map_of (map (\<lambda>it. (Receipt it, Message it)) new) ++ outstanding a"
    unfolding new(3) by (rule map_add_comm)
  then show ?thesis using new(1) by (metis map_le_map_add)
qed

interpretation mem: queue_adapter Publish pending mem_inv Consume Ack Nack outstanding
proof (unfold_locales, goal_cases)
  case (1 a c q ms ret a')
  then show ?case using Publish_cases by blast
next
  case (2 a c q ms a')
  then show ?case using Publish_cases by blast
next
  case (3 a c q ms e a')
  then show ?case using Publish_cases by blast
next
  case (4 a c q ms ret a')
  then show ?case using Publish_cases by blast
next
  case (5 a orc q n res a')
  then show ?case using Consume_props by blast
next
  case (6 a orc q n cr a')
  from Consume_props [OF this] show ?case by auto
next
  case (7 a orc q n e a')
  then show ?case by (rule Consume_keeps)
next
  case (8 a r c ret a')
  then show ?case by (rule Ack_inv)
next
  case (9 a r m c ret a')
  from Ack_cases [OF this] show ?case by simp
next
  case (10 a r c ret a')
  then show ?case using Ack_settled [of a r c] by auto
next
  case (11 a r c ret a')
  then show ?case by (rule Nack_inv)
next
  case (12 a r m c ret a')
  from Nack_cases [OF this] show ?case by simp
next
  case (13 a r c ret a')
  then show ?case using Nack_settled [of a r c] by auto
qed

interpretation mem_messages: message_publisher Publish pending mem_inv
  by unfold_locales

section \<open>How far a consume call gets\<close>

lemma chan_len_pending: "map_of (queues a) q = Some cid \<Longrightarrow> chan_len cid a = int (length (pending a q))"
  by (simp add: chan_len_def pending_queue)

lemma consume_loop_take:
  assumes "mem_inv a" and "map_of (queues a) q = Some cid" and "k \<le> n" and "k \<le> length (pending a q)"
    and "\<forall>j<k. fst (oracle (i + j)) = None"
  shows "\<exists>new a1. consume_loop oracle cid i n items a = consume_loop oracle cid (i + k) (n - k) (items @ new) a1 \<and>
    map Message new = take k (pending a q) \<and> pending a1 = (pending a)(q := drop k (pending a q)) \<and>
    mem_inv a1 \<and> map_of (queues a1) q = Some cid"
  using assms
proof (induction k arbitrary: i n items a)
  case 0
  then show ?case by (intro exI [of _ "[]"] exI [of _ a]) auto
next
  case (Suc k)
  obtain n' where n: "n = Suc n'" using Suc.prems(3) by (cases n) auto
  have len: "0 < chan_len cid a" using Suc.prems(2,4) by (auto simp: chan_len_pending)
  obtain it a1 where r: "receive cid a = (it, a1)" by fastforce
  note rp = receive_props [OF Suc.prems(1,2) len r]
  have "fst (oracle i) = None" using Suc.prems(5) [rule_format, of 0] by simp
  then have step: "consume_loop oracle cid i n items a = consume_loop oracle cid (Suc i) n' (items @ [it]) a1"
    using len r by (cases "oracle i") (simp add: n)
  have p: "pending a q = Message it # pending a1 q" "\<And>q'. q' \<noteq> q \<Longrightarrow> pending a1 q' = pending a q'"
    using rp(5) by (metis fun_upd_same, metis fun_upd_other)
  have "\<exists>new a2. consume_loop oracle cid (Suc i) n' (items @ [it]) a1 =
      consume_loop oracle cid (Suc i + k) (n' - k) ((items @ [it]) @ new) a2 \<and>
    map Message new = take k (pending a1 q) \<and> pending a2 = (pending a1)(q := drop k (pending a1 q)) \<and>
    mem_inv a2 \<and> map_of (queues a2) q = Some cid"
    using Suc.prems(3,4) p(1) Suc.prems(5) rp(1,2) Suc.prems(2) by (intro Suc.IH) (auto simp: n)
  then obtain new a2 where "consume_loop oracle cid (Suc i) n' (items @ [it]) a1 =
      consume_loop oracle cid (Suc i + k) (n' - k) ((items @ [it]) @ new) a2"
    "map Message new = take k (pending a1 q)" "pending a2 = (pending a1)(q := drop k (pending a1 q))"
    "mem_inv a2" "map_of (queues a2) q = Some cid" by blast
  then show ?case using step p by (intro exI [of _ "it # new"] exI [of _ a2]) (auto simp: n fun_eq_iff)
qed

lemma Consume_live:
  assumes "mem_inv a" and "0 \<le> n" and "\<forall>i. fst (oracle i) = None"
  shows "\<exists>cr a'. Consume oracle q n a = (Inr (Some cr), a') \<and>
    map Message (Items cr) = take (nat n) (pending a q) \<and> pending a' = (pending a)(q := drop (nat n) (pending a q))"
proof -
  obtain cid a1 where e: "ensure_queue q a = (cid, a1)" by fastforce
  note a1 = ensure_queue_props [OF assms(1) e]
  define k where "k = min (nat n) (length (pending a1 q))"
  then have k: "k \<le> nat n" "k \<le> length (pending a1 q)" by simp_all
  obtain new a2 where s: "consume_loop oracle cid 0 (nat n) [] a1 = consume_loop oracle cid k (nat n - k) new a2"
    "map Message new = take k (pending a1 q)" "pending a2 = (pending a1)(q := drop k (pending a1 q))"
    "map_of (queues a2) q = Some cid"
    using consume_loop_take [OF a1(1,3) k, of "oracle" 0 "[]"] assms(3) by auto
  have "consume_loop oracle cid k (nat n - k) new a2 = (Inr (Some \<lparr>Items = new\<rparr>), a2)"
  proof (cases "nat n - k")
    case (Suc m)
    then have "k = length (pending a1 q)" by (simp add: k_def)
    then have "chan_len cid a2 = 0" using s(3,4) by (simp add: chan_len_pending)
    moreover obtain b where "oracle k = (None, b)" using assms(3) by (metis prod.collapse)
    ultimately show ?thesis using Suc by simp
  qed simp
  then have "Consume oracle q n a = (Inr (Some \<lparr>Items = new\<rparr>), a2)"
    using assms(2) e s(1) by (simp add: Consume_def)
  moreover have "take k (pending a1 q) = take (nat n) (pending a1 q)" "drop k (pending a1 q) = drop (nat n) (pending a1 q)"
    by (auto simp: k_def min_def)
  ultimately show ?thesis using s(2,3) a1(4) by simp
qed

section \<open>Emptying the queues\<close>

lemma distinct_snd_update:
  "distinct (map snd al) \<Longrightarrow> v \<notin> snd ` set al \<Longrightarrow> distinct (map snd (AList.update k v al))"
proof (induction al)
  case (Cons kv al)
  have "snd ` set (AList.update k v al) \<subseteq> insert v (snd ` set al)"
    using set_update_subset [of k v al] by force
  with Cons show ?case by (cases kv) auto
qed simp

lemma mem_inv_make_queue: "mem_inv a \<Longrightarrow> mem_inv (make_queue q a)"
proof -
  assume inv: "mem_inv a"
  then have "length (chans a) \<notin> snd ` set (queues a)" by (force simp: mem_inv_def)
  then have "distinct (map snd (AList.update q (length (chans a)) (queues a)))"
    using inv by (intro distinct_snd_update) (auto simp: mem_inv_def)
  moreover have "\<forall>(q', cid) \<in> set (AList.update q (length (chans a)) (queues a)). cid < Suc (length (chans a))"
    using inv set_update_subset [of q "length (chans a)" "queues a"] by (fastforce simp: mem_inv_def)
  ultimately show ?thesis using inv by (auto simp: mem_inv_def less_Suc_eq)
qed

lemma clear_queue_props:
  assumes "mem_inv a" and "map_of (queues a) q = Some cid"
  shows "mem_inv (clear_queue (q, cid) a)" "pending (clear_queue (q, cid) a) = (pending a)(q := [])"
    "receipts (clear_queue (q, cid) a) = receipts a"
    "map_of (queues (clear_queue (q, cid) a)) = (map_of (queues a))(q \<mapsto> length (chans a))"
    "length (chans (clear_queue (q, cid) a)) = Suc (length (chans a))"
proof -
  note cid = mem_inv_queue [OF assms]
  let ?s = "set_buf cid [] a"
  have "0 \<le> ch_cap (chans a ! cid)" using assms(1) cid by (auto simp: mem_inv_def)
  then have inv: "mem_inv ?s" using assms(1) cid by (intro mem_inv_set_buf) auto
  then show "mem_inv (clear_queue (q, cid) a)" by (simp add: clear_queue_def mem_inv_make_queue)
  show "receipts (clear_queue (q, cid) a) = receipts a"
    "map_of (queues (clear_queue (q, cid) a)) = (map_of (queues a))(q \<mapsto> length (chans a))"
    "length (chans (clear_queue (q, cid) a)) = Suc (length (chans a))"
    by (simp_all add: clear_queue_def)
  have "pending (make_queue q ?s) q' = ((pending ?s)(q := [])) q'" for q'
    using mem_inv_queue [OF inv, of q'] by (auto simp: pending_def nth_append split: option.splits)
  then show "pending (clear_queue (q, cid) a) = (pending a)(q := [])"
    using pending_set_buf_owned [OF assms, of "[]"] by (auto simp: clear_queue_def fun_eq_iff)
qed

lemma clear_queues_props:
  assumes "mem_inv a" and "distinct (map fst qs)" and "\<forall>(q, cid) \<in> set qs. map_of (queues a) q = Some cid"
  shows "mem_inv (fold clear_queue qs a) \<and> receipts (fold clear_queue qs a) = receipts a \<and>
    length (chans a) \<le> length (chans (fold clear_queue qs a)) \<and>
    (\<forall>q. pending (fold clear_queue qs a) q = (if q \<in> fst ` set qs then [] else pending a q)) \<and>
    (\<forall>q cid. map_of (queues (fold clear_queue qs a)) q = Some cid \<longrightarrow>
       length (chans a) \<le> cid \<or> q \<notin> fst ` set qs \<and> map_of (queues a) q = Some cid)"
  using assms
proof (induction qs arbitrary: a)
  case Nil
  then show ?case by simp
next
  case (Cons x qs)
  obtain q cid where x: "x = (q, cid)" by fastforce
  with Cons.prems have own: "map_of (queues a) q = Some cid" and nq: "q \<notin> fst ` set qs" by auto
  let ?b = "clear_queue (q, cid) a"
  note cp = clear_queue_props [OF Cons.prems(1) own]
  have "\<forall>(q', cid') \<in> set qs. map_of (queues ?b) q' = Some cid'"
    using Cons.prems(3) nq by (force simp: cp(4))
  note IH = Cons.IH [OF cp(1) _ this]
  have "distinct (map fst qs)" using Cons.prems(2) by simp
  note IH = IH [OF this]
  have "length (chans a) \<le> cid' \<or> q' \<notin> fst ` set (x # qs) \<and> map_of (queues a) q' = Some cid'"
    if "map_of (queues (fold clear_queue qs ?b)) q' = Some cid'" for q' cid'
  proof -
    from IH that have "length (chans ?b) \<le> cid' \<or> q' \<notin> fst ` set qs \<and> map_of (queues ?b) q' = Some cid'"
      by blast
    then show ?thesis by (auto simp: cp(4,5) x split: if_splits)
  qed
  moreover have "pending (fold clear_queue qs ?b) q' = (if q' \<in> fst ` set (x # qs) then [] else pending a q')" for q'
    using IH x by (auto simp: cp(2))
  ultimately show ?case using IH by (simp add: x cp(3,5))
qed

lemma Clear_props:
  assumes "mem_inv a"
  shows "mem_inv (Clear a)" "pending (Clear a) = (\<lambda>_. [])" "receipts (Clear a) = receipts a"
    "map_of (queues (Clear a)) q = Some cid \<Longrightarrow> length (chans a) \<le> cid"
proof -
  have "\<forall>(q, cid) \<in> set (queues a). map_of (queues a) q = Some cid" "distinct (map fst (queues a))"
    using assms by (auto simp: mem_inv_def)
  note cp = clear_queues_props [OF assms this(2,1)]
  then show "mem_inv (Clear a)" "receipts (Clear a) = receipts a" by (simp_all add: Clear_def)
  have out: "pending a q = []" "map_of (queues a) q = None" if "q \<notin> fst ` set (queues a)" for q
  proof -
    show "map_of (queues a) q = None" using that by (simp add: map_of_eq_None_iff)
    then show "pending a q = []" by (simp add: pending_def)
  qed
  then show "pending (Clear a) = (\<lambda>_. [])" using cp by (auto simp: Clear_def fun_eq_iff)
  show "map_of (queues (Clear a)) q = Some cid \<Longrightarrow> length (chans a) \<le> cid"
    using cp out(2) [of q] unfolding Clear_def by (metis option.distinct(1))
qed

lemma consume_loop_not_nil: "fst (consume_loop orc cid i n items a) \<noteq> Inr None"
  by (induction n arbitrary: i items a) (auto split: option.splits bool.splits prod.splits)

section \<open>Receipts handed out by a consume call\<close>

lemma consume_loop_receipts:
  assumes "consume_loop oracle cid i n items a = (Inr (Some cr), a')"
  shows "queues a' = queues a \<and> bufferSize a' = bufferSize a \<and>
    (\<exists>new. Items cr = items @ new \<and>
       receipts a' = receipts a @
         map (\<lambda>it. \<lparr>mr_msg = Message it, acked = False, nacked = False, requeue_chan = Some cid\<rparr>) new \<and>
       map Receipt new = [length (receipts a) ..< length (receipts a) + length new])"
  using assms
proof (induction n arbitrary: i items a)
  case 0
  then show ?case by auto
next
  case (Suc n)
  from Suc.prems show ?case
  proof (cases rule: consume_step_cases)
    case (received it a1)
    from received(2) have a1: "queues a1 = queues a" "bufferSize a1 = bufferSize a" "Receipt it = length (receipts a)"
      "receipts a1 = receipts a @ [\<lparr>mr_msg = Message it, acked = False, nacked = False, requeue_chan = Some cid\<rparr>]"
      by (auto simp: receive_def Let_def)
    from Suc.IH [OF received(3)] obtain new where new: "Items cr = (items @ [it]) @ new"
      "receipts a' = receipts a1 @ map (\<lambda>it. \<lparr>mr_msg = Message it, acked = False, nacked = False, requeue_chan = Some cid\<rparr>) new"
      "map Receipt new = [length (receipts a1) ..< length (receipts a1) + length new]"
      "queues a' = queues a1" "bufferSize a' = bufferSize a1" by blast
    have "map Receipt (it # new) = [length (receipts a) ..< length (receipts a) + length (it # new)]"
      using new(3) a1(3,4) by (simp add: upt_conv_Cons del: upt_Suc)
    with new a1 show ?thesis by (intro conjI exI [of _ "it # new"]) auto
  qed auto
qed

lemma Consume_receipt:
  assumes "mem_inv a" and "Consume oracle q n a = (Inr (Some cr), a')" and "it \<in> set (Items cr)"
  shows "outstanding a' (Receipt it) = Some (Message it)" "bufferSize a' = bufferSize a"
    "\<exists>cid. map_of (queues a') q = Some cid \<and> requeue_chan (receipts a' ! Receipt it) = Some cid"
proof -
  obtain cid a1 where e: "ensure_queue q a = (cid, a1)" by fastforce
  note a1 = ensure_queue_props [OF assms(1) e]
  from assms(2) e have "consume_loop oracle cid 0 (nat n) [] a1 = (Inr (Some cr), a')"
    by (auto simp: Consume_def split: if_splits)
  from consume_loop_receipts [OF this]
  have c: "queues a' = queues a1" "bufferSize a' = bufferSize a1"
    "receipts a' = receipts a1 @
       map (\<lambda>it. \<lparr>mr_msg = Message it, acked = False, nacked = False, requeue_chan = Some cid\<rparr>) (Items cr)"
    "map Receipt (Items cr) = [length (receipts a1) ..< length (receipts a1) + length (Items cr)]" by auto
  from assms(3) obtain j where j: "j < length (Items cr)" "Items cr ! j = it" by (metis in_set_conv_nth)
  have "map Receipt (Items cr) ! j = length (receipts a1) + j" using j(1) by (simp add: c(4))
  with j have "Receipt it = length (receipts a1) + j" by simp
  with c j have rc: "receipts a' ! Receipt it =
      \<lparr>mr_msg = Message it, acked = False, nacked = False, requeue_chan = Some cid\<rparr>"
    "Receipt it < length (receipts a')" by (simp_all add: nth_append)
  then show "outstanding a' (Receipt it) = Some (Message it)" by (simp add: outstanding_def)
  show "bufferSize a' = bufferSize a" using c(2) a1(6) by simp
  show "\<exists>cid. map_of (queues a') q = Some cid \<and> requeue_chan (receipts a' ! Receipt it) = Some cid"
    using rc(1) c(1) a1(3) by simp
qed

lemma mem_inv_depth:
  assumes "mem_inv a" shows "int (length (pending a q)) \<le> bufferSize a"
proof (cases "map_of (queues a) q")
  case None
  with assms show ?thesis by (simp add: pending_def mem_inv_def)
next
  case (Some cid)
  with mem_inv_queue [OF assms Some] have "chans a ! cid \<in> set (chans a)" by simp
  with assms Some show ?thesis by (auto simp: pending_def mem_inv_def)
qed

lemma chan_cap_queue: "mem_inv a \<Longrightarrow> cid < length (chans a) \<Longrightarrow> chan_cap cid a = bufferSize a"
  by (simp add: chan_cap_def mem_inv_def)

lemma Nack_effect:
  assumes "mem_inv a" and "outstanding a r = Some m"
    and "requeue_chan (receipts a ! r) = Some cid" and "map_of (queues a) q = Some cid"
  shows "\<exists>a'. Nack r c a = (None, a') \<and>
    pending a' = (if int (length (pending a q)) < bufferSize a then (pending a)(q := pending a q @ [m]) else pending a)"
proof -
  let ?a1 = "a\<lparr>receipts := (receipts a)[r := (receipts a ! r)\<lparr>nacked := True\<rparr>]\<rparr>"
  have inv: "mem_inv ?a1" by (rule mem_inv_update_receipts [OF assms(1) Nack_open(2) [OF assms(2)]]) simp
  have own: "map_of (queues ?a1) q = Some cid" using assms(4) by simp
  have "chan_cap cid ?a1 = bufferSize a" "chan_len cid ?a1 = int (length (pending a q))"
    using chan_cap_queue [OF inv mem_inv_queue [OF inv own]] chan_len_pending [OF own] by simp_all
  moreover have "Nack r c a = (None, requeueF cid m ?a1)"
    using Nack_open(1) [OF assms(2), of c] assms(3) by simp
  moreover have "pending (chan_send cid m ?a1) = (pending a)(q := pending a q @ [m])"
    using pending_set_buf_owned [OF inv own] pending_queue [OF own] by (simp add: chan_send_def)
  ultimately show ?thesis by (simp add: requeueF_def)
qed

lemma Publish_view:
  assumes "mem_inv a"
  shows "\<exists>a'. Publish c q ms a =
      ((if ms = [] then None else if c \<noteq> None then c
        else if int (length (pending a q)) + int (length ms) > bufferSize a
        then Some (Msg (''queue '' @ q @ '' is full'')) else None), a') \<and>
    pending a' =
      (if c = None \<and> int (length (pending a q)) + int (length ms) \<le> bufferSize a
       then (pending a)(q := pending a q @ ms) else pending a)"
proof (cases "ms = [] \<or> c \<noteq> None")
  case True
  then show ?thesis by (auto simp: Publish_def split: list.split option.split)
next
  case False
  obtain cid a1 where e: "ensure_queue q a = (cid, a1)" by fastforce
  note a1 = ensure_queue_props [OF assms e]
  obtain ret a' where p: "Publish c q ms a = (ret, a')" by fastforce
  have "chan_cap cid a1 = bufferSize a" "chan_len cid a1 = int (length (pending a q))"
    using chan_cap_queue [OF a1(1,2)] chan_len_pending [OF a1(3)] a1(4,6) by simp_all
  with False p have "ret = (if int (length (pending a q)) + int (length ms) > bufferSize a
      then Some (Msg (''queue '' @ q @ '' is full'')) else None)"
    by (auto simp: Publish_live [OF _ e])
  with Publish_cases [OF assms p] p False show ?thesis by (auto split: if_splits)
qed

lemma Publish_bufferSize:
  assumes "mem_inv a" and "Publish c q ms a = (ret, a')"
  shows "bufferSize a' = bufferSize a"
proof (cases "ms = [] \<or> c \<noteq> None")
  case True
  with assms(2) show ?thesis by (auto simp: Publish_def split: list.splits option.splits)
next
  case False
  obtain cid a1 where e: "ensure_queue q a = (cid, a1)" by fastforce
  note a1 = ensure_queue_props [OF assms(1) e]
  from assms(2) False a1(6) show ?thesis
    by (auto simp: Publish_live [OF _ e] fold_chan_send [OF a1(2)] split: if_splits)
qed

lemma pending_New: "pending (NewAdapter n) q = []"
  by (simp add: pending_def NewAdapter_def)

section \<open>Properties\<close>

text \<open>
  C3. Publishing and consuming with live contexts is FIFO and loses nothing: after a successful
  Publish, a Consume returns exactly the oldest messages of the queue, in order and at most the
  batch size, and leaves the rest; other queues are untouched.
\<close>

theorem publish_consume_fifo:
  assumes "mem_inv a" and "Publish None q ms a = (None, a1)" and "\<forall>i. fst (oracle i) = None" and "0 \<le> n"
  shows "\<exists>cr a2. Consume oracle q n a1 = (Inr (Some cr), a2) \<and>
    map Message (Items cr) = take (nat n) (pending a q @ ms) \<and>
    pending a2 = (pending a)(q := drop (nat n) (pending a q @ ms))"
proof -
  have inv: "mem_inv a1" using mem.publish_inv [OF assms(1,2)] .
  have p: "pending a1 = (pending a)(q := pending a q @ ms)" using mem.publish_ok [OF assms(1,2)] .
  from Consume_live [OF inv assms(4,3), of q] p show ?thesis by (metis fun_upd_same fun_upd_upd)
qed

text \<open>A queue \<open>jobs\<close> of a small adapter, with two messages published, for the witnesses.\<close>

definition two_jobs :: "nat MemAdapter" where
  "two_jobs = snd (Publish None ''jobs'' [10, 20] (NewAdapter 3))"

lemma mem_inv_two_jobs: "mem_inv two_jobs"
  using mem.publish_inv [OF mem_inv_New] unfolding two_jobs_def by (metis prod.collapse)

lemma two_jobs_eq:
  "two_jobs = \<lparr>queues = [(''jobs'', 0)], bufferSize = 3,
     chans = [\<lparr>ch_cap = 3, ch_buf = [\<lparr>mwr_message = 10, mwr_receipt = None\<rparr>, \<lparr>mwr_message = 20, mwr_receipt = None\<rparr>]\<rparr>],
     receipts = []\<rparr>"
  by (simp add: two_jobs_def Publish_def NewAdapter_def ensure_queue_def make_queue_def chan_cap_def
      chan_len_def chan_send_def set_buf_def)

theorem publish_consume_fifo_witness:
  "\<exists>cr a2. Consume (\<lambda>_. (None, False)) ''jobs'' 2 (snd (Publish None ''jobs'' [30] two_jobs)) = (Inr (Some cr), a2) \<and>
    map Message (Items cr) = [10, 20] \<and> pending a2 ''jobs'' = [30]"
proof -
  have "Publish None ''jobs'' [30] two_jobs = (None, snd (Publish None ''jobs'' [30] two_jobs))"
    by (simp add: two_jobs_eq Publish_def ensure_queue_def chan_cap_def chan_len_def)
  from publish_consume_fifo [OF mem_inv_two_jobs this, of "\<lambda>_. (None, False)" 2] show ?thesis
    by (auto simp: two_jobs_eq pending_def numeral_2_eq_2 fun_eq_iff)
qed

text \<open>
  C21. Outcome of Publish on every branch: nothing to send succeeds at once; a done context is
  reported; a batch that does not fit next to what the queue holds is refused as a whole; and
  otherwise every message is appended in order.  A refused batch adds no message anywhere.
\<close>

theorem Publish_outcome:
  assumes "mem_inv a"
  shows "\<exists>a'. Publish c q ms a =
      ((if ms = [] then None else if c \<noteq> None then c
        else if int (length (pending a q)) + int (length ms) > bufferSize a
        then Some (Msg (''queue '' @ q @ '' is full'')) else None), a') \<and>
    pending a' =
      (if c = None \<and> int (length (pending a q)) + int (length ms) \<le> bufferSize a
       then (pending a)(q := pending a q @ ms) else pending a)"
  using assms by (rule Publish_view)

theorem Publish_outcome_witness:
  "\<exists>a'. Publish None ''jobs'' [30, 40] two_jobs = (Some (Msg ''queue jobs is full''), a') \<and> pending a' = pending two_jobs"
  using Publish_outcome [OF mem_inv_two_jobs, of None "''jobs''" "[30, 40]"]
  by (simp add: two_jobs_eq pending_def)

text \<open>
  C22. A receipt is settled at most once: the first Ack or Nack of an open receipt succeeds, and
  an Ack or Nack of it after that is refused and changes nothing.
\<close>

theorem receipt_settled_once:
  assumes "mem_inv a" and "outstanding a r = Some m"
    and "Ack r c a = (ret, a') \<or> Nack r c a = (ret, a')"
  shows "ret = None \<and> fst (Ack r c' a') \<noteq> None \<and> fst (Nack r c' a') \<noteq> None \<and>
    snd (Ack r c' a') = a' \<and> snd (Nack r c' a') = a'"
  using assms by (rule mem.settled_once)

definition one_taken :: "nat MemAdapter" where
  "one_taken = snd (Consume (\<lambda>_. (None, False)) ''jobs'' 1 two_jobs)"

lemma one_taken_eq:
  "one_taken = \<lparr>queues = [(''jobs'', 0)], bufferSize = 3,
     chans = [\<lparr>ch_cap = 3, ch_buf = [\<lparr>mwr_message = 20, mwr_receipt = None\<rparr>]\<rparr>],
     receipts = [\<lparr>mr_msg = 10, acked = False, nacked = False, requeue_chan = Some 0\<rparr>]\<rparr>"
  by (simp add: one_taken_def two_jobs_eq Consume_def ensure_queue_def chan_len_def receive_def set_buf_def)

lemma mem_inv_one_taken: "mem_inv one_taken"
  by (simp add: one_taken_eq mem_inv_def)

theorem receipt_settled_once_witness:
  "fst (Ack 0 None one_taken) = None \<and> fst (Nack 0 None (snd (Ack 0 None one_taken))) \<noteq> None"
  using receipt_settled_once [OF mem_inv_one_taken, of 0 10 None None "snd (Ack 0 None one_taken)" None]
  by (simp add: one_taken_eq outstanding_def Ack_def)

text \<open>
  Rejecting right after consuming never loses the message: the batch freed at least one slot of
  the queue, so the Nack of any of its items puts that message at the back of the same queue.
\<close>

lemma consume_nack_requeues:
  assumes "mem_inv a" and "Consume oracle q n a = (Inr (Some cr), a')" and "it \<in> set (Items cr)"
  shows "\<exists>a''. Nack (Receipt it) c a' = (None, a'') \<and> pending a'' = (pending a')(q := pending a' q @ [Message it])"
proof -
  have inv: "mem_inv a'" using mem.consume_inv [OF assms(1,2)] .
  note rc = Consume_receipt [OF assms]
  from rc(3) obtain cid where cid: "map_of (queues a') q = Some cid" "requeue_chan (receipts a' ! Receipt it) = Some cid"
    by blast
  have "length (pending a' q) = length (pending a q) - length (Items cr)"
    using mem.consume_fifo [OF assms(1,2)] by simp
  moreover have "map Message (Items cr) = take (length (Items cr)) (pending a q)"
    using mem.consume_fifo [OF assms(1,2)] by blast
  then have "length (Items cr) \<le> length (pending a q)" by (metis length_map length_take min.cobounded1)
  moreover have "0 < length (Items cr)" using assms(3) by (cases "Items cr") auto
  moreover note mem_inv_depth [OF assms(1), of q]
  ultimately have "int (length (pending a' q)) < bufferSize a'" using rc(2) by linarith
  then show ?thesis using Nack_effect [OF inv rc(1) cid(2,1), of c] by simp
qed

text \<open>
  Clear empties every queue, and a message that was being processed when Clear ran does not come
  back: its Nack reports success but requeues into the channel Clear has replaced.
\<close>

lemma Clear_empties:
  assumes "mem_inv a"
  shows "pending (Clear a) = (\<lambda>_. []) \<and> outstanding (Clear a) = outstanding a \<and>
    (outstanding a r \<noteq> None \<longrightarrow>
       fst (Nack r c (Clear a)) = None \<and> pending (snd (Nack r c (Clear a))) = (\<lambda>_. []))"
proof -
  note cl = Clear_props [OF assms]
  have out: "outstanding (Clear a) = outstanding a" by (simp add: outstanding_def fun_eq_iff cl(3))
  have "fst (Nack r c (Clear a)) = None \<and> pending (snd (Nack r c (Clear a))) = (\<lambda>_. [])"
    if "outstanding a r = Some m" for m
  proof -
    let ?b = "Clear a"
    let ?b1 = "?b\<lparr>receipts := (receipts ?b)[r := (receipts ?b ! r)\<lparr>nacked := True\<rparr>]\<rparr>"
    from that out have o: "outstanding ?b r = Some m" by simp
    have inv: "mem_inv ?b1" by (rule mem_inv_update_receipts [OF cl(1) Nack_open(2) [OF o]]) simp
    have "pending (requeueF cid m ?b1) = (\<lambda>_. [])" if rq: "requeue_chan (receipts ?b ! r) = Some cid" for cid
    proof -
      have "receipts a ! r \<in> set (receipts a)" using Nack_open(2) [OF \<open>outstanding a r = Some m\<close>] by simp
      then have "cid < length (chans a)" using assms rq cl(3) by (auto simp: mem_inv_def)
      then have "map_of (queues ?b1) q \<noteq> Some cid" for q using cl(4) [of q cid] by auto
      moreover have "cid < length (chans ?b1)"
        using cl(1) rq Nack_open(2) [OF o] by (auto simp: mem_inv_def dest: nth_mem)
      ultimately have "pending (set_buf cid b ?b1) = pending ?b1" for b
        by (simp add: fun_eq_iff pending_set_buf [OF inv])
      then show ?thesis using cl(2) by (simp add: requeueF_def chan_send_def)
    qed
    then show ?thesis using Nack_open(1) [OF o, of c] cl(2) by (simp add: Let_def split: option.split)
  qed
  with cl(2) out show ?thesis by blast
qed

text \<open>
  A context that ends while a batch is being collected costs the messages collected so far: when
  the select of Consume picks the done context at its turn k, the call returns the context's
  error and no item, but the k oldest messages have left the queue.
\<close>

lemma Consume_cancelled_drops:
  assumes "mem_inv a" and "k < nat n" and "k < length (pending a q)"
    and "\<forall>j<k. fst (oracle j) = None" and "oracle k = (Some e, True)"
  shows "\<exists>a'. Consume oracle q n a = (Inl e, a') \<and> pending a' = (pending a)(q := drop k (pending a q))"
proof -
  obtain cid a1 where e: "ensure_queue q a = (cid, a1)" by fastforce
  note a1 = ensure_queue_props [OF assms(1) e]
  obtain new a2 where s: "consume_loop oracle cid 0 (nat n) [] a1 = consume_loop oracle cid k (nat n - k) new a2"
    "pending a2 = (pending a1)(q := drop k (pending a1 q))" "map_of (queues a2) q = Some cid"
    using consume_loop_take [OF a1(1,3), of k "nat n" "oracle" 0 "[]"] assms(2-4) a1(4) by auto
  obtain m where m: "nat n - k = Suc m" using assms(2) by (metis Suc_diff_Suc)
  have "0 < chan_len cid a2" using s(2,3) assms(3) a1(4) by (simp add: chan_len_pending)
  then have "consume_loop oracle cid k (nat n - k) new a2 = (Inl e, a2)" using assms(5) by (simp add: m)
  moreover have "\<not> n < 0" using assms(2) by simp
  ultimately show ?thesis using e s(1,2) a1(4) by (simp add: Consume_def)
qed

end
