(* ===== verification/WorkerMemory.thy ===== *)
theory WorkerMemory
  imports WorkerPool MemoryAdapter
begin

text \<open>
  The worker on the in-memory adapter.  \<open>mem_others\<close> is what producers, other workers and tests can do
  to the adapter meanwhile: publish, consume, clear, and settle receipts this worker was not
  given.  The laws of the worker's contract hold for it, so what the worker promises on
  any lawful adapter holds here; the theory states that on the model's definitions and runs the
  worker on one message.
\<close>

section \<open>The other users of the adapter\<close>

inductive mem_others :: "nat set \<Rightarrow> 'm MemAdapter \<Rightarrow> 'm MemAdapter \<Rightarrow> bool" for R where
  others_publish: "Publish c q ms a = (ret, a') \<Longrightarrow> mem_others R a a'"
| others_consume: "Consume orc q n a = (res, a') \<Longrightarrow> mem_others R a a'"
| others_ack: "r \<notin> R \<Longrightarrow> Ack r c a = (ret, a') \<Longrightarrow> mem_others R a a'"
| others_nack: "r \<notin> R \<Longrightarrow> Nack r c a = (ret, a') \<Longrightarrow> mem_others R a a'"
| others_clear: "mem_others R a (Clear a)"

lemma mem_others_inv: "mem_others R a a' \<Longrightarrow> mem_inv a \<Longrightarrow> mem_inv a'"
  by (induction rule: mem_others.induct)
    (auto intro: mem.publish_inv mem.consume_inv mem.ack_inv mem.nack_inv Clear_props(1))

lemma settle_other:
  assumes "mem_inv a" and "outstanding a r = Some m" and "r' \<noteq> r"
  shows "Ack r' c a = (ret, a') \<Longrightarrow> outstanding a' r = Some m"
    and "Nack r' c a = (ret, a') \<Longrightarrow> outstanding a' r = Some m"
  using assms mem.ack_ok [OF assms(1)] mem.ack_settled [OF assms(1)] mem.nack_ok [OF assms(1)]
    mem.nack_settled [OF assms(1)]
  by (metis fun_upd_apply not_None_eq)+

lemma consume_other:
  assumes "mem_inv a" and "outstanding a r = Some m" and "Consume orc q n a = (res, a')"
  shows "outstanding a' r = Some m"
  using Consume_keeps [OF assms(1,3)] assms(2) by (metis domI map_le_def)

lemma mem_others_keep:
  assumes "mem_others R a a'" and "mem_inv a" and "r \<in> R" and "outstanding a r = Some m"
  shows "outstanding a' r = Some m"
  using assms(1)
proof cases
  case (others_publish c q ms ret)
  with mem.publish_outstanding [OF assms(2)] assms(4) show ?thesis by simp
next
  case (others_consume orc q n res)
  with consume_other [OF assms(2,4)] show ?thesis by blast
next
  case (others_ack r' c ret)
  with assms(3) have "r' \<noteq> r" by blast
  from settle_other(1) [OF assms(2,4) this others_ack(2)] show ?thesis .
next
  case (others_nack r' c ret)
  with assms(3) have "r' \<noteq> r" by blast
  from settle_other(2) [OF assms(2,4) this others_nack(2)] show ?thesis .
next
  case others_clear
  with Clear_props(3) [OF assms(2)] assms(4) show ?thesis by (auto simp: outstanding_def split: if_splits)
qed

interpretation mem_worker: worker_queue Publish pending mem_inv Consume Ack Nack outstanding mem_others
proof
  fix a :: "message MemAdapter" and a' orc q n R r m
  show "fst (Consume orc q n a) \<noteq> Inr None"
    by (simp add: Consume_def consume_loop_not_nil split: prod.split)
  show "mem_inv a \<Longrightarrow> mem_others R a a' \<Longrightarrow> mem_inv a'" by (rule mem_others_inv)
  show "mem_inv a \<Longrightarrow> mem_others R a a' \<Longrightarrow> r \<in> R \<Longrightarrow> outstanding a r = Some m \<Longrightarrow> outstanding a' r = Some m"
    by (rule mem_others_keep)
qed

section \<open>A run on one message\<close>

text \<open>
  One message is published, the worker takes it, its handler adds one to a counter, the message is
  acknowledged, and Stop ends the worker.
\<close>

definition greet :: message where
  "greet = \<lparr>Originator = ''svc'', Topic = ''Users'', Action = ''Create'', Payload = ''p'', MessageId = ''id-1'',
            TimestampMs = 5, Metadata = Map.empty\<rparr>"

definition counting :: "nat Registry" where
  "counting = Register ''Users'' ''Create'' (\<lambda>_ _ n. (None, n + 1)) NewRegistry"

definition demo_adapter :: "message MemAdapter" where
  "demo_adapter = snd (Publish None ''jobs'' [greet] (NewAdapter 3))"

definition demo_item :: "nat item" where
  "demo_item = \<lparr>Message = greet, Receipt = 0\<rparr>"

definition demo_new :: "(message MemAdapter, nat, nat) Worker" where
  "demo_new = NewWorker demo_adapter counting (DefaultWorkerConfig ''jobs'') 0 None"

definition demo_taken :: "message MemAdapter" where
  "demo_taken = snd (Consume (\<lambda>_. (None, False)) ''jobs'' 10 demo_adapter)"

abbreviation mem_run :: "message MemAdapter \<Rightarrow> nat event list \<Rightarrow> (message MemAdapter, 's, nat) Worker \<Rightarrow> bool" where
  "mem_run \<equiv> worker_run Consume Ack Nack mem_others"

lemma demo_adapter_eq:
  "demo_adapter = \<lparr>queues = [(''jobs'', 0)], bufferSize = 3,
     chans = [\<lparr>ch_cap = 3, ch_buf = [\<lparr>mwr_message = greet, mwr_receipt = None\<rparr>]\<rparr>], receipts = []\<rparr>"
  by (simp add: demo_adapter_def Publish_def NewAdapter_def ensure_queue_def make_queue_def chan_cap_def
      chan_len_def chan_send_def set_buf_def)

lemma mem_inv_demo: "mem_inv demo_adapter"
  by (simp add: demo_adapter_eq mem_inv_def)

lemma demo_consume:
  "Consume (\<lambda>_. (None, False)) ''jobs'' 10 demo_adapter = (Inr (Some \<lparr>Items = [demo_item]\<rparr>), demo_taken)"
  by (simp add: demo_taken_def demo_item_def demo_adapter_eq Consume_def ensure_queue_def chan_len_def receive_def
      set_buf_def numeral_eq_Suc)

lemma demo_handle: "Handle counting c greet n = (None, n + 1)"
  by (simp add: Handle_def counting_def Register_def NewRegistry_def greet_def)

lemma demo_new_fields [simp]:
  "w_adapter demo_new = demo_adapter" "w_registry demo_new = counting" "w_app demo_new = 0" "wg demo_new = 0"
  "w_config demo_new = DefaultWorkerConfig ''jobs''"
  "stopCh demo_new = False" "done_ch demo_new = False" "startErr demo_new = None" "s_ctx demo_new = None"
  "s_pc demo_new = NotStarted" "sem demo_new = 0" "gos demo_new = []" "stoppers demo_new = 0"
  by (simp_all add: demo_new_def NewWorker_def worker_config_def DefaultWorkerConfig_def)

definition demo_dispatched :: "(message MemAdapter, nat, nat) Worker" where
  "demo_dispatched = demo_new\<lparr>w_adapter := demo_taken, sem := 1, wg := 1, gos := [(demo_item, Running)],
     s_pc := LoopTop\<rparr>"

definition demo_trace :: "nat event list" where
  "demo_trace = [Tau, Tau, Took [demo_item], Began demo_item, Tau]"

lemma demo_first: "first_item Consume (DefaultWorkerConfig ''jobs'') demo_adapter demo_item demo_taken"
  unfolding first_item_def
  by (rule exI [of _ "\<lambda>_. (None, False)"]) (simp add: worker_config_def DefaultWorkerConfig_def demo_consume)

lemma demo_run_took:
  "mem_run demo_adapter [Tau, Tau, Took [demo_item]]
     (demo_new\<lparr>w_adapter := demo_taken, s_pc := Dispatching [demo_item]\<rparr>)"
  using run_took [OF demo_new_def demo_first] by (simp add: took_def)

lemma demo_run_dispatched: "mem_run demo_adapter demo_trace demo_dispatched"
  using run_started [OF demo_new_def demo_first] by (simp add: started_def demo_dispatched_def demo_trace_def)

definition demo_acked :: "message MemAdapter" where
  "demo_acked = snd (Ack 0 None demo_taken)"

lemma demo_taken_eq:
  "demo_taken = \<lparr>queues = [(''jobs'', 0)], bufferSize = 3, chans = [\<lparr>ch_cap = 3, ch_buf = []\<rparr>],
     receipts = [\<lparr>mr_msg = greet, acked = False, nacked = False, requeue_chan = Some 0\<rparr>]\<rparr>"
  by (simp add: demo_taken_def demo_adapter_eq Consume_def ensure_queue_def chan_len_def receive_def
      set_buf_def numeral_eq_Suc)

lemma demo_settle: "settle Ack Nack None demo_item None demo_taken = (None, demo_acked)"
  by (simp add: settle_def demo_item_def demo_acked_def demo_taken_eq Ack_def)

definition demo_final :: "(message MemAdapter, nat, nat) Worker" where
  "demo_final = demo_new\<lparr>w_adapter := demo_acked, w_app := 1, stopCh := True, done_ch := True, s_pc := Returned None\<rparr>"

definition demo_full_trace :: "nat event list" where
  "demo_full_trace = demo_trace @ [Ran demo_item None, DidSettle demo_item None None, Tau, Tau, StopCalled, Tau,
     StartReturns None, StopReturns None]"

lemma demo_goroutine:
  assumes "mem_run demo_adapter tr v" and "gos v = [(demo_item, Running)]" and "w_adapter v = demo_taken"
    and "w_registry v = counting" and "s_ctx v = None" and "w_app v = 0" and "sem v = 1" and "wg v = 1"
  shows "mem_run demo_adapter (tr @ [Ran demo_item None, DidSettle demo_item None None, Tau, Tau])
    (v\<lparr>w_app := 1, w_adapter := demo_acked, sem := 0, wg := 0, gos := []\<rparr>)"
proof -
  have "Handle (w_registry v) (s_ctx v) (Message demo_item) (w_app v) = (None, 1)"
    using assms by (simp add: demo_item_def demo_handle)
  from run_acked [OF run_handled [OF assms(1,2) this], where ret = None and ?a2.0 = demo_acked] show ?thesis
    using demo_settle assms(3,5,7,8) by (simp add: settle_def)
qed

lemma demo_run_final: "mem_run demo_adapter demo_full_trace demo_final"
proof -
  let ?g = "[Ran demo_item None, DidSettle demo_item None None, Tau, Tau]"
  let ?w = "demo_new\<lparr>w_adapter := demo_acked, w_app := 1, s_pc := LoopTop\<rparr>"
  have "demo_dispatched\<lparr>w_app := 1, w_adapter := demo_acked, sem := 0, wg := 0, gos := []\<rparr> = ?w"
    by (simp add: demo_dispatched_def demo_new_def NewWorker_def)
  moreover have "mem_run demo_adapter (demo_trace @ ?g)
      (demo_dispatched\<lparr>w_app := 1, w_adapter := demo_acked, sem := 0, wg := 0, gos := []\<rparr>)"
    by (rule demo_goroutine [OF demo_run_dispatched]) (simp_all add: demo_dispatched_def)
  ultimately have r1: "mem_run demo_adapter (demo_trace @ ?g) ?w" by (simp only:)
  have r2: "mem_run demo_adapter ((demo_trace @ ?g) @ [StopCalled]) (?w\<lparr>stopCh := True, stoppers := 1\<rparr>)"
    using run_step [OF r1 stop_call] by simp
  have r3: "mem_run demo_adapter (((demo_trace @ ?g) @ [StopCalled]) @ [Tau])
      (?w\<lparr>stopCh := True, stoppers := 1, s_pc := Draining None\<rparr>)"
    using run_step [OF r2 top_stop] by (simp add: stop_return_def)
  have r4: "mem_run demo_adapter ((((demo_trace @ ?g) @ [StopCalled]) @ [Tau]) @ [StartReturns None])
      (?w\<lparr>stopCh := True, stoppers := 1, done_ch := True, s_pc := Returned None\<rparr>)"
    using run_step [OF r3 drained] by simp
  have "?w\<lparr>stopCh := True, done_ch := True, s_pc := Returned None, stoppers := 0\<rparr> = demo_final"
    by (simp add: demo_final_def demo_new_def NewWorker_def)
  with run_step [OF r4 stop_returns] show ?thesis by (simp add: demo_full_trace_def)
qed

lemma demo_trace_reads [simp]:
  "taken demo_full_trace = [demo_item]" "begun demo_full_trace = [demo_item]" "dropped demo_full_trace = []"
  "settled demo_full_trace = [(demo_item, None)]" "handler_runs demo_full_trace = [(demo_item, None)]"
  by (simp_all add: demo_full_trace_def demo_trace_def taken_def begun_def dropped_def settled_def handler_runs_def)

lemma demo_returns [simp]:
  "StartReturns None \<in> set demo_full_trace" "DidSettle demo_item None None \<in> set demo_full_trace"
  "StopCalled \<in> set demo_full_trace"
  by (simp_all add: demo_full_trace_def)

theorem worker_books_balance_witness:
  "taken demo_full_trace = begun demo_full_trace @ dropped demo_full_trace \<and>
   mset (begun demo_full_trace) = mset (map fst (settled demo_full_trace))"
  using worker_books_balance [OF demo_run_final] by (simp add: demo_final_def)

theorem worker_drained_witness:
  "gos demo_final = [] \<and> mset (settled demo_full_trace) = {#(demo_item, None)#} \<and>
   (\<exists>w1 w2. mem_run demo_adapter (demo_trace @ [Ran demo_item None]) (w1 :: (message MemAdapter, nat, nat) Worker) \<and>
      Ack (Receipt demo_item) (s_ctx w1) (w_adapter w1) = (None, w_adapter (w2 :: (message MemAdapter, nat, nat) Worker)))"
proof -
  have tr: "demo_full_trace = (demo_trace @ [Ran demo_item None]) @ DidSettle demo_item None None #
      [Tau, Tau, StopCalled, Tau, StartReturns None, StopReturns None]" by (simp add: demo_full_trace_def)
  have d: "gos demo_final = [] \<and> mset (settled demo_full_trace) = mset (handler_runs demo_full_trace)"
    using worker_drained [OF demo_run_final, of None] demo_returns(1) by blast
  have "\<exists>w1 w2. mem_run demo_adapter (demo_trace @ [Ran demo_item None]) (w1 :: (message MemAdapter, nat, nat) Worker) \<and>
      (if (None :: error option) = None then Ack (Receipt demo_item) (s_ctx w1) (w_adapter w1)
       else Nack (Receipt demo_item) (s_ctx w1) (w_adapter w1)) = (None, w_adapter (w2 :: (message MemAdapter, nat, nat) Worker))"
    using worker_drained [OF demo_run_final, of None] tr demo_returns(1) by blast
  with d show ?thesis by simp
qed

theorem worker_outcome_witness: "StopCalled \<in> set demo_full_trace \<and> startErr demo_final = None"
  using worker_outcome [OF demo_run_final, where ret = None] demo_returns(1) by blast

theorem concurrency_bounded_witness:
  "sem demo_dispatched = 1 \<and> int (length (running (gos demo_dispatched))) \<le> 10"
  using concurrency_bounded [OF demo_run_dispatched]
  by (simp add: demo_dispatched_def running_def handled_def holding_def DefaultWorkerConfig_def)


section \<open>The adapter's mutex\<close>

text \<open>
  \<open>Consume\<close> begins by taking the mutex of the adapter, which other goroutines hold while they publish, clear or read a
  depth; \<open>Ack\<close> and \<open>Nack\<close> do not take it.  A call of \<open>Consume\<close> is one step of the worker, so beside the mutex this is the step
  that leaves \<open>Consuming\<close>, and it is not made while another goroutine holds it.  How long that one does is not
  for the worker to say: \<open>MemoryRaces\<close> has a Publish that holds the mutex for ever.
\<close>

definition takes_mutex :: "('a, 's, 'r) Worker \<Rightarrow> ('a, 's, 'r) Worker \<Rightarrow> bool" where
  "takes_mutex w w' \<longleftrightarrow> s_pc w = Consuming \<and> s_pc w' \<noteq> Consuming"

text \<open>How a run goes on beside the mutex; the flag says whether another goroutine holds it.\<close>

inductive mutex_cont ::
  "nat event list \<Rightarrow> (message MemAdapter, 's, nat) Worker \<Rightarrow> bool \<Rightarrow> nat event list \<Rightarrow>
   bool \<times> (message MemAdapter, 's, nat) Worker \<Rightarrow> bool" for tr0 w0 held0 where
  mutex_refl: "mutex_cont tr0 w0 held0 [] (held0, w0)"
| mutex_step:
    "mutex_cont tr0 w0 held0 ext (held, w) \<Longrightarrow> worker_step Consume Ack Nack ev w w' \<Longrightarrow>
     (takes_mutex w w' \<longrightarrow> \<not> held) \<Longrightarrow> mutex_cont tr0 w0 held0 (ext @ [ev]) (held, w')"
| mutex_others:
    "mutex_cont tr0 w0 held0 ext (held, w) \<Longrightarrow> mem_others (Receipt ` set (taken (tr0 @ ext))) (w_adapter w) a' \<Longrightarrow>
     mutex_cont tr0 w0 held0 (ext @ [External]) (held, w\<lparr>w_adapter := a'\<rparr>)"
| mutex_changes:
    "mutex_cont tr0 w0 held0 ext (held, w) \<Longrightarrow> mutex_cont tr0 w0 held0 ext (held', w)"

definition can_move :: "bool \<Rightarrow> (message MemAdapter, 's, nat) Worker \<Rightarrow> bool" where
  "can_move held w \<longleftrightarrow>
     (\<exists>ev w'. own ev \<and> worker_step Consume Ack Nack ev w w' \<and> (takes_mutex w w' \<longrightarrow> \<not> held))"

lemma mutex_cont_cont:
  "mutex_cont tr0 w0 held0 ext cfg \<Longrightarrow> worker_cont Consume Ack Nack mem_others tr0 w0 ext (snd cfg)"
  by (induction rule: mutex_cont.induct) (auto intro: worker_cont.intros)

text \<open>The one place where a worker that has not returned can be held up.\<close>

lemma moves_iff:
  assumes "sync_inv w" and "\<nexists>ret. s_pc w = Returned ret"
  shows "can_move held w \<longleftrightarrow> \<not> (held \<and> s_pc w = Consuming \<and> gos w = [])"
proof
  assume "can_move held w"
  then obtain ev w' where st: "worker_step Consume Ack Nack ev w w'" "own ev" "takes_mutex w w' \<longrightarrow> \<not> held"
    by (auto simp: can_move_def)
  show "\<not> (held \<and> s_pc w = Consuming \<and> gos w = [])"
  proof
    assume "held \<and> s_pc w = Consuming \<and> gos w = []"
    with st show False by (auto simp: takes_mutex_def elim: worker_step.cases)
  qed
next
  assume free: "\<not> (held \<and> s_pc w = Consuming \<and> gos w = [])"
  show "can_move held w"
  proof (cases "held \<and> s_pc w = Consuming")
    case True
    with free goroutine_steps [OF assms(1), of 0 Consume Ack Nack] show ?thesis
      by (fastforce simp: can_move_def takes_mutex_def)
  next
    case False
    with never_stuck [OF assms, of Consume Ack Nack] show ?thesis by (auto simp: can_step_def can_move_def takes_mutex_def)
  qed
qed

section \<open>Properties\<close>

text \<open>
  On the in-memory adapter every Ack and Nack the worker issues is accepted, with any number of
  other workers and producers on the same adapter: no receipt is ever settled twice and none is
  settled that the adapter does not consider open.
\<close>

lemma worker_settlements_accepted:
  assumes "mem_run a0 tr w" and "mem_inv a0" and "DidSettle it err ret \<in> set tr"
  shows "ret = None"
  using assms by (rule mem_worker.settlements_accepted)

text \<open>
  Messages of a batch that were not dispatched when the worker stopped are neither acknowledged
  nor rejected, then or later: their receipts stay open, and the messages are gone from the
  queue.
\<close>

lemma worker_abandons:
  assumes "mem_run a0 tr w" and "mem_inv a0" and "it \<in> set (dropped tr)"
  shows "outstanding (w_adapter w) (Receipt it) = Some (Message it) \<and> it \<in> set (taken tr) \<and>
    returning (s_pc w) \<noteq> None"
  using mem_worker.dropped_open [OF assms] books_inv_run [OF assms(1)] assms(3) by (auto simp: books_inv_def)

text \<open>
  C16. Shutdown terminates as far as the adapter lets it: once Stop was called or the context is done, Start and its
  goroutines together make at most the computed number of further steps, however they are interleaved with each other and
  with the rest of the program, and Start has returned when they have made that many.  Until it has returned one of them can
  always make a step, with a single exception: when no goroutine is left and Start is about to call Consume, whose
  first statement takes the adapter's mutex, and another goroutine holds that.  Then none can, so a Publish that
  never gives the mutex back keeps a stopped worker from returning.
\<close>

theorem worker_stop_terminates:
  assumes "mem_run a0 tr w" and "mem_inv a0" and "stopping w" and "mutex_cont tr w held ext (held', w')"
  shows "length (filter own ext) \<le> work_left w \<and>
    (length (filter own ext) = work_left w \<longrightarrow> done_ch w') \<and>
    (\<not> done_ch w' \<longrightarrow> (can_move held' w' \<longleftrightarrow> \<not> (held' \<and> s_pc w' = Consuming \<and> gos w' = [])))"
proof -
  note cont = mutex_cont_cont [OF assms(4), simplified]
  have sync: "sync_inv w'" by (rule sync_inv_run [OF cont_run [OF cont assms(1)]])
  then have "\<not> done_ch w' \<Longrightarrow> \<nexists>ret. s_pc w' = Returned ret" by (simp add: sync_inv_def)
  with mem_worker.stop_terminates [OF assms(1-3) cont] moves_iff [OF sync, of held'] show ?thesis by blast
qed

theorem worker_stop_terminates_witness:
  "work_left (demo_dispatched\<lparr>stopCh := True, stoppers := 1\<rparr>) = 6 \<and>
   can_move True (demo_dispatched\<lparr>stopCh := True, stoppers := 1\<rparr>) \<and>
   \<not> can_move True (demo_new\<lparr>s_pc := Consuming, stopCh := True, stoppers := 1\<rparr>) \<and>
   can_move False (demo_new\<lparr>s_pc := Consuming, stopCh := True, stoppers := 1\<rparr>)"
proof -
  let ?w = "demo_dispatched\<lparr>stopCh := True, stoppers := 1\<rparr>" and ?v = "demo_new\<lparr>s_pc := Consuming, stopCh := True, stoppers := 1\<rparr>"
  have w: "mem_run demo_adapter (demo_trace @ [StopCalled]) ?w" "stopping ?w"
    using run_step [OF demo_run_dispatched stop_call] by (simp_all add: demo_dispatched_def stopping_def)
  have "mem_run demo_adapter [] demo_new" unfolding demo_new_def by (rule run_new) (simp add: ctx_ok_def)
  from run_step [OF this start_call] have "mem_run demo_adapter [Tau] (demo_new\<lparr>s_pc := LoopTop\<rparr>)" by simp
  from run_step [OF this top_default] have "mem_run demo_adapter [Tau, Tau] (demo_new\<lparr>s_pc := Consuming\<rparr>)" by simp
  from run_step [OF this stop_call] have v: "mem_run demo_adapter [Tau, Tau, StopCalled] ?v" by simp
  have "stopping ?v" by (simp add: stopping_def)
  from worker_stop_terminates [OF w(1) mem_inv_demo w(2) mutex_refl, of True]
    worker_stop_terminates [OF v mem_inv_demo this mutex_refl, of True]
    worker_stop_terminates [OF v mem_inv_demo this mutex_refl, of False]
  show ?thesis by (simp add: demo_dispatched_def work_left_def)
qed

text \<open>
  C19. Workers of one pool never interfere through the in-memory adapter: at every moment the messages
  they have taken and not settled have pairwise different receipts, each open for its message,
  and every Ack and Nack any of them has issued was accepted.
\<close>

theorem pool_settlements_accepted:
  assumes "pool_run Consume Ack Nack mem_others a0 trs p" and "mem_inv a0"
  shows "owned (outstanding (p_adapter p)) (pool_unsettled trs p) \<and>
    (DidSettle it err ret \<in> set (concat trs) \<longrightarrow> ret = None)"
  using mem_worker.pool_receipts_run [OF assms] by auto

definition demo_pool :: "message MemAdapter \<Rightarrow> (message MemAdapter, nat, nat) Worker \<Rightarrow> (message MemAdapter, nat, nat) WorkerPool" where
  "demo_pool a w = (lone_pool demo_adapter counting (DefaultWorkerConfig ''jobs'') 0)\<lparr>p_workers := [w], p_adapter := a\<rparr>"

lemma demo_pool_step:
  assumes "pool_run Consume Ack Nack mem_others demo_adapter [tr] (demo_pool a w)"
    and "worker_step Consume Ack Nack ev w w'" and "own ev" and "w_adapter w = a" "w_app w = 0" "s_ctx w = None" "w_app w' = 0"
  shows "pool_run Consume Ack Nack mem_others demo_adapter [tr @ [ev]] (demo_pool (w_adapter w') w')"
proof -
  have "view (demo_pool a w) 0 = w" using assms(4-6) by (simp add: view_def demo_pool_def lone_pool_def)
  with lone_worker_step [OF assms(1), of w ev w'] assms(2,3,7) show ?thesis by (simp add: demo_pool_def lone_pool_def)
qed

lemma demo_pool_took:
  "pool_run Consume Ack Nack mem_others demo_adapter [[Tau, Tau, Took [demo_item]]]
     (demo_pool demo_taken (demo_new\<lparr>w_adapter := demo_taken, s_pc := Dispatching [demo_item]\<rparr>))"
proof -
  let ?cfg = "DefaultWorkerConfig ''jobs''"
  have r0: "pool_run Consume Ack Nack mem_others demo_adapter [[]] (demo_pool demo_adapter demo_new)"
    using lone_pool_start [of Consume Ack Nack mem_others demo_adapter counting ?cfg "0 :: nat"]
    by (simp add: demo_pool_def lone_pool_def demo_new_def)
  have r1: "pool_run Consume Ack Nack mem_others demo_adapter [[Tau]] (demo_pool demo_adapter (demo_new\<lparr>s_pc := LoopTop\<rparr>))"
    using demo_pool_step [OF r0 start_call] by simp
  have r2: "pool_run Consume Ack Nack mem_others demo_adapter [[Tau, Tau]] (demo_pool demo_adapter (demo_new\<lparr>s_pc := Consuming\<rparr>))"
    using demo_pool_step [OF r1 top_default] by simp
  have c: "Consume (\<lambda>_. (None, False)) (QueueName ?cfg) (MaxBatch ?cfg) demo_adapter =
      (Inr (Some \<lparr>Items = [demo_item]\<rparr>), demo_taken)"
    by (simp add: DefaultWorkerConfig_def demo_consume)
  show ?thesis
    using demo_pool_step [OF r2 consume_items [where orc = "\<lambda>_. (None, False)" and cr = "\<lparr>Items = [demo_item]\<rparr>"
        and a' = demo_taken]] c by simp
qed

theorem pool_settlements_accepted_witness:
  "owned (outstanding demo_taken) {#demo_item#}"
proof -
  have "pool_unsettled [[Tau, Tau, Took [demo_item]]]
      (demo_pool demo_taken (demo_new\<lparr>w_adapter := demo_taken, s_pc := Dispatching [demo_item]\<rparr>)) = {#demo_item#}"
    by (simp add: pool_unsettled_def unsettled_def demo_pool_def dropped_def)
  with pool_settlements_accepted [OF demo_pool_took mem_inv_demo] show ?thesis by (simp add: demo_pool_def)
qed

end
