(* ===== verification/Grpcq.thy ===== *)
theory Grpcq
  imports Producer WorkerMemory
begin

text \<open>
  \<open>go/grpcq/client.go\<close> and \<open>go/grpcq/server.go\<close>: the runtime of generated code.

  Options are the functions they are in the source.  A call option's metadata map is the list of its
  entries; a map that may be nil is an option.  The server's worker is the transition system of
  \<open>Worker\<close>; the cancel function of its context is the step that ends that context.
\<close>

section \<open>Client\<close>

record ClientConfig =
  cc_QueueName :: string
  cc_Originator :: string

record Client =
  cl_producer :: Producer
  cl_config :: ClientConfig

record callOptions =
  co_queueName :: string
  co_metadata :: "str_map option"

text \<open>The only implementation of the interface \<open>CallOption\<close>: a function in a structure.\<close>

record funcCallOption =
  fco_f :: "callOptions \<Rightarrow> callOptions"

definition fco_apply :: "funcCallOption \<Rightarrow> callOptions \<Rightarrow> callOptions" where
  "fco_apply fco co = fco_f fco co"

definition newFuncCallOption :: "(callOptions \<Rightarrow> callOptions) \<Rightarrow> funcCallOption" where
  "newFuncCallOption f = \<lparr>fco_f = f\<rparr>"

definition WithQueueNameOption :: "string \<Rightarrow> funcCallOption" where
  "WithQueueNameOption name = newFuncCallOption (\<lambda>co. co\<lparr>co_queueName := name\<rparr>)"

definition WithMetadata :: "str_map \<Rightarrow> funcCallOption" where
  "WithMetadata md = newFuncCallOption (\<lambda>co.
     (let co1 = (case co_metadata co of None \<Rightarrow> co\<lparr>co_metadata := Some []\<rparr> | Some _ \<Rightarrow> co)
      in co1\<lparr>co_metadata := Some (fold (\<lambda>(k, v). AList.update k v) md (the (co_metadata co1)))\<rparr>))"

definition WithClientQueueName :: "string \<Rightarrow> ClientConfig \<Rightarrow> ClientConfig" where
  "WithClientQueueName name c = c\<lparr>cc_QueueName := name\<rparr>"

definition WithOriginator :: "string \<Rightarrow> ClientConfig \<Rightarrow> ClientConfig" where
  "WithOriginator orig c = c\<lparr>cc_Originator := orig\<rparr>"

definition NewClient :: "(ClientConfig \<Rightarrow> ClientConfig) list \<Rightarrow> Client" where
  "NewClient opts =
     (let config = fold (\<lambda>opt. opt) opts \<lparr>cc_QueueName = ''default-queue'', cc_Originator = ''grpcq-client''\<rparr>
      in \<lparr>cl_producer = NewProducer (cc_Originator config), cl_config = config\<rparr>)"

definition client_Invoke ::
  "('p \<Rightarrow> error + bytes) \<Rightarrow> (ctx \<Rightarrow> string \<Rightarrow> message list \<Rightarrow> 'a \<Rightarrow> error option \<times> 'a) \<Rightarrow> string \<Rightarrow> int \<Rightarrow>
   Client \<Rightarrow> ctx \<Rightarrow> string \<Rightarrow> string \<Rightarrow> 'p \<Rightarrow> funcCallOption list \<Rightarrow> 'a \<Rightarrow> error option \<times> 'a" where
  "client_Invoke marshal publish uuid now cl c serviceName methodName req opts a =
     (let callOpts = fold fco_apply opts \<lparr>co_queueName = cc_QueueName (cl_config cl), co_metadata = Some []\<rparr>
      in Send marshal publish uuid now (cl_producer cl) c (co_queueName callOpts) serviceName methodName req
           (case co_metadata callOpts of None \<Rightarrow> [] | Some md \<Rightarrow> md) a)"

definition Close :: "Client \<Rightarrow> error option" where
  "Close cl = None"

section \<open>Server\<close>

record ServerConfig =
  sc_QueueName :: string
  sc_Concurrency :: int
  sc_MaxBatch :: int
  sc_PollIntervalMs :: int

record ('a, 's, 'r) Server =
  srv_registry :: "'s Registry"
  srv_config :: ServerConfig
  srv_worker :: "('a, 's, 'r) Worker option"

definition WithQueueName :: "string \<Rightarrow> ServerConfig \<Rightarrow> ServerConfig" where
  "WithQueueName name c = c\<lparr>sc_QueueName := name\<rparr>"

definition WithConcurrency :: "int \<Rightarrow> ServerConfig \<Rightarrow> ServerConfig" where
  "WithConcurrency n c = c\<lparr>sc_Concurrency := n\<rparr>"

definition WithMaxBatch :: "int \<Rightarrow> ServerConfig \<Rightarrow> ServerConfig" where
  "WithMaxBatch n c = c\<lparr>sc_MaxBatch := n\<rparr>"

definition WithPollInterval :: "int \<Rightarrow> ServerConfig \<Rightarrow> ServerConfig" where
  "WithPollInterval ms c = c\<lparr>sc_PollIntervalMs := ms\<rparr>"

definition NewServer :: "(ServerConfig \<Rightarrow> ServerConfig) list \<Rightarrow> ('a, 's, 'r) Server" where
  "NewServer opts =
     \<lparr>srv_registry = NewRegistry,
      srv_config = fold (\<lambda>opt. opt) opts
        \<lparr>sc_QueueName = ''default-queue'', sc_Concurrency = 10, sc_MaxBatch = 10, sc_PollIntervalMs = 1000\<rparr>,
      srv_worker = None\<rparr>"

text \<open>
  The wrapper around a typed handler.  \<open>unmarshal\<close> is \<open>proto.Unmarshal\<close> into the new request, or nothing
  when that request is no \<open>proto.Message\<close> and the type assertion panics.
\<close>

definition wrappedHandler ::
  "('p \<Rightarrow> (bytes \<Rightarrow> error + 'p) option) \<Rightarrow> (ctx \<Rightarrow> 'p \<Rightarrow> 's \<Rightarrow> (error + 'q) \<times> 's) \<Rightarrow> 'p \<Rightarrow> 's Handler" where
  "wrappedHandler unmarshal handler newRequest c msg s =
     (case unmarshal newRequest of
        None \<Rightarrow> (Some (Panic ''interface conversion: request is not a proto.Message''), s)
      | Some um \<Rightarrow>
          (case um (Payload msg) of
             Inl err \<Rightarrow> (Some (Wrap ''failed to unmarshal request: '' err ''''), s)
           | Inr req \<Rightarrow>
               (case handler c req s of (Inl err, s') \<Rightarrow> (Some err, s') | (Inr resp, s') \<Rightarrow> (None, s'))))"

text \<open>The registry is shared with a running worker.\<close>

definition server_RegisterMethod ::
  "('p \<Rightarrow> (bytes \<Rightarrow> error + 'p) option) \<Rightarrow> string \<Rightarrow> string \<Rightarrow> (ctx \<Rightarrow> 'p \<Rightarrow> 's \<Rightarrow> (error + 'q) \<times> 's) \<Rightarrow> 'p \<Rightarrow>
   ('a, 's, 'r) Server \<Rightarrow> ('a, 's, 'r) Server" where
  "server_RegisterMethod unmarshal serviceName methodName handler newRequest s =
     (let reg = Register serviceName methodName (wrappedHandler unmarshal handler newRequest) (srv_registry s)
      in s\<lparr>srv_registry := reg, srv_worker := map_option (\<lambda>w. w\<lparr>w_registry := reg\<rparr>) (srv_worker s)\<rparr>)"

definition server_workerConfig :: "ServerConfig \<Rightarrow> WorkerConfig" where
  "server_workerConfig c =
     \<lparr>QueueName = sc_QueueName c, MaxBatch = sc_MaxBatch c, Concurrency = sc_Concurrency c,
      PollIntervalMs = sc_PollIntervalMs c\<rparr>"

text \<open>\<open>Start\<close> up to the point where the worker's own Start runs, on the adapter state \<open>a\<close>.\<close>

definition server_Start :: "'a \<Rightarrow> 's \<Rightarrow> ctx \<Rightarrow> ('a, 's, 'r) Server \<Rightarrow> ('a, 's, 'r) Server" where
  "server_Start a app c s =
     s\<lparr>srv_worker := Some (NewWorker a (srv_registry s) (server_workerConfig (srv_config s)) app c)\<rparr>"

definition server_Stop :: "('a, 's, 'r) Server \<Rightarrow> error option \<times> ('a, 's, 'r) Server" where
  "server_Stop s =
     (case srv_worker s of
        None \<Rightarrow> (Some (Msg ''server not started''), s)
      | Some w \<Rightarrow>
          (None, s\<lparr>srv_worker := Some (case s_ctx w of None \<Rightarrow> w\<lparr>s_ctx := Some Canceled\<rparr> | Some _ \<Rightarrow> w)\<rparr>))"

section \<open>Properties\<close>

lemma fold_update_map_of: "map_of (fold (\<lambda>(k, v). AList.update k v) md al) = map_of al ++ map_of (rev md)"
proof (induction md arbitrary: al)
  case (Cons kv md)
  obtain k v where "kv = (k, v)" by fastforce
  with Cons show ?case by (auto simp: map_add_def fun_eq_iff split: option.splits)
qed simp

lemma fold_update_distinct:
  "distinct (map fst al) \<Longrightarrow> distinct (map fst (fold (\<lambda>(k, v). AList.update k v) md al))"
  by (induction md arbitrary: al) auto

text \<open>The options of one call, in order.\<close>

datatype call_option = OptQueue string | OptMetadata str_map

primrec apply_option :: "call_option \<Rightarrow> funcCallOption" where
  "apply_option (OptQueue q) = WithQueueNameOption q"
| "apply_option (OptMetadata md) = WithMetadata md"

definition option_queue :: "string \<Rightarrow> call_option list \<Rightarrow> string" where
  "option_queue dflt opts = fold (\<lambda>opt q. case opt of OptQueue q' \<Rightarrow> q' | OptMetadata _ \<Rightarrow> q) opts dflt"

definition option_entries :: "call_option list \<Rightarrow> str_map" where
  "option_entries opts = concat (map (\<lambda>opt. case opt of OptMetadata md \<Rightarrow> md | OptQueue _ \<Rightarrow> []) opts)"

lemma apply_options:
  "\<exists>md'. fold fco_apply (map apply_option opts) \<lparr>co_queueName = q, co_metadata = Some md\<rparr> =
     \<lparr>co_queueName = option_queue q opts, co_metadata = Some md'\<rparr> \<and>
     md' = fold (\<lambda>(k, v). AList.update k v) (option_entries opts) md"
proof (induction opts arbitrary: q md)
  case Nil
  then show ?case by (simp add: option_queue_def option_entries_def)
next
  case (Cons opt opts)
  show ?case
  proof (cases opt)
    case (OptQueue q')
    with Cons [of q' md] show ?thesis by (simp add: option_queue_def option_entries_def fco_apply_def newFuncCallOption_def WithQueueNameOption_def)
  next
    case (OptMetadata md')
    with Cons [of q "fold (\<lambda>(k, v). AList.update k v) md' md"] show ?thesis
      by (simp add: option_queue_def option_entries_def fco_apply_def newFuncCallOption_def WithMetadata_def)
  qed
qed

lemma invoke_sends:
  "client_Invoke marshal publish uuid now cl c svc mth req (map apply_option opts) a =
     Send marshal publish uuid now (cl_producer cl) c (option_queue (cc_QueueName (cl_config cl)) opts) svc mth req
       (fold (\<lambda>(k, v). AList.update k v) (option_entries opts) []) a"
proof -
  obtain md' where "fold fco_apply (map apply_option opts)
      \<lparr>co_queueName = cc_QueueName (cl_config cl), co_metadata = Some []\<rparr> =
      \<lparr>co_queueName = option_queue (cc_QueueName (cl_config cl)) opts, co_metadata = Some md'\<rparr>"
    "md' = fold (\<lambda>(k, v). AList.update k v) (option_entries opts) []"
    using apply_options by blast
  then show ?thesis by (simp add: client_Invoke_def)
qed

lemma option_metadata:
  "Metadata (envelope p svc mth payload uuid now (fold (\<lambda>(k, v). AList.update k v) (option_entries opts) [])) =
     map_of (rev (option_entries opts))"
proof -
  have "distinct (map fst (fold (\<lambda>(k, v). AList.update k v) (option_entries opts) []))"
    by (rule fold_update_distinct) simp
  then show ?thesis by (simp add: envelope_def range_copy_empty fold_update_map_of)
qed

text \<open>
  The call options of Invoke: the last queue option decides where the message goes, the metadata
  options add up and a later entry for a key replaces an earlier one, whatever the order of the
  options; and what Invoke sends is the envelope with exactly that metadata.
\<close>

lemma client_Invoke_options:
  "client_Invoke marshal publish uuid now cl c svc mth req (map apply_option opts) a =
     Send marshal publish uuid now (cl_producer cl) c (option_queue (cc_QueueName (cl_config cl)) opts) svc mth req
       (fold (\<lambda>(k, v). AList.update k v) (option_entries opts) []) a \<and>
   Metadata (envelope p svc mth payload uuid now (fold (\<lambda>(k, v). AList.update k v) (option_entries opts) [])) =
     map_of (rev (option_entries opts))"
  by (rule conjI [OF invoke_sends option_metadata])

lemma server_Stop_step:
  assumes "worker_run consume ack nack others a0 tr w" and "srv_worker s = Some w"
  shows "\<exists>w' tr'. server_Stop s = (None, s\<lparr>srv_worker := Some w'\<rparr>) \<and>
    worker_run consume ack nack others a0 (tr @ tr') w' \<and> set tr' \<subseteq> {External} \<and> stopping w' \<and>
    gos w' = gos w \<and> s_pc w' = s_pc w \<and> done_ch w' = done_ch w"
proof (cases "s_ctx w")
  case None
  have "worker_run consume ack nack others a0 (tr @ [External]) (w\<lparr>s_ctx := Some Canceled\<rparr>)"
    by (rule run_step [OF assms(1) ctx_done [OF None]]) simp
  with None assms(2) show ?thesis
    by (intro exI [of _ "w\<lparr>s_ctx := Some Canceled\<rparr>"] exI [of _ "[External]"]) (simp add: server_Stop_def stopping_def)
next
  case (Some e)
  with assms show ?thesis
    by (intro exI [of _ w] exI [of _ "[]"]) (auto simp: server_Stop_def stopping_def)
qed

text \<open>
  Server.Stop on a started server signals and returns at once: it reports success whatever the
  worker is doing, and leaves every in-flight goroutine where it is.  The worker is then stopping;
  and since the server never calls Worker.Stop, its Start can only return an error, never nil.
\<close>

lemma server_Stop_returns_at_once:
  assumes "worker_run consume ack nack others a0 tr w" and "srv_worker s = Some w" and "StopCalled \<notin> set tr"
  shows "\<exists>w' tr'. server_Stop s = (None, s\<lparr>srv_worker := Some w'\<rparr>) \<and>
    worker_run consume ack nack others a0 (tr @ tr') w' \<and> stopping w' \<and>
    gos w' = gos w \<and> done_ch w' = done_ch w \<and> StartReturns None \<notin> set (tr @ tr')"
proof -
  from server_Stop_step [OF assms(1,2)] obtain w' tr' where
    w': "server_Stop s = (None, s\<lparr>srv_worker := Some w'\<rparr>)" "worker_run consume ack nack others a0 (tr @ tr') w'"
      "set tr' \<subseteq> {External}" "stopping w'" "gos w' = gos w" "done_ch w' = done_ch w" by blast
  have "StopCalled \<notin> set (tr @ tr')" using assms(3) w'(3) by auto
  with outcome_inv_run [OF w'(2)] have "StartReturns None \<notin> set (tr @ tr')"
    by (auto simp: outcome_inv_def)
  with w' show ?thesis by blast
qed

text \<open>
  The configuration a server gives its worker: without options, and for every option value, the
  worker polls the server's queue, and batch size, concurrency and poll pause are the options'
  values where positive and the worker's defaults otherwise.
\<close>

lemma server_config_effective:
  "w_config (the (srv_worker (server_Start a app c (NewServer [WithQueueName q, WithConcurrency k, WithMaxBatch b,
      WithPollInterval ms] :: ('a, 's, 'r) Server)))) =
     \<lparr>QueueName = q, MaxBatch = (if b \<le> 0 then 10 else b), Concurrency = (if k \<le> 0 then 10 else k),
      PollIntervalMs = (if ms \<le> 0 then 1000 else ms)\<rparr> \<and>
   w_config (the (srv_worker (server_Start a app c (NewServer [] :: ('a, 's, 'r) Server)))) =
     DefaultWorkerConfig ''default-queue''"
  by (simp add: server_Start_def NewServer_def WithQueueName_def WithConcurrency_def WithMaxBatch_def
      WithPollInterval_def server_workerConfig_def NewWorker_def worker_config_def DefaultWorkerConfig_def Let_def)

end
