(* ===== verification/UserService.thy ===== *)
theory UserService
  imports Grpcq
begin

text \<open>
  The example service: \<open>go/examples/userservice/service.go\<close>, and the code \<open>protoc-gen-grpcq\<close> generated for
  it, \<open>go/examples/userservice/proto/user_grpcq.pb.go\<close>, which ties a service to the client and server
  runtime.

  The handlers' state is the service with the reading of the clock; \<open>status_Error\<close>, gRPC's constructor of
  status errors, is a parameter, as is protobuf.  A request that travels as \<open>interface{}\<close>
  is a value of the sum of the request types.
\<close>

section \<open>The service\<close>

record CreateUserRequest =
  cu_Name :: string
  cu_Email :: string

record CreateUserResponse =
  cr_UserId :: string
  cr_Name :: string
  cr_Email :: string

record GetUserRequest =
  gu_UserId :: string

record GetUserResponse =
  gr_UserId :: string
  gr_Name :: string
  gr_Email :: string

record UserService =
  users :: "(string \<times> GetUserResponse) list"
  UnixNano :: int

definition NewUserService :: "int \<Rightarrow> UserService" where
  "NewUserService t = \<lparr>users = [], UnixNano = t\<rparr>"

definition CreateUser ::
  "(string \<Rightarrow> string \<Rightarrow> error) \<Rightarrow> ctx \<Rightarrow> CreateUserRequest \<Rightarrow> UserService \<Rightarrow> (error + CreateUserResponse) \<times> UserService" where
  "CreateUser status_Error c req s =
     (if cu_Name req = [] then (Inl (status_Error ''InvalidArgument'' ''name is required''), s)
      else if cu_Email req = [] then (Inl (status_Error ''InvalidArgument'' ''email is required''), s)
      else let userID = ''user-'' @ fmt_d (UnixNano s) in
           (Inr \<lparr>cr_UserId = userID, cr_Name = cu_Name req, cr_Email = cu_Email req\<rparr>,
            s\<lparr>users := AList.update userID
                \<lparr>gr_UserId = userID, gr_Name = cu_Name req, gr_Email = cu_Email req\<rparr> (users s)\<rparr>))"

definition GetUser ::
  "(string \<Rightarrow> string \<Rightarrow> error) \<Rightarrow> ctx \<Rightarrow> GetUserRequest \<Rightarrow> UserService \<Rightarrow> (error + GetUserResponse) \<times> UserService" where
  "GetUser status_Error c req s =
     (if gu_UserId req = [] then (Inl (status_Error ''InvalidArgument'' ''user_id is required''), s)
      else case map_of (users s) (gu_UserId req) of
             None \<Rightarrow> (Inl (status_Error ''NotFound'' ''user not found''), s)
           | Some user \<Rightarrow> (Inr user, s))"

section \<open>The generated code\<close>

datatype request = ReqCreate CreateUserRequest | ReqGet GetUserRequest
datatype response = RespCreate CreateUserResponse | RespGet GetUserResponse

definition service_name :: string where
  "service_name = ''userservice.UserService''"

text \<open>The closures passed to RegisterMethod, with the type assertion on the request.\<close>

definition create_closure ::
  "(string \<Rightarrow> string \<Rightarrow> error) \<Rightarrow> ctx \<Rightarrow> request \<Rightarrow> UserService \<Rightarrow> (error + response) \<times> UserService" where
  "create_closure status_Error c req s =
     (case req of
        ReqCreate r \<Rightarrow> map_prod (map_sum id RespCreate) id (CreateUser status_Error c r s)
      | ReqGet _ \<Rightarrow> (Inl (Panic ''interface conversion''), s))"

definition get_closure ::
  "(string \<Rightarrow> string \<Rightarrow> error) \<Rightarrow> ctx \<Rightarrow> request \<Rightarrow> UserService \<Rightarrow> (error + response) \<times> UserService" where
  "get_closure status_Error c req s =
     (case req of
        ReqGet r \<Rightarrow> map_prod (map_sum id RespGet) id (GetUser status_Error c r s)
      | ReqCreate _ \<Rightarrow> (Inl (Panic ''interface conversion''), s))"

definition RegisterUserServiceConsumer ::
  "(string \<Rightarrow> string \<Rightarrow> error) \<Rightarrow> (request \<Rightarrow> (bytes \<Rightarrow> error + request) option) \<Rightarrow>
   (ServerConfig \<Rightarrow> ServerConfig) list \<Rightarrow> ('a, UserService, 'r) Server" where
  "RegisterUserServiceConsumer status_Error unmarshal opts =
     server_RegisterMethod unmarshal service_name ''GetUser'' (get_closure status_Error) (ReqGet \<lparr>gu_UserId = []\<rparr>)
       (server_RegisterMethod unmarshal service_name ''CreateUser'' (create_closure status_Error)
          (ReqCreate \<lparr>cu_Name = [], cu_Email = []\<rparr>) (NewServer opts))"

definition NewUserServiceProducer :: "(ClientConfig \<Rightarrow> ClientConfig) list \<Rightarrow> Client" where
  "NewUserServiceProducer opts = NewClient opts"

definition producer_CreateUser ::
  "(request \<Rightarrow> error + bytes) \<Rightarrow> (ctx \<Rightarrow> string \<Rightarrow> message list \<Rightarrow> 'a \<Rightarrow> error option \<times> 'a) \<Rightarrow> string \<Rightarrow> int \<Rightarrow>
   Client \<Rightarrow> ctx \<Rightarrow> CreateUserRequest \<Rightarrow> funcCallOption list \<Rightarrow> 'a \<Rightarrow> error option \<times> 'a" where
  "producer_CreateUser marshal publish uuid now cc c req opts =
     client_Invoke marshal publish uuid now cc c service_name ''CreateUser'' (ReqCreate req) opts"

definition producer_GetUser ::
  "(request \<Rightarrow> error + bytes) \<Rightarrow> (ctx \<Rightarrow> string \<Rightarrow> message list \<Rightarrow> 'a \<Rightarrow> error option \<times> 'a) \<Rightarrow> string \<Rightarrow> int \<Rightarrow>
   Client \<Rightarrow> ctx \<Rightarrow> GetUserRequest \<Rightarrow> funcCallOption list \<Rightarrow> 'a \<Rightarrow> error option \<times> 'a" where
  "producer_GetUser marshal publish uuid now cc c req opts =
     client_Invoke marshal publish uuid now cc c service_name ''GetUser'' (ReqGet req) opts"

section \<open>Facts\<close>

lemma user_lookup:
  assumes "cu_Name req \<noteq> []" and "cu_Email req \<noteq> []" and "uid = ''user-'' @ fmt_d (UnixNano s)"
  shows "CreateUser st c req s =
      (Inr \<lparr>cr_UserId = uid, cr_Name = cu_Name req, cr_Email = cu_Email req\<rparr>, snd (CreateUser st c req s))"
    and "map_of (users (snd (CreateUser st c req s))) =
      (map_of (users s))(uid \<mapsto> \<lparr>gr_UserId = uid, gr_Name = cu_Name req, gr_Email = cu_Email req\<rparr>)"
  using assms by (simp_all add: CreateUser_def Let_def)

lemma consumer_registry:
  "srv_registry (RegisterUserServiceConsumer st um opts) =
     Register service_name ''GetUser'' (wrappedHandler um (get_closure st) (ReqGet \<lparr>gu_UserId = []\<rparr>))
       (Register service_name ''CreateUser''
          (wrappedHandler um (create_closure st) (ReqCreate \<lparr>cu_Name = [], cu_Email = []\<rparr>)) NewRegistry)"
  by (simp add: RegisterUserServiceConsumer_def server_RegisterMethod_def NewServer_def Let_def)

lemma consumer_methods:
  "reg_lookup (srv_registry (RegisterUserServiceConsumer st unmarshal opts)) (svc, mth) =
     (if svc = service_name \<and> mth = ''GetUser''
      then Some (wrappedHandler unmarshal (get_closure st) (ReqGet \<lparr>gu_UserId = []\<rparr>))
      else if svc = service_name \<and> mth = ''CreateUser''
      then Some (wrappedHandler unmarshal (create_closure st) (ReqCreate \<lparr>cu_Name = [], cu_Email = []\<rparr>))
      else None)"
  by (auto simp: consumer_registry reg_lookup_Register)

lemma consumer_create:
  assumes "Topic msg = service_name" and "Action msg = ''CreateUser''"
  shows "Handle (srv_registry (RegisterUserServiceConsumer st um opts)) c msg app =
    wrappedHandler um (create_closure st) (ReqCreate \<lparr>cu_Name = [], cu_Email = []\<rparr>) c msg app"
  by (rule Handle_found) (simp add: assms consumer_registry reg_lookup_Register)

lemma consumer_get:
  assumes "Topic msg = service_name" and "Action msg = ''GetUser''"
  shows "Handle (srv_registry (RegisterUserServiceConsumer st um opts)) c msg app =
    wrappedHandler um (get_closure st) (ReqGet \<lparr>gu_UserId = []\<rparr>) c msg app"
  by (rule Handle_found) (simp add: assms consumer_methods)

lemma consumer_other:
  assumes "\<not> (Topic msg = service_name \<and> Action msg \<in> {''CreateUser'', ''GetUser''})"
  shows "snd (Handle (srv_registry (RegisterUserServiceConsumer st um opts)) c msg app) = app"
proof -
  have "reg_lookup (srv_registry (RegisterUserServiceConsumer st um opts :: ('a, UserService, 'b) Server)) (Topic msg, Action msg) = None"
    using assms by (auto simp: consumer_methods)
  from Handle_none [OF this, of c app] show ?thesis by auto
qed

section \<open>Properties\<close>

text \<open>
  A created user can be read back: after a successful CreateUser, GetUser with the returned id gives
  the name and email of the request, and every other id gives what it gave before.
\<close>

lemma create_get_user:
  assumes "CreateUser st c req s = (Inr resp, s')"
  shows "fst (GetUser st c' \<lparr>gu_UserId = cr_UserId resp\<rparr> s') =
      Inr \<lparr>gr_UserId = cr_UserId resp, gr_Name = cu_Name req, gr_Email = cu_Email req\<rparr> \<and>
    (uid \<noteq> cr_UserId resp \<longrightarrow> fst (GetUser st c' \<lparr>gu_UserId = uid\<rparr> s') = fst (GetUser st c' \<lparr>gu_UserId = uid\<rparr> s)) \<and>
    snd (GetUser st c' \<lparr>gu_UserId = uid\<rparr> s') = s'"
proof -
  have ok: "cu_Name req \<noteq> []" "cu_Email req \<noteq> []"
    using assms by (auto simp: CreateUser_def Let_def split: if_splits)
  note u = user_lookup [OF ok refl, where s = s and st = st and c = c]
  from assms u(1) have r: "cr_UserId resp = ''user-'' @ fmt_d (UnixNano s)" "s' = snd (CreateUser st c req s)" by auto
  show ?thesis using u(2) r by (auto simp: GetUser_def split: option.splits)
qed

definition ann :: CreateUserRequest where
  "ann = \<lparr>cu_Name = ''Ann'', cu_Email = ''ann@x''\<rparr>"

end
