(* ===== verification/Url.thy ===== *)
theory Url
  imports Types
begin

text \<open>
  The parts of Go's \<open>net/url\<close> and \<open>path\<close> packages that the HTTP publish endpoint and its client
  rest on, over byte strings: percent escaping of a path and of a path segment, its inverse, parsing
  of a URL down to its path, the escaped form of a path, and the cleaning of a path.

  An escape is a per cent sign and two hexadecimal digits.  Failures of these functions are \<open>None\<close>:
  their callers report texts of their own and never look at the library's.  The syntax of the
  authority of a URL (user, host and port) is a parameter of \<open>url_Parse\<close>; nothing in the
  repository depends on it.
\<close>

section \<open>Escaping\<close>

datatype encoding = encodePath | encodePathSegment

definition alphanum :: "char \<Rightarrow> bool" where
  "alphanum c \<longleftrightarrow>
     (let b = byte c in (97 \<le> b \<and> b \<le> 122) \<or> (65 \<le> b \<and> b \<le> 90) \<or> (48 \<le> b \<and> b \<le> 57))"

definition shouldEscape :: "encoding \<Rightarrow> char \<Rightarrow> bool" where
  "shouldEscape mode c =
     (if alphanum c then False
      else if c \<in> set ''-_.~'' then False
      else if c \<in> set ''$&+,/:;=?@'' then
        (case mode of
           encodePath \<Rightarrow> c = CHR ''?''
         | encodePathSegment \<Rightarrow> c \<in> set ''/;,?'')
      else True)"

definition upperhex :: "nat \<Rightarrow> char" where
  "upperhex d = (if d < 10 then char_of (48 + d) else char_of (55 + d))"

definition unhex :: "char \<Rightarrow> nat option" where
  "unhex c =
     (let b = byte c in
      if 48 \<le> b \<and> b \<le> 57 then Some (b - 48)
      else if 97 \<le> b \<and> b \<le> 102 then Some (b - 87)
      else if 65 \<le> b \<and> b \<le> 70 then Some (b - 55)
      else None)"

definition escape_byte :: "encoding \<Rightarrow> char \<Rightarrow> string" where
  "escape_byte mode c =
     (if shouldEscape mode c then [CHR ''%'', upperhex (byte c div 16), upperhex (byte c mod 16)] else [c])"

definition escape :: "encoding \<Rightarrow> string \<Rightarrow> string" where
  "escape mode s = concat (map (escape_byte mode) s)"

fun unescape :: "string \<Rightarrow> string option" where
  "unescape [] = Some []"
| "unescape (c # cs) =
     (if c \<noteq> CHR ''%'' then map_option (Cons c) (unescape cs)
      else case cs of
             h # l # rest \<Rightarrow>
               (case (unhex h, unhex l) of
                  (Some x, Some y) \<Rightarrow> map_option (Cons (char_of (16 * x + y))) (unescape rest)
                | _ \<Rightarrow> None)
           | _ \<Rightarrow> None)"

definition PathEscape :: "string \<Rightarrow> string" where
  "PathEscape s = escape encodePathSegment s"

definition PathUnescape :: "string \<Rightarrow> string option" where
  "PathUnescape s = unescape s"

section \<open>URLs\<close>

record URL =
  url_Scheme :: string
  url_Opaque :: string
  url_Host :: string
  url_Path :: string
  url_RawPath :: string
  url_RawQuery :: string

definition setPath :: "string \<Rightarrow> URL \<Rightarrow> URL option" where
  "setPath p u =
     (case unescape p of
        None \<Rightarrow> None
      | Some path \<Rightarrow>
          Some (u\<lparr>url_Path := path, url_RawPath := (if p = escape encodePath path then [] else p)\<rparr>))"

definition validEncoded :: "encoding \<Rightarrow> string \<Rightarrow> bool" where
  "validEncoded mode s \<longleftrightarrow>
     list_all (\<lambda>c. c \<in> set ''!$&()*+,;=:@[]%'' \<or> byte c = 39 \<or> \<not> shouldEscape mode c) s"

definition EscapedPath :: "URL \<Rightarrow> string" where
  "EscapedPath u =
     (if url_RawPath u \<noteq> [] \<and> validEncoded encodePath (url_RawPath u) \<and>
         unescape (url_RawPath u) = Some (url_Path u)
      then url_RawPath u
      else if url_Path u = ''*'' then ''*''
      else escape encodePath (url_Path u))"

text \<open>The part before a separator and the part after it.\<close>

definition before :: "char \<Rightarrow> string \<Rightarrow> string" where
  "before sep s = takeWhile (\<lambda>c. c \<noteq> sep) s"

definition after :: "char \<Rightarrow> string \<Rightarrow> string" where
  "after sep s = tl (dropWhile (\<lambda>c. c \<noteq> sep) s)"

text \<open>
  The scheme in front of the first colon, if what stands there has the form of one; \<open>None\<close> is the
  error of a URL that begins with a colon.
\<close>

definition getScheme :: "string \<Rightarrow> (string \<times> string) option" where
  "getScheme raw =
     (let letter = (\<lambda>c. let b = byte c in (97 \<le> b \<and> b \<le> 122) \<or> (65 \<le> b \<and> b \<le> 90));
          schemey = (\<lambda>c. alphanum c \<or> c \<in> set ''+-.'');
          s = takeWhile schemey raw;
          rest = dropWhile schemey raw
      in if s = [] then (if rest \<noteq> [] \<and> hd rest = CHR '':'' then None else Some ([], raw))
         else if \<not> letter (hd s) then Some ([], raw)
         else case rest of
                c # p \<Rightarrow> if c = CHR '':'' then Some (s, p) else Some ([], raw)
              | [] \<Rightarrow> Some ([], raw))"

definition ToLower :: "string \<Rightarrow> string" where
  "ToLower s = map (\<lambda>c. if 65 \<le> byte c \<and> byte c \<le> 90 then char_of (byte c + 32) else c) s"

definition CTLByte :: "char \<Rightarrow> bool" where
  "CTLByte c \<longleftrightarrow> byte c < 32 \<or> byte c = 127"

definition empty_URL :: URL where
  "empty_URL =
     \<lparr>url_Scheme = [], url_Opaque = [], url_Host = [], url_Path = [], url_RawPath = [], url_RawQuery = []\<rparr>"

text \<open>The URL without its fragment, once the scheme is cut off.\<close>

definition parse_rest :: "(string \<Rightarrow> string option) \<Rightarrow> string \<Rightarrow> string \<Rightarrow> URL option" where
  "parse_rest authority scheme rest0 =
     (let u = empty_URL\<lparr>url_Scheme := ToLower scheme, url_RawQuery := after CHR ''?'' rest0\<rparr>;
          rest = before CHR ''?'' rest0
      in if \<not> HasPrefix rest ''/'' \<and> scheme \<noteq> [] then Some (u\<lparr>url_Opaque := rest\<rparr>)
         else if \<not> HasPrefix rest ''/'' \<and> CHR '':'' \<in> set (before CHR ''/'' rest) then None
         else if (scheme \<noteq> [] \<or> \<not> HasPrefix rest ''///'') \<and> HasPrefix rest ''//'' then
           (let auth = before CHR ''/'' (drop 2 rest) in
            case authority auth of
              None \<Rightarrow> None
            | Some host \<Rightarrow> setPath (drop (2 + length auth) rest) (u\<lparr>url_Host := host\<rparr>))
         else setPath rest u)"

definition url_Parse :: "(string \<Rightarrow> string option) \<Rightarrow> string \<Rightarrow> URL option" where
  "url_Parse authority rawURL =
     (let u = before CHR ''#'' rawURL in
      if list_ex CTLByte u then None
      else if unescape (after CHR ''#'' rawURL) = None then None
      else if u = ''*'' then Some (empty_URL\<lparr>url_Path := ''*''\<rparr>)
      else case getScheme u of
             None \<Rightarrow> None
           | Some (scheme, rest) \<Rightarrow> parse_rest authority scheme rest)"

section \<open>Cleaning a path\<close>

fun segments :: "string \<Rightarrow> string list" where
  "segments [] = [[]]"
| "segments (c # cs) =
     (if c = CHR ''/'' then [] # segments cs
      else (c # hd (segments cs)) # tl (segments cs))"

definition clean_push :: "string \<Rightarrow> string list \<Rightarrow> string list" where
  "clean_push seg st =
     (if seg = [] \<or> seg = ''.'' then st
      else if seg = ''..'' then butlast st
      else st @ [seg])"

text \<open>\<open>path.Clean\<close> on a path that begins with a slash.\<close>

definition path_Clean :: "string \<Rightarrow> string" where
  "path_Clean p =
     (let ss = fold clean_push (segments p) [] in
      if ss = [] then ''/'' else concat (map (Cons CHR ''/'') ss))"

definition cleanPath :: "string \<Rightarrow> string" where
  "cleanPath p0 =
     (if p0 = [] then ''/''
      else let p = (if hd p0 \<noteq> CHR ''/'' then CHR ''/'' # p0 else p0);
               np = path_Clean p
           in if last p = CHR ''/'' \<and> np \<noteq> ''/'' then np @ ''/'' else np)"

section \<open>Escaping and its inverse\<close>

lemma unhex_upperhex [codec_simps]: "d < 16 \<Longrightarrow> unhex (upperhex d) = Some d"
  by (auto simp: unhex_def upperhex_def Let_def)

lemma nibbles [codec_simps]: "char_of (16 * (byte c div 16) + byte c mod 16) = c"
  by (simp add: mult.commute)

lemma nibble_bounds: "byte c div 16 < 16" "byte c mod 16 < 16"
proof -
  have "byte c < 256" by simp
  then show "byte c div 16 < 16" by (simp add: div_less_iff_less_mult)
qed simp

lemma escape_byte_unreserved: "\<not> shouldEscape mode c \<Longrightarrow> escape_byte mode c = [c]"
  by (simp add: escape_byte_def)

lemma shouldEscape_percent [simp]: "shouldEscape mode CHR ''%''"
  by (simp add: shouldEscape_def alphanum_def)

lemma unescape_escape_byte: "unescape (escape_byte mode c @ s) = map_option (Cons c) (unescape s)"
proof (cases "shouldEscape mode c")
  case True
  then show ?thesis using nibble_bounds [of c] by (simp add: escape_byte_def codec_simps)
next
  case False
  moreover from this have "c \<noteq> CHR ''%''" by (metis shouldEscape_percent)
  ultimately show ?thesis by (simp add: escape_byte_def)
qed

lemma escape_simps [simp]:
  "escape mode [] = []" "escape mode (c # s) = escape_byte mode c @ escape mode s"
  "escape mode (s @ t) = escape mode s @ escape mode t"
  by (simp_all add: escape_def)

lemma unescape_escape: "unescape (escape mode s) = Some s"
  by (induction s) (simp_all add: unescape_escape_byte)

lemma unescape_append_escape:
  "unescape (escape mode s @ t) = map_option (\<lambda>r. s @ r) (unescape t)"
  by (cases "unescape t"; induction s) (simp_all add: unescape_escape_byte)

lemma unescape_plain: "CHR ''%'' \<notin> set s \<Longrightarrow> unescape s = Some s"
  by (induction s) auto

lemma unescape_plain_append: "CHR ''%'' \<notin> set s \<Longrightarrow> unescape (s @ t) = map_option (\<lambda>r. s @ r) (unescape t)"
  by (cases "unescape t"; induction s) auto

section \<open>Paths\<close>

lemma segments_Nil [simp]: "segments s \<noteq> []"
  by (cases s) auto

lemma segments_append: "CHR ''/'' \<notin> set s \<Longrightarrow> segments (s @ CHR ''/'' # t) = s # segments t"
  by (induction s) auto

lemma segments_single: "CHR ''/'' \<notin> set s \<Longrightarrow> segments s = [s]"
  by (induction s) auto

lemma upperhex_alphanum: "d < 16 \<Longrightarrow> alphanum (upperhex d)"
  by (auto simp: alphanum_def upperhex_def Let_def)

lemma alphanum_no_escape: "alphanum c \<Longrightarrow> \<not> shouldEscape mode c"
  by (simp add: shouldEscape_def)

lemma PathEscape_chars:
  "c \<in> set (PathEscape s) \<Longrightarrow> c = CHR ''%'' \<or> \<not> shouldEscape encodePathSegment c"
proof -
  assume "c \<in> set (PathEscape s)"
  then obtain d where "c \<in> set (escape_byte encodePathSegment d)"
    by (auto simp: PathEscape_def escape_def)
  then show ?thesis
    using nibble_bounds [of d] upperhex_alphanum alphanum_no_escape
    by (auto simp: escape_byte_def split: if_splits)
qed

lemma PathEscape_no_slash: "CHR ''/'' \<notin> set (PathEscape s)"
proof
  assume "CHR ''/'' \<in> set (PathEscape s)"
  from PathEscape_chars [OF this] show False by (simp add: shouldEscape_def alphanum_def)
qed

lemma segment_path: "\<not> shouldEscape encodePathSegment c \<Longrightarrow> \<not> shouldEscape encodePath c"
  by (auto simp: shouldEscape_def split: if_splits)

lemma PathEscape_validEncoded: "validEncoded encodePath (PathEscape s)"
  using PathEscape_chars segment_path by (fastforce simp: validEncoded_def list_all_iff)

lemma PathUnescape_PathEscape: "PathUnescape (PathEscape s) = Some s"
  by (simp add: PathEscape_def PathUnescape_def unescape_escape)

lemma PathEscape_inject: "PathEscape s = PathEscape t \<longleftrightarrow> s = t"
  by (metis PathUnescape_PathEscape option.inject)

lemma PathEscape_unreserved:
  "list_all (\<lambda>c. \<not> shouldEscape encodePathSegment c) s \<Longrightarrow> PathEscape s = s"
  by (induction s) (simp_all add: PathEscape_def escape_byte_unreserved)

lemma PathEscape_dots: "PathEscape [] = []" "PathEscape ''.'' = ''.''" "PathEscape ''..'' = ''..''"
  by (simp_all add: PathEscape_unreserved shouldEscape_def)

text \<open>A path whose escapes are well-formed and whose other characters need none is its own escaped path.\<close>

lemma EscapedPath_setPath:
  assumes "setPath p u = Some u'" and "validEncoded encodePath p" and "HasPrefix p ''/''"
  shows "EscapedPath u' = p"
proof -
  from assms(1) obtain path where path: "unescape p = Some path"
    and u': "url_Path u' = path" "url_RawPath u' = (if p = escape encodePath path then [] else p)"
    by (auto simp: setPath_def split: option.splits)
  from assms(3) obtain q where q: "p = CHR ''/'' # q"
    by (cases p) (auto simp: HasPrefix_def)
  with path have "path \<noteq> ''*''" by (auto)
  with path u' assms(2) q show ?thesis by (auto simp: EscapedPath_def)
qed

end
