(* ===== verification/Json.thy ===== *)
theory Json
  imports Types
begin

text \<open>
  Go's \<open>encoding/json\<close> as the HTTP publish endpoint uses it: \<open>json.Marshal\<close> of the request
  structure, and \<open>Decoder.Decode\<close> into it.

  The decoder is the library's byte-driven scanner with its stack of open objects and arrays; it
  reads one value and does not look at what follows it.  The value it recognises is then stored into
  the structure: keys match the field name without regard to case, a \<open>null\<close> leaves an element as
  it is, and an array is stored over the slice of an earlier occurrence of the key.
\<close>

section \<open>Encoding\<close>

definition lowerhex :: "nat \<Rightarrow> char" where
  "lowerhex d = (if d < 10 then char_of (48 + d) else char_of (87 + d))"

definition backslash :: char where
  "backslash = CHR 0x5C"

definition quote :: char where
  "quote = CHR 0x22"

definition htmlSafe :: "nat \<Rightarrow> bool" where
  "htmlSafe b \<longleftrightarrow> 32 \<le> b \<and> b < 128 \<and> b \<noteq> 34 \<and> b \<noteq> 38 \<and> b \<noteq> 60 \<and> b \<noteq> 62 \<and> b \<noteq> 92"

text \<open>What stands for an ASCII byte inside a string literal.\<close>

definition json_byte :: "char \<Rightarrow> string" where
  "json_byte c =
     (let b = byte c in
      if htmlSafe b then [c]
      else if b = 34 \<or> b = 92 then [backslash, c]
      else if b = 8 then [backslash, CHR ''b'']
      else if b = 12 then [backslash, CHR ''f'']
      else if b = 10 then [backslash, CHR ''n'']
      else if b = 13 then [backslash, CHR ''r'']
      else if b = 9 then [backslash, CHR ''t'']
      else backslash # ''u00'' @ [lowerhex (b div 16), lowerhex (b mod 16)])"

function json_body :: "string \<Rightarrow> string" where
  "json_body s =
     (case s of
        [] \<Rightarrow> []
      | c # cs \<Rightarrow>
          if byte c < 128 then json_byte c @ json_body cs
          else (let (r, n) = DecodeRune s in
                (if r = RuneError \<and> n = 1 then backslash # ''ufffd''
                 else if r = 8232 \<or> r = 8233 then backslash # ''u202'' @ [lowerhex (r mod 16)]
                 else take n s)
                @ json_body (drop n s)))"
  by pat_completeness auto
termination
proof (relation "measure length")
  fix s cs :: string and c x r n
  assume "s = c # cs" "x = DecodeRune s" "(r, n) = x"
  then show "(drop n s, s) \<in> measure length"
    using DecodeRune_size [of s] by (metis diff_less in_measure length_drop length_greater_0_conv
      less_le_trans list.distinct(1) snd_conv zero_less_one)
qed auto

declare json_body.simps [simp del]

definition json_string :: "string \<Rightarrow> string" where
  "json_string s = quote # json_body s @ [quote]"

section \<open>Scanning\<close>

datatype json =
    JNull
  | JBool bool
  | JNum
  | JStr string
  | JArr "json list"
  | JObj "(string \<times> json) list"

text \<open>The open arrays and objects: \<open>FKey\<close> where a key is next, \<open>FVal\<close> where its value is.\<close>

datatype frame =
    FArr "json list"
  | FKey "(string \<times> json) list"
  | FVal "(string \<times> json) list" string

text \<open>The step functions of the scanner, with the part of a string literal read so far.\<close>

datatype scan_state =
    BeginValue | BeginValueOrEmpty | BeginString | BeginStringOrEmpty
  | InString string | InStringEsc string | InStringEscU nat string
  | Neg | State1 | State0 | Dot | Dot0 | StateE | StateESign | StateE0
  | Lit string json
  | EndValue json

datatype scan_result = Next scan_state "frame list" | Done json | Bad

definition maxNestingDepth :: nat where
  "maxNestingDepth = 10000"

definition is_space :: "char \<Rightarrow> bool" where
  "is_space c \<longleftrightarrow> byte c = 32 \<or> byte c = 9 \<or> byte c = 13 \<or> byte c = 10"

definition digit :: "char \<Rightarrow> bool" where
  "digit c \<longleftrightarrow> 48 \<le> byte c \<and> byte c \<le> 57"

definition hex_value :: "char \<Rightarrow> nat option" where
  "hex_value c =
     (let b = byte c in
      if 48 \<le> b \<and> b \<le> 57 then Some (b - 48)
      else if 97 \<le> b \<and> b \<le> 102 then Some (b - 87)
      else if 65 \<le> b \<and> b \<le> 70 then Some (b - 55)
      else None)"

subsection \<open>String literals\<close>

text \<open>The rune of a \<open>uXXXX\<close> escape at the front of a literal, without its backslash.\<close>

definition getu4 :: "string \<Rightarrow> nat option" where
  "getu4 s =
     (case s of
        b # u # h1 # h2 # h3 # h4 # _ \<Rightarrow>
          if b = backslash \<and> u = CHR ''u'' then
            (case (hex_value h1, hex_value h2, hex_value h3, hex_value h4) of
               (Some d1, Some d2, Some d3, Some d4) \<Rightarrow> Some (d1 * 4096 + d2 * 256 + d3 * 16 + d4)
             | _ \<Rightarrow> None)
          else None
      | _ \<Rightarrow> None)"

text \<open>\<open>utf16.DecodeRune\<close>, on two halves of a surrogate pair.\<close>

definition surrogate_pair :: "nat \<Rightarrow> nat option \<Rightarrow> nat option" where
  "surrogate_pair r1 r2 =
     (case r2 of
        Some r \<Rightarrow>
          if 55296 \<le> r1 \<and> r1 < 56320 \<and> 56320 \<le> r \<and> r < 57344
          then Some ((r1 - 55296) * 1024 + (r - 56320) + 65536) else None
      | None \<Rightarrow> None)"

text \<open>The escape at the front of \<open>s\<close>: what it stands for, and its length.\<close>

definition unquote_escape :: "string \<Rightarrow> string \<times> nat" where
  "unquote_escape s =
     (let c = s ! 1 in
      if c = quote \<or> c = backslash \<or> c = CHR ''/'' then ([c], 2)
      else if c = CHR ''b'' then ([char_of (8::nat)], 2)
      else if c = CHR ''f'' then ([char_of (12::nat)], 2)
      else if c = CHR ''n'' then ([char_of (10::nat)], 2)
      else if c = CHR ''r'' then ([char_of (13::nat)], 2)
      else if c = CHR ''t'' then ([char_of (9::nat)], 2)
      else case getu4 s of
             None \<Rightarrow> ([], 2)
           | Some r \<Rightarrow>
               if 55296 \<le> r \<and> r < 57344 then
                 (case surrogate_pair r (getu4 (drop 6 s)) of
                    Some dec \<Rightarrow> (fmt_c dec, 12)
                  | None \<Rightarrow> (fmt_c RuneError, 6))
               else (fmt_c r, 6))"

lemma unquote_escape_size: "2 \<le> snd (unquote_escape s)"
  by (simp add: unquote_escape_def Let_def split: option.split)

text \<open>
  The bytes of a literal, given what stands between its quotes.  The scanner lets only complete
  escapes through.
\<close>

function unquote :: "string \<Rightarrow> string" where
  "unquote s =
     (case s of
        [] \<Rightarrow> []
      | c # cs \<Rightarrow>
          if c = backslash then
            (let (out, n) = unquote_escape s in out @ unquote (drop n s))
          else if byte c < 128 then c # unquote cs
          else (let (r, n) = DecodeRune s in fmt_c r @ unquote (drop n s)))"
  by pat_completeness auto
termination
proof (relation "measure length")
  fix s cs :: string and c x out n
  assume "s = c # cs" "x = unquote_escape s" "(out, n) = x"
  then show "(drop n s, s) \<in> measure length"
    using unquote_escape_size [of s] by (metis diff_less in_measure length_drop length_greater_0_conv
      less_le_trans list.distinct(1) snd_conv zero_less_numeral)
next
  fix s cs :: string and c x r n
  assume "s = c # cs" "x = DecodeRune s" "(r, n) = x"
  then show "(drop n s, s) \<in> measure length"
    using DecodeRune_size [of s] by (metis diff_less in_measure length_drop length_greater_0_conv
      less_le_trans list.distinct(1) snd_conv zero_less_one)
qed auto

declare unquote.simps [simp del]

subsection \<open>The scanner\<close>

text \<open>An object or array is complete: at the top level that is the end of the value.\<close>

definition close_value :: "json \<Rightarrow> frame list \<Rightarrow> scan_result" where
  "close_value v stack = (if stack = [] then Done v else Next (EndValue v) stack)"

definition push_frame :: "scan_state \<Rightarrow> frame \<Rightarrow> frame list \<Rightarrow> scan_result" where
  "push_frame st f stack = (if length stack < maxNestingDepth then Next st (f # stack) else Bad)"

definition end_value :: "json \<Rightarrow> frame list \<Rightarrow> char \<Rightarrow> scan_result" where
  "end_value v stack c =
     (case stack of
        [] \<Rightarrow> Done v
      | f # st \<Rightarrow>
          if is_space c then Next (EndValue v) stack
          else (case f of
                  FKey ps \<Rightarrow>
                    (case v of
                       JStr k \<Rightarrow> if c = CHR '':'' then Next BeginValue (FVal ps k # st) else Bad
                     | _ \<Rightarrow> Bad)
                | FVal ps k \<Rightarrow>
                    if c = CHR '','' then Next BeginString (FKey (ps @ [(k, v)]) # st)
                    else if c = CHR ''}'' then close_value (JObj (ps @ [(k, v)])) st
                    else Bad
                | FArr vs \<Rightarrow>
                    if c = CHR '','' then Next BeginValue (FArr (vs @ [v]) # st)
                    else if c = CHR '']'' then close_value (JArr (vs @ [v])) st
                    else Bad))"

definition begin_value :: "frame list \<Rightarrow> char \<Rightarrow> scan_result" where
  "begin_value stack c =
     (if is_space c then Next BeginValue stack
      else if c = CHR ''{'' then push_frame BeginStringOrEmpty (FKey []) stack
      else if c = CHR ''['' then push_frame BeginValueOrEmpty (FArr []) stack
      else if c = quote then Next (InString []) stack
      else if c = CHR ''-'' then Next Neg stack
      else if c = CHR ''0'' then Next State0 stack
      else if c = CHR ''t'' then Next (Lit ''rue'' (JBool True)) stack
      else if c = CHR ''f'' then Next (Lit ''alse'' (JBool False)) stack
      else if c = CHR ''n'' then Next (Lit ''ull'' JNull) stack
      else if digit c then Next State1 stack
      else Bad)"

definition begin_string :: "frame list \<Rightarrow> char \<Rightarrow> scan_result" where
  "begin_string stack c =
     (if is_space c then Next BeginString stack
      else if c = quote then Next (InString []) stack
      else Bad)"

text \<open>After the integer part of a number, and after its fraction.\<close>

definition number_exp :: "frame list \<Rightarrow> char \<Rightarrow> scan_result" where
  "number_exp stack c =
     (if c = CHR ''e'' \<or> c = CHR ''E'' then Next StateE stack else end_value JNum stack c)"

definition number_frac :: "frame list \<Rightarrow> char \<Rightarrow> scan_result" where
  "number_frac stack c = (if c = CHR ''.'' then Next Dot stack else number_exp stack c)"

fun json_step :: "scan_state \<Rightarrow> frame list \<Rightarrow> char \<Rightarrow> scan_result" where
  "json_step BeginValue stack c = begin_value stack c"
| "json_step BeginValueOrEmpty stack c =
     (if is_space c then Next BeginValueOrEmpty stack
      else if c = CHR '']'' then close_value (JArr []) (tl stack)
      else begin_value stack c)"
| "json_step BeginString stack c = begin_string stack c"
| "json_step BeginStringOrEmpty stack c =
     (if is_space c then Next BeginStringOrEmpty stack
      else if c = CHR ''}'' then close_value (JObj []) (tl stack)
      else begin_string stack c)"
| "json_step (InString raw) stack c =
     (if c = quote then Next (EndValue (JStr (unquote raw))) stack
      else if c = backslash then Next (InStringEsc (raw @ [c])) stack
      else if byte c < 32 then Bad
      else Next (InString (raw @ [c])) stack)"
| "json_step (InStringEsc raw) stack c =
     (if c \<in> set ''bfnrt/'' \<or> c = backslash \<or> c = quote then Next (InString (raw @ [c])) stack
      else if c = CHR ''u'' then Next (InStringEscU 4 (raw @ [c])) stack
      else Bad)"
| "json_step (InStringEscU n raw) stack c =
     (if hex_value c = None then Bad
      else if n \<le> 1 then Next (InString (raw @ [c])) stack
      else Next (InStringEscU (n - 1) (raw @ [c])) stack)"
| "json_step Neg stack c =
     (if c = CHR ''0'' then Next State0 stack else if digit c then Next State1 stack else Bad)"
| "json_step State1 stack c = (if digit c then Next State1 stack else number_frac stack c)"
| "json_step State0 stack c = number_frac stack c"
| "json_step Dot stack c = (if digit c then Next Dot0 stack else Bad)"
| "json_step Dot0 stack c = (if digit c then Next Dot0 stack else number_exp stack c)"
| "json_step StateE stack c =
     (if c = CHR ''+'' \<or> c = CHR ''-'' then Next StateESign stack
      else if digit c then Next StateE0 stack else Bad)"
| "json_step StateESign stack c = (if digit c then Next StateE0 stack else Bad)"
| "json_step StateE0 stack c = (if digit c then Next StateE0 stack else end_value JNum stack c)"
| "json_step (Lit rest v) stack c =
     (case rest of
        [] \<Rightarrow> Bad
      | x # xs \<Rightarrow>
          if c \<noteq> x then Bad
          else if xs = [] then Next (EndValue v) stack
          else Next (Lit xs v) stack)"
| "json_step (EndValue v) stack c = end_value v stack c"

text \<open>At the end of the input the scanner is given one more space.\<close>

fun json_scan :: "scan_state \<Rightarrow> frame list \<Rightarrow> string \<Rightarrow> json option" where
  "json_scan st stack [] =
     (case json_step st stack CHR '' '' of Done v \<Rightarrow> Some v | _ \<Rightarrow> None)"
| "json_scan st stack (c # cs) =
     (case json_step st stack c of
        Done v \<Rightarrow> Some v
      | Bad \<Rightarrow> None
      | Next st' stack' \<Rightarrow> json_scan st' stack' cs)"

definition json_value :: "string \<Rightarrow> json option" where
  "json_value s = json_scan BeginValue [] s"

section \<open>The request structure\<close>

text \<open>
  \<open>foldName\<close>: the runes a name is compared by.  Besides the lower-case letters two runes fold to an
  ASCII letter, the long s and the Kelvin sign.
\<close>

definition json_fold :: "nat \<Rightarrow> nat" where
  "json_fold r = (if 97 \<le> r \<and> r \<le> 122 then r - 32 else if r = 383 then 83 else if r = 8490 then 75 else r)"

definition field_named :: "string \<Rightarrow> string \<Rightarrow> bool" where
  "field_named name key \<longleftrightarrow> map json_fold (runes key) = map json_fold (runes name)"

text \<open>
  A slice of strings being decoded into: its backing store, of which the first \<open>n\<close> elements are the
  slice.  The flag is false once a value of the wrong type was met.
\<close>

type_synonym slice = "bool \<times> string list \<times> nat"

fun store_elems :: "nat \<Rightarrow> json list \<Rightarrow> bool \<times> string list \<Rightarrow> bool \<times> string list" where
  "store_elems i [] st = st"
| "store_elems i (v # vs) (ok, store) =
     (let old = (if i < length store then store ! i else []);
          (fits, new) = (case v of JStr s \<Rightarrow> (True, s) | JNull \<Rightarrow> (True, old) | _ \<Rightarrow> (False, old))
      in store_elems (Suc i) vs
           (ok \<and> fits, if i < length store then store[i := new] else store @ [new]))"

definition store_slice :: "json \<Rightarrow> slice \<Rightarrow> slice" where
  "store_slice v sl =
     (case sl of (ok, store, n) \<Rightarrow>
        (case v of
           JNull \<Rightarrow> (ok, [], 0)
         | JArr vs \<Rightarrow>
             if vs = [] then (ok, [], 0)
             else (let (ok', store') = store_elems 0 vs (ok, store) in (ok', store', length vs))
         | _ \<Rightarrow> (False, store, n)))"

definition store_field :: "string \<Rightarrow> string \<times> json \<Rightarrow> slice \<Rightarrow> slice" where
  "store_field name kv sl = (if field_named name (fst kv) then store_slice (snd kv) sl else sl)"

text \<open>\<open>Decode\<close> into a structure with one field of type \<open>[]string\<close>; \<open>None\<close> is an error.\<close>

definition Decode :: "string \<Rightarrow> string \<Rightarrow> string list option" where
  "Decode name body =
     (case json_value body of
        Some JNull \<Rightarrow> Some []
      | Some (JObj kvs) \<Rightarrow>
          (case fold (store_field name) kvs (True, [], 0) of
             (ok, store, n) \<Rightarrow> if ok then Some (take n store) else None)
      | _ \<Rightarrow> None)"

text \<open>\<open>json.Marshal\<close> of such a structure, whose slice is not \<open>nil\<close>.\<close>

fun json_strings :: "string list \<Rightarrow> string" where
  "json_strings [] = []"
| "json_strings [s] = json_string s"
| "json_strings (s # ss) = json_string s @ '','' @ json_strings ss"

definition Marshal :: "string \<Rightarrow> string list \<Rightarrow> string" where
  "Marshal name ss = ''{'' @ json_string name @ '':['' @ json_strings ss @ '']}''"

section \<open>Round trip\<close>

lemma hex_value_lowerhex [codec_simps]: "d < 16 \<Longrightarrow> hex_value (lowerhex d) = Some d"
  by (auto simp: hex_value_def lowerhex_def Let_def)

lemma byte_special: "c = quote \<longleftrightarrow> byte c = 34" "c = backslash \<longleftrightarrow> byte c = 92"
  by (auto simp: quote_def backslash_def simp flip: byte_eq_iff)

lemma special_distinct [simp]: "quote \<noteq> backslash" "backslash \<noteq> quote"
  by (simp_all add: quote_def backslash_def)

lemma ascii_nibbles: "byte c < 128 \<Longrightarrow> byte c div 16 < 16 \<and> byte c mod 16 < 16"
  by simp

text \<open>The forms \<open>json_byte\<close> takes.\<close>

lemma json_byte_cases [consumes 1, case_names plain quoted short unicode]:
  assumes "byte c < 128"
  obtains (plain) "json_byte c = [c]" "32 \<le> byte c" "c \<noteq> quote" "c \<noteq> backslash"
    | (quoted) "json_byte c = [backslash, c]" "c = quote \<or> c = backslash"
    | (short) e where "json_byte c = [backslash, e]"
        "(e, byte c) \<in> {(CHR ''b'', 8), (CHR ''f'', 12), (CHR ''n'', 10), (CHR ''r'', 13), (CHR ''t'', 9)}"
    | (unicode) "json_byte c = backslash # ''u00'' @ [lowerhex (byte c div 16), lowerhex (byte c mod 16)]"
proof (cases "htmlSafe (byte c)")
  case True
  then show ?thesis by (intro plain) (auto simp: json_byte_def htmlSafe_def byte_special)
next
  case False
  consider "byte c = 34 \<or> byte c = 92" | "byte c \<in> {8, 12, 10, 13, 9}"
    | "byte c \<noteq> 34" "byte c \<noteq> 92" "byte c \<notin> {8, 12, 10, 13, 9}" by blast
  then show ?thesis
  proof cases
    case 1
    with False show ?thesis by (intro quoted) (auto simp: json_byte_def byte_special)
  next
    case 2
    with False show ?thesis by (elim insertE emptyE; intro short) (auto simp: json_byte_def)
  next
    case 3
    with False show ?thesis by (intro unicode) (auto simp: json_byte_def Let_def)
  qed
qed

lemma json_scan_byte:
  assumes "byte c < 128"
  shows "json_scan (InString raw) stack (json_byte c @ cs) = json_scan (InString (raw @ json_byte c)) stack cs"
  using assms
proof (cases rule: json_byte_cases)
  case quoted
  then show ?thesis by auto
next
  case (short e)
  then show ?thesis by auto
next
  case unicode
  have "hex_value CHR ''0'' = Some 0" by (simp add: hex_value_def)
  with unicode ascii_nibbles [OF assms] show ?thesis by (simp add: codec_simps backslash_def quote_def)
qed (simp add: byte_special)

lemma unquote_Nil [simp]: "unquote [] = []"
  by (simp add: unquote.simps)

lemma unquote_plain: "c \<noteq> backslash \<Longrightarrow> byte c < 128 \<Longrightarrow> unquote (c # s) = c # unquote s"
  by (subst unquote.simps) simp

lemma unquote_backslash:
  "unquote_escape (backslash # s) = (out, n) \<Longrightarrow> unquote (backslash # s) = out @ unquote (drop n (backslash # s))"
  by (subst unquote.simps) simp

lemma fmt_c_ascii: "byte c < 128 \<Longrightarrow> fmt_c (byte c) = [c]"
  by (simp add: fmt_c_def)

lemma unquote_short:
  "(e, n) \<in> {(CHR ''b'', 8), (CHR ''f'', 12), (CHR ''n'', 10), (CHR ''r'', 13), (CHR ''t'', 9)} \<Longrightarrow>
   unquote_escape (backslash # e # s) = ([char_of (n::nat)], 2)"
  by (auto simp: unquote_escape_def quote_def backslash_def)

lemma unquote_byte:
  assumes "byte c < 128"
  shows "unquote (json_byte c @ s) = c # unquote s"
  using assms
proof (cases rule: json_byte_cases)
  case plain
  with assms show ?thesis by (simp add: unquote_plain)
next
  case quoted
  then have "unquote_escape (backslash # c # s) = ([c], 2)" by (auto simp: unquote_escape_def)
  with quoted show ?thesis by (simp add: unquote_backslash numeral_2_eq_2)
next
  case (short e)
  then have "unquote_escape (backslash # e # s) = ([char_of (byte c)], 2)" by (intro unquote_short)
  with short show ?thesis by (simp add: unquote_backslash numeral_2_eq_2)
next
  case unicode
  let ?t = "''u00'' @ [lowerhex (byte c div 16), lowerhex (byte c mod 16)] @ s"
  have z: "hex_value CHR ''0'' = Some 0" by (simp add: hex_value_def)
  have "getu4 (backslash # ?t) = Some (byte c)"
    using ascii_nibbles [OF assms] z by (simp add: getu4_def codec_simps)
  then have "unquote_escape (backslash # ?t) = ([c], 6)"
    using assms by (simp add: unquote_escape_def) (simp add: quote_def backslash_def fmt_c_ascii)
  from unquote_backslash [OF this] unicode show ?thesis by simp
qed

lemma json_body_Nil [simp]: "json_body [] = []"
  by (simp add: json_body.simps)

lemma json_body_ascii: "byte c < 128 \<Longrightarrow> json_body (c # s) = json_byte c @ json_body s"
  by (subst json_body.simps) simp

lemma json_scan_body:
  "is_ascii s \<Longrightarrow>
   json_scan (InString raw) stack (json_body s @ cs) = json_scan (InString (raw @ json_body s)) stack cs"
  by (induction s arbitrary: raw) (auto simp: is_ascii_def json_body_ascii json_scan_byte)

lemma unquote_body: "is_ascii s \<Longrightarrow> unquote (json_body s) = s"
  by (induction s) (auto simp: is_ascii_def json_body_ascii unquote_byte)

text \<open>A printed string literal is scanned as that string, wherever a value or a key may stand.\<close>

lemma not_space: "\<not> is_space quote" "\<not> is_space CHR ''{''" "\<not> is_space CHR ''[''" "\<not> is_space CHR '']''"
  "\<not> is_space CHR '':''" "\<not> is_space CHR '',''" "\<not> is_space CHR ''}''"
  by (simp_all add: is_space_def quote_def)

lemma quote_other: "quote \<noteq> CHR ''{''" "quote \<noteq> CHR ''[''" "quote \<noteq> CHR '']''" "quote \<noteq> CHR ''}''"
  by (simp_all add: quote_def)

lemma json_scan_string:
  assumes "is_ascii s" and "st \<in> {BeginValue, BeginValueOrEmpty, BeginString, BeginStringOrEmpty}"
  shows "json_scan st stack (json_string s @ cs) = json_scan (EndValue (JStr s)) stack cs"
proof -
  have "json_step st stack quote = Next (InString []) stack"
    using assms(2) by (auto simp: begin_value_def begin_string_def not_space quote_other)
  then show ?thesis
    by (simp add: json_string_def json_scan_body [OF assms(1)] unquote_body [OF assms(1)])
qed

lemma json_scan_strings:
  assumes "list_all is_ascii ss" and "ss \<noteq> []" and "st \<in> {BeginValue, BeginValueOrEmpty}"
  shows "json_scan st (FArr vs # stack) (json_strings ss @ CHR '']'' # cs) =
    (case close_value (JArr (vs @ map JStr ss)) stack of
       Done v \<Rightarrow> Some v | Bad \<Rightarrow> None | Next st' stack' \<Rightarrow> json_scan st' stack' cs)"
  using assms
proof (induction ss arbitrary: st vs rule: json_strings.induct)
  case (2 s)
  then have "json_scan st (FArr vs # stack) (json_string s @ CHR '']'' # cs) =
      json_scan (EndValue (JStr s)) (FArr vs # stack) (CHR '']'' # cs)"
    by (intro json_scan_string) auto
  then show ?case by (simp add: end_value_def not_space)
next
  case (3 s s' ss)
  let ?rest = "json_strings (s' # ss) @ CHR '']'' # cs"
  from 3 have "json_scan st (FArr vs # stack) (json_string s @ CHR '','' # ?rest) =
      json_scan (EndValue (JStr s)) (FArr vs # stack) (CHR '','' # ?rest)"
    by (intro json_scan_string) auto
  also have "\<dots> = json_scan BeginValue (FArr (vs @ [JStr s]) # stack) ?rest"
    by (simp add: end_value_def not_space)
  finally show ?case using 3 by simp
qed simp

lemma json_value_Marshal:
  assumes "is_ascii name" and "list_all is_ascii ss"
  shows "json_value (Marshal name ss) = Some (JObj [(name, JArr (map JStr ss))])"
proof -
  let ?arr = "json_strings ss @ CHR '']'' # ''}''"
  have depth: "(0::nat) < maxNestingDepth" "Suc 0 < maxNestingDepth" by (simp_all add: maxNestingDepth_def)
  have "json_value (Marshal name ss) = json_scan BeginStringOrEmpty [FKey []] (json_string name @ CHR '':'' # ''['' @ ?arr)"
    by (simp add: json_value_def Marshal_def begin_value_def push_frame_def not_space depth)
  also have "\<dots> = json_scan (EndValue (JStr name)) [FKey []] (CHR '':'' # ''['' @ ?arr)"
    using assms(1) by (intro json_scan_string) auto
  also have "\<dots> = json_scan BeginValueOrEmpty [FArr [], FVal [] name] ?arr"
    by (simp add: end_value_def begin_value_def push_frame_def not_space depth)
  also have "\<dots> = Some (JObj [(name, JArr (map JStr ss))])"
  proof (cases "ss = []")
    case True
    then show ?thesis by (simp add: close_value_def end_value_def not_space)
  next
    case False
    from json_scan_strings [OF assms(2) this, of BeginValueOrEmpty "[]" "[FVal [] name]" "''}''"] show ?thesis
      by (simp add: close_value_def end_value_def not_space)
  qed
  finally show ?thesis .
qed

lemma store_elems_strings:
  "store_elems (length store) (map JStr ss) (ok, store) = (ok, store @ ss)"
proof (induction ss arbitrary: store)
  case (Cons s ss)
  from Cons [of "store @ [s]"] show ?case by simp
qed simp

text \<open>Decoding what \<open>json.Marshal\<close> has printed gives the strings back.\<close>

lemma Decode_Marshal:
  assumes "is_ascii name" and "list_all is_ascii ss"
  shows "Decode name (Marshal name ss) = Some ss"
proof (cases "ss = []")
  case True
  with json_value_Marshal [OF assms] show ?thesis
    by (simp add: Decode_def store_field_def field_named_def store_slice_def)
next
  case False
  with json_value_Marshal [OF assms] store_elems_strings [of "[]" ss True] show ?thesis
    by (simp add: Decode_def store_field_def field_named_def store_slice_def)
qed

end
