(* ===== verification/Base64.thy ===== *)
theory Base64
  imports Types
begin

text \<open>
  Go's \<open>base64.StdEncoding\<close>, which the SQS adapter and the HTTP endpoint use for message bodies: encoding with padding, and
  the decoder as the library has it, with its treatment of line breaks, padding and trailing data
  and with the input position its errors report.
\<close>

section \<open>The alphabet\<close>

definition b64_char :: "nat \<Rightarrow> char" where
  "b64_char d =
     (if d < 26 then char_of (65 + d)
      else if d < 52 then char_of (71 + d)
      else if d < 62 then char_of (d - 4)
      else if d = 62 then CHR ''+'' else CHR ''/'')"

definition b64_digit :: "char \<Rightarrow> nat option" where
  "b64_digit c =
     (let b = byte c in
      if 65 \<le> b \<and> b \<le> 90 then Some (b - 65)
      else if 97 \<le> b \<and> b \<le> 122 then Some (b - 71)
      else if 48 \<le> b \<and> b \<le> 57 then Some (b + 4)
      else if b = 43 then Some 62
      else if b = 47 then Some 63
      else None)"

definition b64_newline :: "char \<Rightarrow> bool" where
  "b64_newline c \<longleftrightarrow> byte c = 10 \<or> byte c = 13"

section \<open>Encoding\<close>

fun EncodeToString :: "bytes \<Rightarrow> string" where
  "EncodeToString [] = []"
| "EncodeToString [a] =
     (let v = byte a * 65536 in [b64_char (v div 262144 mod 64), b64_char (v div 4096 mod 64), CHR ''='', CHR ''=''])"
| "EncodeToString [a, b] =
     (let v = byte a * 65536 + byte b * 256 in
      [b64_char (v div 262144 mod 64), b64_char (v div 4096 mod 64), b64_char (v div 64 mod 64), CHR ''=''])"
| "EncodeToString (a # b # c # cs) =
     (let v = byte a * 65536 + byte b * 256 + byte c in
      b64_char (v div 262144 mod 64) # b64_char (v div 4096 mod 64) # b64_char (v div 64 mod 64) # b64_char (v mod 64)
        # EncodeToString cs)"

section \<open>Decoding\<close>

definition CorruptInputError :: "nat \<Rightarrow> error" where
  "CorruptInputError n = Msg (''illegal base64 data at input byte '' @ fmt_nat n)"

text \<open>The first \<open>n\<close> of the three bytes four digits stand for; digits not read count as zero.\<close>

definition quantum_of :: "nat \<Rightarrow> nat \<Rightarrow> bytes" where
  "quantum_of v n = take n [char_of (v div 65536 mod 256), char_of (v div 256 mod 256), char_of (v mod 256)]"

definition quantum :: "nat list \<Rightarrow> nat \<Rightarrow> bytes" where
  "quantum ds n =
     (let d = (\<lambda>i. if i < length ds then ds ! i else 0);
          v = d 0 * 262144 + d 1 * 4096 + d 2 * 64 + d 3
      in quantum_of v n)"

text \<open>What may follow the padding: nothing but line breaks.\<close>

definition b64_end :: "nat \<Rightarrow> string \<Rightarrow> bytes \<Rightarrow> error + bytes" where
  "b64_end si src out =
     (let rest = dropWhile b64_newline src in
      if rest = [] then Inr out else Inl (CorruptInputError (si + (length src - length rest))))"

text \<open>
  The decoder at input position \<open>si\<close>, with the digits \<open>ds\<close> of the current quantum and the rest \<open>src\<close> of
  the input.
\<close>

fun b64_decode :: "nat \<Rightarrow> nat list \<Rightarrow> string \<Rightarrow> error + bytes" where
  "b64_decode si ds [] = (if ds = [] then Inr [] else Inl (CorruptInputError (si - length ds)))"
| "b64_decode si ds (c # cs) =
     (case b64_digit c of
        Some d \<Rightarrow>
          (if length ds < 3 then b64_decode (si + 1) (ds @ [d]) cs
           else case b64_decode (si + 1) [] cs of
                  Inl e \<Rightarrow> Inl e
                | Inr out \<Rightarrow> Inr (quantum (ds @ [d]) 3 @ out))
      | None \<Rightarrow>
          if b64_newline c then b64_decode (si + 1) ds cs
          else if c \<noteq> CHR ''='' then Inl (CorruptInputError si)
          else if length ds < 2 then Inl (CorruptInputError si)
          else if length ds = 2 then
            (let rest = dropWhile b64_newline cs;
                 sj = si + 1 + (length cs - length rest) in
             case rest of
               [] \<Rightarrow> Inl (CorruptInputError sj)
             | p # rest' \<Rightarrow>
                 if p \<noteq> CHR ''='' then Inl (CorruptInputError (sj - 1))
                 else b64_end (sj + 1) rest' (quantum ds 1))
          else b64_end (si + 1) cs (quantum ds 2))"

definition DecodeString :: "string \<Rightarrow> error + bytes" where
  "DecodeString s = b64_decode 0 [] s"

section \<open>Facts\<close>

lemma b64_digit_char: "d < 64 \<Longrightarrow> b64_digit (b64_char d) = Some d"
  by (auto simp: b64_digit_def b64_char_def Let_def)

lemma b64_pad: "b64_digit CHR ''='' = None" "\<not> b64_newline CHR ''=''"
  by (simp_all add: b64_digit_def b64_newline_def)

lemma length_EncodeToString: "length (EncodeToString bs) = 4 * ((length bs + 2) div 3)"
proof (induction bs rule: EncodeToString.induct)
  case (4 a b c cs)
  have "(length (a # b # c # cs) + 2) div 3 = (length cs + 2) div 3 + 1"
    using div_add_self2 [of 3 "length cs + 2"] by simp
  with 4 show ?case by (simp add: Let_def)
qed (simp_all add: Let_def)

text \<open>The 24 bits of a quantum, split into digits and put together again.\<close>

lemma digits_value:
  fixes v :: nat
  assumes "v < 16777216"
  shows "v div 262144 mod 64 * 262144 + v div 4096 mod 64 * 4096 + v div 64 mod 64 * 64 + v mod 64 = v"
proof -
  have "v div 262144 mod 64 = v div 262144" using assms by simp
  moreover have "v div 4096 = v div 262144 * 64 + v div 4096 mod 64"
    using div_mult_mod_eq [of "v div 4096" 64] by (simp add: div_mult2_eq [of v 4096 64, simplified])
  moreover have "v div 64 = v div 4096 * 64 + v div 64 mod 64"
    using div_mult_mod_eq [of "v div 64" 64] by (simp add: div_mult2_eq [of v 64 64, simplified])
  moreover have "v = v div 64 * 64 + v mod 64" by simp
  ultimately show ?thesis by linarith
qed

lemma bytes_value:
  fixes a b c :: nat
  assumes "a < 256" "b < 256" "c < 256"
  shows "(a * 65536 + b * 256 + c) div 65536 mod 256 = a" "(a * 65536 + b * 256 + c) div 256 mod 256 = b"
    "(a * 65536 + b * 256 + c) mod 256 = c"
proof -
  have "(a * 65536 + b * 256 + c) div 65536 = a" using assms by simp
  then show "(a * 65536 + b * 256 + c) div 65536 mod 256 = a" using assms by simp
  have "(a * 65536 + b * 256 + c) div 256 = a * 256 + b" using assms by simp
  then show "(a * 65536 + b * 256 + c) div 256 mod 256 = b" using assms by simp
  show "(a * 65536 + b * 256 + c) mod 256 = c"
    using assms mod_mult_self3 [of "a * 256 + b" 256 c] by (simp add: algebra_simps)
qed

lemma byte_less [simp]: "byte c < 256"
  by simp

lemma quantum_digits:
  "quantum [d0, d1, d2, d3] n = quantum_of (d0 * 262144 + d1 * 4096 + d2 * 64 + d3) n"
  "quantum [d0, d1, d2] n = quantum_of (d0 * 262144 + d1 * 4096 + d2 * 64) n"
  "quantum [d0, d1] n = quantum_of (d0 * 262144 + d1 * 4096) n"
  by (simp_all add: quantum_def Let_def numeral_2_eq_2 numeral_3_eq_3)

lemma quantum_of_bytes:
  "quantum_of (byte a * 65536 + byte b * 256 + byte c) 3 = [a, b, c]"
  "quantum_of (byte a * 65536 + byte b * 256) 2 = [a, b]"
  "quantum_of (byte a * 65536) 1 = [a]"
  using bytes_value [of "byte a" "byte b" "byte c"] bytes_value [of "byte a" "byte b" 0] bytes_value [of "byte a" 0 0]
  by (simp_all add: quantum_of_def numeral_2_eq_2 numeral_3_eq_3)

text \<open>Four digits in a row make three bytes.\<close>

lemma b64_decode_quantum:
  assumes "d0 < 64" "d1 < 64" "d2 < 64" "d3 < 64"
  shows "b64_decode si [] (b64_char d0 # b64_char d1 # b64_char d2 # b64_char d3 # cs) =
    (case b64_decode (Suc (Suc (Suc (Suc si)))) [] cs of Inl e \<Rightarrow> Inl e | Inr out \<Rightarrow> Inr (quantum [d0, d1, d2, d3] 3 @ out))"
  using assms by (simp add: b64_digit_char split: sum.split)

lemma b64_decode_tail:
  "d0 < 64 \<Longrightarrow> d1 < 64 \<Longrightarrow> d2 < 64 \<Longrightarrow>
     b64_decode si [] [b64_char d0, b64_char d1, b64_char d2, CHR ''=''] = Inr (quantum [d0, d1, d2] 2)"
  "d0 < 64 \<Longrightarrow> d1 < 64 \<Longrightarrow>
     b64_decode si [] [b64_char d0, b64_char d1, CHR ''='', CHR ''=''] = Inr (quantum [d0, d1] 1)"
  by (simp_all add: b64_digit_char b64_pad b64_end_def)

lemma value_bounds: "byte a * 65536 + byte b * 256 + byte c < 16777216"
  using byte_less [of a] byte_less [of b] byte_less [of c] by linarith

lemma b64_decode_encode: "b64_decode si [] (EncodeToString bs) = Inr bs"
proof (induction bs arbitrary: si rule: EncodeToString.induct)
  case (2 a)
  let ?v = "byte a * 65536"
  have "?v = (byte a * 1024) * 64" by simp
  then have z: "?v mod 64 = 0" by (metis mod_mult_self2_is_0)
  have "?v div 64 = (byte a * 16) * 64" by simp
  then have "?v div 64 mod 64 = 0" by (metis mod_mult_self2_is_0)
  moreover have "?v < 16777216" using byte_less [of a] by linarith
  ultimately have "?v div 262144 mod 64 * 262144 + ?v div 4096 mod 64 * 4096 = ?v"
    using digits_value [of ?v] by (simp only: z mult_zero_left add_0_right)
  then have "quantum [?v div 262144 mod 64, ?v div 4096 mod 64] 1 = [a]"
    by (simp only: quantum_digits quantum_of_bytes)
  then show ?case
    by (simp only: EncodeToString.simps Let_def b64_decode_tail mod_less_divisor zero_less_numeral)
next
  case (3 a b)
  let ?v = "byte a * 65536 + byte b * 256"
  have "?v = (byte a * 1024 + byte b * 4) * 64" by simp
  then have "?v mod 64 = 0" by (metis mod_mult_self2_is_0)
  moreover have "?v < 16777216" using byte_less [of a] byte_less [of b] by linarith
  ultimately have "?v div 262144 mod 64 * 262144 + ?v div 4096 mod 64 * 4096 + ?v div 64 mod 64 * 64 = ?v"
    using digits_value [of ?v] by (simp only: add_0_right)
  then have "quantum [?v div 262144 mod 64, ?v div 4096 mod 64, ?v div 64 mod 64] 2 = [a, b]"
    by (simp only: quantum_digits quantum_of_bytes)
  then show ?case
    by (simp only: EncodeToString.simps Let_def b64_decode_tail mod_less_divisor zero_less_numeral)
next
  case (4 a b c cs)
  let ?v = "byte a * 65536 + byte b * 256 + byte c"
  have "quantum [?v div 262144 mod 64, ?v div 4096 mod 64, ?v div 64 mod 64, ?v mod 64] 3 = [a, b, c]"
    by (simp only: quantum_digits digits_value [OF value_bounds] quantum_of_bytes)
  then show ?case
    by (simp only: EncodeToString.simps Let_def b64_decode_quantum 4 mod_less_divisor zero_less_numeral sum.case append.simps)
qed simp

theorem DecodeString_EncodeToString: "DecodeString (EncodeToString bs) = Inr bs"
  by (simp add: DecodeString_def b64_decode_encode)

text \<open>The encoded text is printable ASCII.\<close>

lemma b64_char_range: "d < 64 \<Longrightarrow> 43 \<le> byte (b64_char d) \<and> byte (b64_char d) \<le> 122"
  by (auto simp: b64_char_def)

end
