(* ===== verification/HttpAdapter.thy ===== *)
theory HttpAdapter
  imports MemoryAdapter Url Json Base64
begin

text \<open>
  \<open>go/adapters/memory/http_adapter.go\<close>: the HTTP endpoint that publishes into an in-memory adapter,
  and the adapter that forwards its \<open>Publish\<close> calls to such an endpoint.

  A request is what the handler reads of it and a response what the client reads of it: the page a
  redirect carries for a browser is left out.  The handler is served by Go's \<open>http.ServeMux\<close>, whose
  cleaning of paths and redirects (release 1.24, the toolchain of the module) are part of the model.

  Protobuf is a parameter (\<open>marshal\<close>, \<open>unmarshal\<close>), and so is the HTTP client of the remote adapter,
  a function on requests and on a state \<open>'w\<close> of the world: \<open>WithHTTPClient\<close> lets a program supply its
  own.  \<open>client_Do\<close> is Go's client over a transport that serves each request in place, the one the
  repository's test supplies.
\<close>

section \<open>Requests and responses\<close>

record Request =
  req_Method :: string
  req_URL :: URL
  req_Header :: str_map
  req_Body :: bytes
  req_Context :: ctx

record Response =
  resp_StatusCode :: int
  resp_Location :: string
  resp_Body :: string

definition http_Error :: "string \<Rightarrow> int \<Rightarrow> Response" where
  "http_Error text code = \<lparr>resp_StatusCode = code, resp_Location = [], resp_Body = text @ [CHR 0x0A]\<rparr>"

definition NotFound :: Response where
  "NotFound = http_Error ''404 page not found'' 404"

definition NoContent :: Response where
  "NoContent = \<lparr>resp_StatusCode = 204, resp_Location = [], resp_Body = []\<rparr>"

section \<open>The publish endpoint\<close>

text \<open>The loop over \<open>req.Messages\<close>: the messages, or the text of the error response.\<close>

fun decode_payloads :: "(bytes \<Rightarrow> error + 'm) \<Rightarrow> nat \<Rightarrow> string list \<Rightarrow> string + 'm list" where
  "decode_payloads unmarshal i [] = Inr []"
| "decode_payloads unmarshal i (encoded # rest) =
     (case DecodeString encoded of
        Inl err \<Rightarrow> Inl (''invalid message '' @ fmt_nat i @ '' payload'')
      | Inr data \<Rightarrow>
     (case unmarshal data of
        Inl err \<Rightarrow> Inl (''invalid message '' @ fmt_nat i)
      | Inr msg \<Rightarrow>
     (case decode_payloads unmarshal (Suc i) rest of
        Inl text \<Rightarrow> Inl text
      | Inr messages \<Rightarrow> Inr (msg # messages))))"

definition handle_publish ::
  "(bytes \<Rightarrow> error + 'm) \<Rightarrow> Request \<Rightarrow> 'm MemAdapter \<Rightarrow> Response \<times> 'm MemAdapter" where
  "handle_publish unmarshal r a =
     (if req_Method r \<noteq> ''POST'' then (http_Error ''Method Not Allowed'' 405, a)
      else let (queueName, ok) = CutPrefix (url_Path (req_URL r)) ''/queues/'' in
      if \<not> ok \<or> \<not> HasSuffix queueName ''/messages'' then (NotFound, a)
      else case PathUnescape (TrimSuffix queueName ''/messages'') of
        None \<Rightarrow> (http_Error ''invalid queue name'' 400, a)
      | Some queueName \<Rightarrow>
     (case Decode ''messages'' (req_Body r) of
        None \<Rightarrow> (http_Error ''invalid request body'' 400, a)
      | Some encoded \<Rightarrow>
          if encoded = [] then (NoContent, a)
          else case decode_payloads unmarshal 0 encoded of
            Inl text \<Rightarrow> (http_Error text 400, a)
          | Inr messages \<Rightarrow>
         (case Publish (req_Context r) queueName messages a of
            (Some err, a') \<Rightarrow> (http_Error (''failed to publish: '' @ error_text err) 500, a')
          | (None, a') \<Rightarrow> (NoContent, a'))))"

section \<open>The multiplexer\<close>

definition mux_unescape :: "string \<Rightarrow> string" where
  "mux_unescape seg = (case PathUnescape seg of None \<Rightarrow> seg | Some s \<Rightarrow> s)"

text \<open>The only pattern is \<open>/queues/\<close>: a first segment \<open>queues\<close>, and a slash after it.\<close>

definition mux_matches :: "string \<Rightarrow> bool" where
  "mux_matches path \<longleftrightarrow>
     path \<noteq> [] \<and> path \<noteq> ''/'' \<and>
     mux_unescape (before CHR ''/'' (tl path)) = ''queues'' \<and> CHR ''/'' \<in> set (tl path)"

datatype route = Serve | Redirect string | Missing

definition mux_location :: "string \<Rightarrow> string \<Rightarrow> string" where
  "mux_location path query = escape encodePath path @ (if query = [] then [] else ''?'' @ query)"

definition mux_route :: "Request \<Rightarrow> route" where
  "mux_route r =
     (let escaped = EscapedPath (req_URL r);
          query = url_RawQuery (req_URL r);
          path = (if req_Method r = ''CONNECT'' then escaped else cleanPath escaped)
      in if path \<noteq> [] \<and> last path \<noteq> CHR ''/'' \<and> mux_matches (path @ ''/'') \<and> count_list (path @ ''/'') CHR ''/'' = 2
         then Redirect (mux_location (cleanPath (url_Path (req_URL r)) @ ''/'') query)
         else if path \<noteq> escaped then Redirect (mux_location path query)
         else if mux_matches path then Serve
         else Missing)"

definition NewPublishHandler ::
  "(bytes \<Rightarrow> error + 'm) \<Rightarrow> Request \<Rightarrow> 'm MemAdapter \<Rightarrow> Response \<times> 'm MemAdapter" where
  "NewPublishHandler unmarshal r a =
     (case mux_route r of
        Serve \<Rightarrow> handle_publish unmarshal r a
      | Redirect loc \<Rightarrow> (\<lparr>resp_StatusCode = 301, resp_Location = loc, resp_Body = []\<rparr>, a)
      | Missing \<Rightarrow> (NotFound, a))"

section \<open>The HTTP client\<close>

type_synonym 'w http_client = "Request \<Rightarrow> 'w \<Rightarrow> (error + Response) \<times> 'w"

text \<open>
  The request that follows a redirect to an absolute path: the method becomes \<open>GET\<close> and the body is
  dropped, except for the statuses 307 and 308.
\<close>

definition redirected :: "Request \<Rightarrow> Response \<Rightarrow> Request option" where
  "redirected r resp =
     (let keep = resp_StatusCode resp \<in> {307, 308};
          loc = resp_Location resp
      in case setPath (before CHR ''?'' loc) (req_URL r) of
           None \<Rightarrow> None
         | Some u \<Rightarrow>
             Some (r\<lparr>req_Method := (if keep \<or> req_Method r \<in> {''GET'', ''HEAD''} then req_Method r else ''GET''),
                     req_URL := u\<lparr>url_RawQuery := after CHR ''?'' loc\<rparr>,
                     req_Body := (if keep then req_Body r else [])\<rparr>))"

definition is_redirect :: "Response \<Rightarrow> bool" where
  "is_redirect resp \<longleftrightarrow> resp_StatusCode resp \<in> {301, 302, 303, 307, 308} \<and> resp_Location resp \<noteq> []"

fun client_Do :: "nat \<Rightarrow> (Request \<Rightarrow> 'w \<Rightarrow> Response \<times> 'w) \<Rightarrow> 'w http_client" where
  "client_Do n serve r w =
     (let (resp, w') = serve r w in
      if \<not> is_redirect resp then (Inr resp, w')
      else case n of
             0 \<Rightarrow> (Inl (Ext ''stopped after 10 redirects''), w')
           | Suc k \<Rightarrow>
               (case redirected r resp of
                  None \<Rightarrow> (Inl (Ext ''failed to parse Location header''), w')
                | Some r' \<Rightarrow> client_Do k serve r' w'))"

declare client_Do.simps [simp del]

text \<open>Go's client gives up when ten requests have been redirected.\<close>

definition loopback :: "(Request \<Rightarrow> 'w \<Rightarrow> Response \<times> 'w) \<Rightarrow> 'w http_client" where
  "loopback serve = client_Do 9 serve"

section \<open>The remote adapter\<close>

record 'w RemoteAdapter =
  baseURL :: string
  client :: "'w http_client"

type_synonym 'w RemoteOption = "'w RemoteAdapter \<Rightarrow> 'w RemoteAdapter"

definition WithHTTPClient :: "'w http_client option \<Rightarrow> 'w RemoteOption" where
  "WithHTTPClient c a = (case c of None \<Rightarrow> a | Some cl \<Rightarrow> a\<lparr>client := cl\<rparr>)"

text \<open>\<open>net_client\<close> is the \<open>http.Client\<close> with a timeout of ten seconds, on the network.\<close>

definition NewRemoteAdapter :: "'w http_client \<Rightarrow> string \<Rightarrow> 'w RemoteOption list \<Rightarrow> 'w RemoteAdapter" where
  "NewRemoteAdapter net_client url opts =
     fold (\<lambda>opt. opt) opts \<lparr>baseURL = TrimSuffix url ''/'', client = net_client\<rparr>"

text \<open>The loop of \<open>Publish\<close>; \<open>None\<close> is a \<open>nil\<close> message.\<close>

fun encode_messages :: "('m \<Rightarrow> error + bytes) \<Rightarrow> nat \<Rightarrow> 'm option list \<Rightarrow> error + string list" where
  "encode_messages marshal i [] = Inr []"
| "encode_messages marshal i (m # ms) =
     (case m of
        None \<Rightarrow> Inl (Msg (''message '' @ fmt_nat i @ '' is nil''))
      | Some msg \<Rightarrow>
     (case marshal msg of
        Inl err \<Rightarrow> Inl (Wrap (''failed to marshal message '' @ fmt_nat i @ '': '') err '''')
      | Inr data \<Rightarrow>
     (case encode_messages marshal (Suc i) ms of
        Inl err \<Rightarrow> Inl err
      | Inr encoded \<Rightarrow> Inr (EncodeToString data # encoded))))"

definition NewRequest :: "(string \<Rightarrow> string option) \<Rightarrow> ctx \<Rightarrow> string \<Rightarrow> string \<Rightarrow> bytes \<Rightarrow> error + Request" where
  "NewRequest authority c meth u body =
     (case url_Parse authority u of
        None \<Rightarrow> Inl (Ext (''parse '' @ u))
      | Some url \<Rightarrow>
          Inr \<lparr>req_Method = meth, req_URL = url, req_Header = [], req_Body = body, req_Context = c\<rparr>)"

definition remote_Publish ::
  "('m \<Rightarrow> error + bytes) \<Rightarrow> (string \<Rightarrow> string option) \<Rightarrow> 'w RemoteAdapter \<Rightarrow> ctx \<Rightarrow> string \<Rightarrow>
   'm option list \<Rightarrow> 'w \<Rightarrow> error option \<times> 'w" where
  "remote_Publish marshal authority ra c queueName messages w =
     (if messages = [] then (None, w)
      else case encode_messages marshal 0 messages of
        Inl err \<Rightarrow> (Some err, w)
      | Inr encoded \<Rightarrow>
     (let reqBody = Marshal ''messages'' encoded;
          u = baseURL ra @ ''/queues/'' @ PathEscape queueName @ ''/messages''
      in case NewRequest authority c ''POST'' u reqBody of
        Inl err \<Rightarrow> (Some (Wrap ''failed to create request: '' err ''''), w)
      | Inr req \<Rightarrow>
     (case client ra (req\<lparr>req_Header := [(''Content-Type'', ''application/json'')]\<rparr>) w of
        (Inl err, w') \<Rightarrow> (Some (Wrap ''publish request failed: '' err ''''), w')
      | (Inr resp, w') \<Rightarrow>
          if resp_StatusCode resp \<ge> 300
          then (Some (Msg (''publish request failed: status='' @ fmt_d (resp_StatusCode resp)
                            @ '' body='' @ TrimSpace (take 1024 (resp_Body resp)))), w')
          else (None, w'))))"

definition remote_Consume :: "'w RemoteAdapter \<Rightarrow> ctx \<Rightarrow> string \<Rightarrow> int \<Rightarrow> 'w \<Rightarrow> (error + ('m, 'r) ConsumeResult) \<times> 'w" where
  "remote_Consume ra c queueName maxBatch w = (Inl (Msg ''consume is not supported by remote adapter''), w)"

text \<open>The adapter as a value of the interface of \<open>core/types.go\<close>; no nil message is published.\<close>

definition remote_QueueAdapter ::
  "(message \<Rightarrow> error + bytes) \<Rightarrow> (string \<Rightarrow> string option) \<Rightarrow> 'w RemoteAdapter \<Rightarrow> ('w, message, 'r, ctx) QueueAdapter" where
  "remote_QueueAdapter marshal authority ra =
     \<lparr>ad_Publish = (\<lambda>c q ms. remote_Publish marshal authority ra c q (map Some ms)),
      ad_Consume = (\<lambda>c q n w. map_prod (map_sum id Some) id (remote_Consume ra c q n w))\<rparr>"

section \<open>The path of a publish request\<close>

definition publish_path :: "string \<Rightarrow> string" where
  "publish_path q = ''/queues/'' @ PathEscape q @ ''/messages''"

lemma publish_path_chars:
  assumes "c \<in> set (publish_path q)"
  shows "c = CHR ''%'' \<or> \<not> shouldEscape encodePath c"
proof -
  have "list_all (\<lambda>c. \<not> shouldEscape encodePath c) ''/queues/''"
    "list_all (\<lambda>c. \<not> shouldEscape encodePath c) ''/messages''"
    by (simp_all add: shouldEscape_def alphanum_def)
  moreover from assms have "c \<in> set ''/queues/'' \<or> c \<in> set (PathEscape q) \<or> c \<in> set ''/messages''"
    unfolding publish_path_def set_append by blast
  ultimately show ?thesis
    using PathEscape_chars [of c q] segment_path [of c] unfolding list_all_iff by blast
qed

lemma publish_path_valid: "validEncoded encodePath (publish_path q)"
proof -
  have "CHR ''%'' \<in> set ''!$&()*+,;=:@[]%''" by simp
  then show ?thesis using publish_path_chars unfolding validEncoded_def list_all_iff by blast
qed

lemma CTL_escaped: "CTLByte c \<Longrightarrow> shouldEscape mode c"
proof -
  have "list_all (\<lambda>c. \<not> CTLByte c) ''-_.~''" "list_all (\<lambda>c. \<not> CTLByte c) ''$&+,/:;=?@''"
    by (simp_all add: CTLByte_def)
  moreover assume "CTLByte c"
  moreover from this have "\<not> alphanum c" by (auto simp: CTLByte_def alphanum_def)
  ultimately show ?thesis unfolding list_all_iff shouldEscape_def by auto
qed

lemma publish_path_plain:
  "list_all (\<lambda>c. c \<noteq> CHR ''?'' \<and> c \<noteq> CHR ''#'' \<and> \<not> CTLByte c) (publish_path q)"
proof -
  have "shouldEscape encodePath CHR ''?''" "shouldEscape encodePath CHR ''#''"
    "CHR ''%'' \<noteq> CHR ''?''" "CHR ''%'' \<noteq> CHR ''#''" "\<not> CTLByte CHR ''%''"
    by (simp_all add: shouldEscape_def alphanum_def CTLByte_def)
  then show ?thesis
    using publish_path_chars CTL_escaped unfolding list_all_iff by metis
qed

lemma segments_publish_path: "segments (publish_path q) = [[], ''queues'', PathEscape q, ''messages'']"
proof -
  have "segments (publish_path q) = [] # ''queues'' # segments (PathEscape q @ CHR ''/'' # ''messages'')"
    by (simp add: publish_path_def)
  also have "segments (PathEscape q @ CHR ''/'' # ''messages'') = PathEscape q # segments ''messages''"
    by (rule segments_append) (rule PathEscape_no_slash)
  finally show ?thesis by simp
qed

definition dot_name :: "string \<Rightarrow> bool" where
  "dot_name q \<longleftrightarrow> q \<in> {[], ''.'', ''..''}"

lemma dot_name_PathEscape: "dot_name (PathEscape q) \<longleftrightarrow> dot_name q"
proof -
  have "PathEscape q = d \<longleftrightarrow> q = d" if "PathEscape d = d" for d
    using PathEscape_inject [of q d] that by simp
  from this [OF PathEscape_dots(1)] this [OF PathEscape_dots(2)] this [OF PathEscape_dots(3)]
  show ?thesis unfolding dot_name_def by blast
qed

lemma cleanPath_publish_path:
  "cleanPath (publish_path q) =
     (if q = ''..'' then ''/messages'' else if dot_name q then ''/queues/messages'' else publish_path q)"
proof -
  let ?e = "PathEscape q"
  have "cleanPath (publish_path q) = path_Clean (publish_path q)"
    by (simp add: cleanPath_def publish_path_def)
  also have "\<dots> = (if ?e = ''..'' then ''/messages'' else if dot_name ?e then ''/queues/messages'' else publish_path q)"
    by (simp add: path_Clean_def segments_publish_path clean_push_def dot_name_def) (simp add: publish_path_def)
  also have "?e = ''..'' \<longleftrightarrow> q = ''..''" using PathEscape_inject [of q "''..''"] PathEscape_dots by simp
  finally show ?thesis by (simp only: dot_name_PathEscape)
qed

lemma unescape_publish_path: "unescape (publish_path q) = Some (''/queues/'' @ q @ ''/messages'')"
proof -
  have "unescape ''/messages'' = Some ''/messages''" by (rule unescape_plain) simp
  then have "unescape (PathEscape q @ ''/messages'') = Some (q @ ''/messages'')"
    by (simp only: PathEscape_def unescape_append_escape option.map)
  then show ?thesis
    using unescape_plain_append [of "''/queues/''" "PathEscape q @ ''/messages''"] by (simp add: publish_path_def)
qed

lemma setPath_publish_path:
  obtains u' where "setPath (publish_path q) u = Some u'" "EscapedPath u' = publish_path q"
    "url_Path u' = ''/queues/'' @ q @ ''/messages''" "url_RawQuery u' = url_RawQuery u"
proof -
  obtain u' where u': "setPath (publish_path q) u = Some u'"
    and f: "url_Path u' = ''/queues/'' @ q @ ''/messages''" "url_RawQuery u' = url_RawQuery u"
    by (simp add: setPath_def unescape_publish_path)
  have "HasPrefix (publish_path q) ''/''" by (simp add: HasPrefix_def publish_path_def)
  from EscapedPath_setPath [OF u' publish_path_valid this] u' f show thesis by (blast intro: that)
qed

section \<open>Routing\<close>

lemma mux_matches_queues: "mux_matches (''/queues/'' @ s)"
proof -
  have "PathUnescape ''queues'' = Some ''queues''" by (simp add: PathUnescape_def unescape_plain)
  then show ?thesis by (simp add: mux_matches_def mux_unescape_def before_def)
qed

text \<open>A request to a publish path is served, unless the queue name is empty or made of dots.\<close>

lemma mux_route_publish:
  assumes "EscapedPath (req_URL r) = publish_path q" and "\<not> dot_name q"
  shows "mux_route r = Serve"
proof -
  have c: "cleanPath (publish_path q) = publish_path q"
    using assms(2) by (auto simp: cleanPath_publish_path dot_name_def)
  have "3 \<le> count_list (publish_path q @ ''/'') CHR ''/''"
    by (simp add: publish_path_def)
  moreover have "mux_matches (publish_path q)"
    using mux_matches_queues by (simp add: publish_path_def)
  ultimately show ?thesis using c by (simp add: mux_route_def Let_def assms(1))
qed

lemma mux_route_dot_name:
  assumes "EscapedPath (req_URL r) = publish_path q" and "dot_name q" and "req_Method r = ''POST''"
  shows "\<exists>loc. loc \<noteq> [] \<and> mux_route r = Redirect loc"
proof -
  let ?p = "cleanPath (publish_path q)"
  have p: "?p = (if q = ''..'' then ''/messages'' else ''/queues/messages'')"
    using assms(2) by (simp add: cleanPath_publish_path)
  have "length (publish_path q) = 17 + length q"
    using assms(2) PathEscape_dots by (auto simp: dot_name_def publish_path_def)
  then have "length ?p < length (publish_path q)" by (simp add: p)
  then have ne: "?p \<noteq> publish_path q" by auto
  have "\<not> mux_matches (''/messages/'')"
    by (simp add: mux_matches_def mux_unescape_def before_def PathUnescape_def)
  moreover have "count_list ''/queues/messages/'' CHR ''/'' = 3" by simp
  ultimately have "mux_route r = Redirect (mux_location ?p (url_RawQuery (req_URL r)))"
    using ne assms(1,3) by (simp add: mux_route_def Let_def p)
  moreover have "mux_location ?p x \<noteq> []" for x by (simp add: p mux_location_def escape_byte_def)
  ultimately show ?thesis by blast
qed

section \<open>What a request can change\<close>

text \<open>Only a \<open>POST\<close> can change the adapter; every other request is answered by an error or a redirect.\<close>

lemma NewPublishHandler_other_method:
  assumes "req_Method r \<noteq> ''POST''"
  shows "\<exists>resp. NewPublishHandler unmarshal r a = (resp, a) \<and> resp_StatusCode resp \<ge> 300"
  using assms
  by (cases "mux_route r") (auto simp: NewPublishHandler_def handle_publish_def http_Error_def NotFound_def)

lemma redirected_method:
  assumes "redirected r resp = Some r'" and "resp_StatusCode resp = 301"
  shows "req_Method r' \<noteq> ''POST''"
  using assms by (auto simp: redirected_def Let_def split: option.splits if_splits)

lemma NewPublishHandler_redirect:
  assumes "NewPublishHandler unmarshal r a = (resp, a')" and "is_redirect resp"
  shows "a' = a \<and> resp_StatusCode resp = 301"
proof (cases "mux_route r")
  case Serve
  with assms have "handle_publish unmarshal r a = (resp, a')" by (simp add: NewPublishHandler_def)
  then have "resp_Location resp = []"
    by (auto simp: handle_publish_def http_Error_def NotFound_def NoContent_def Let_def
        split: if_splits option.splits sum.splits prod.splits)
  with assms show ?thesis by (simp add: is_redirect_def)
qed (use assms in \<open>auto simp: NewPublishHandler_def NotFound_def http_Error_def is_redirect_def\<close>)

text \<open>
  What a client relies on when it follows the redirects of a service that only acts on \<open>POST\<close>: it ends with an error or
  a failure status, and the service has done nothing.
\<close>

locale post_service =
  fixes serve :: "Request \<Rightarrow> 'w \<Rightarrow> Response \<times> 'w"
  assumes other_method:
      "req_Method r \<noteq> ''POST'' \<Longrightarrow> \<exists>resp. serve r w = (resp, w) \<and> resp_StatusCode resp \<ge> 300"
    and redirects: "serve r w = (resp, w') \<Longrightarrow> is_redirect resp \<Longrightarrow> w' = w \<and> resp_StatusCode resp = 301"
begin

lemma do_other_method:
  assumes "req_Method r \<noteq> ''POST''"
  shows "\<exists>res. client_Do n serve r w = (res, w) \<and> (\<forall>resp. res = Inr resp \<longrightarrow> resp_StatusCode resp \<ge> 300)"
  using assms
proof (induction n arbitrary: r)
  case 0
  from other_method [OF 0, of w] show ?case by (auto simp: client_Do.simps [of 0])
next
  case (Suc n)
  from other_method [OF Suc.prems] obtain resp where
    resp: "serve r w = (resp, w)" "resp_StatusCode resp \<ge> 300" by blast
  show ?case
  proof (cases "is_redirect resp \<and> redirected r resp \<noteq> None")
    case False
    with resp show ?thesis by (auto simp: client_Do.simps [of "Suc n"])
  next
    case True
    then obtain r' where r': "redirected r resp = Some r'" by blast
    from True redirects [OF resp(1)] redirected_method [OF r'] have "req_Method r' \<noteq> ''POST''" by blast
    from Suc.IH [OF this] True r' resp show ?thesis by (simp add: client_Do.simps [of "Suc n"])
  qed
qed

lemma do_redirected:
  assumes "serve r w = (resp, w')" and "is_redirect resp"
  shows "\<exists>res. loopback serve r w = (res, w) \<and> (\<forall>resp. res = Inr resp \<longrightarrow> resp_StatusCode resp \<ge> 300)"
proof -
  note red = redirects [OF assms]
  show ?thesis
  proof (cases "redirected r resp")
    case None
    with assms red show ?thesis by (simp add: loopback_def client_Do.simps)
  next
    case (Some r')
    then have "req_Method r' \<noteq> ''POST''" using redirected_method red by blast
    from do_other_method [OF this, of 8 w] Some assms red show ?thesis
      by (simp add: loopback_def client_Do.simps [of 9])
  qed
qed

end

interpretation publish_service: post_service "NewPublishHandler unmarshal" for unmarshal
  by unfold_locales (use NewPublishHandler_other_method NewPublishHandler_redirect in blast)+

lemma loopback_served:
  assumes "mux_route r = Serve"
  shows "loopback (NewPublishHandler unmarshal) r a =
    (case handle_publish unmarshal r a of (resp, a') \<Rightarrow> (Inr resp, a'))"
proof -
  obtain resp a' where h: "handle_publish unmarshal r a = (resp, a')" by fastforce
  with assms have "NewPublishHandler unmarshal r a = (resp, a')" by (simp add: NewPublishHandler_def)
  moreover from h have "\<not> is_redirect resp"
    by (auto simp: is_redirect_def handle_publish_def http_Error_def NotFound_def NoContent_def Let_def
        split: if_splits option.splits sum.splits prod.splits)
  ultimately show ?thesis by (simp add: loopback_def client_Do.simps h)
qed

lemma loopback_redirected:
  assumes "mux_route r = Redirect loc" and "loc \<noteq> []"
  shows "\<exists>res. loopback (NewPublishHandler unmarshal) r a = (res, a) \<and>
    (\<forall>resp. res = Inr resp \<longrightarrow> resp_StatusCode resp \<ge> 300)"
  by (rule publish_service.do_redirected) (use assms in \<open>auto simp: NewPublishHandler_def is_redirect_def\<close>)

section \<open>The request the remote adapter makes\<close>

text \<open>An authority without a delimiter of the rest of the URL.\<close>

definition plain_authority :: "string \<Rightarrow> bool" where
  "plain_authority s \<longleftrightarrow> list_all (\<lambda>c. c \<noteq> CHR ''/'' \<and> c \<noteq> CHR ''?'' \<and> c \<noteq> CHR ''#'' \<and> \<not> CTLByte c) s"

lemma before_all: "list_all (\<lambda>c. c \<noteq> sep) s \<Longrightarrow> before sep s = s \<and> after sep s = []"
  by (induction s) (simp_all add: before_def after_def)

lemma before_first: "list_all (\<lambda>c. c \<noteq> sep) s \<Longrightarrow> before sep (s @ sep # t) = s"
  by (induction s) (simp_all add: before_def)

lemma getScheme_http: "getScheme (''http:'' @ s) = Some (''http'', s)"
  by (simp add: getScheme_def alphanum_def Let_def)

lemma url_Parse_http:
  assumes "plain_authority auth" and "authority auth = Some host"
  shows "url_Parse authority (''http://'' @ auth @ publish_path q) =
    setPath (publish_path q) (empty_URL\<lparr>url_Scheme := ''http'', url_Host := host\<rparr>)"
proof -
  let ?rest = "''//'' @ auth @ publish_path q"
  have plain: "list_all (\<lambda>c. c \<noteq> CHR ''?'' \<and> c \<noteq> CHR ''#'' \<and> \<not> CTLByte c) ?rest"
    using assms(1) publish_path_plain [of q] by (auto simp: plain_authority_def list_all_iff CTLByte_def)
  then have q: "before CHR ''?'' ?rest = ?rest \<and> after CHR ''?'' ?rest = []"
    by (intro before_all) (simp add: list_all_iff)
  have "list_all (\<lambda>c. c \<noteq> CHR ''#'' \<and> \<not> CTLByte c) ''http:''" by (simp add: CTLByte_def)
  with plain have p2: "list_all (\<lambda>c. c \<noteq> CHR ''#'' \<and> \<not> CTLByte c) (''http:'' @ ?rest)"
    unfolding list_all_append by (simp add: list_all_iff)
  then have f: "before CHR ''#'' (''http:'' @ ?rest) = ''http:'' @ ?rest \<and> after CHR ''#'' (''http:'' @ ?rest) = []"
    by (intro before_all) (simp add: list_all_iff)
  have "publish_path q = CHR ''/'' # tl (publish_path q)" by (simp add: publish_path_def)
  moreover have "list_all (\<lambda>c. c \<noteq> CHR ''/'') auth" using assms(1) by (simp add: plain_authority_def list_all_iff)
  ultimately have a: "before CHR ''/'' (auth @ publish_path q) = auth" by (metis before_first)
  have lower: "ToLower ''http'' = ''http''" by (simp add: ToLower_def)
  have "parse_rest authority ''http'' ?rest =
    setPath (publish_path q) (empty_URL\<lparr>url_Scheme := ''http'', url_Host := host\<rparr>)"
    using q a assms(2) unfolding parse_rest_def
    by (simp add: Let_def HasPrefix_def lower) (simp add: empty_URL_def)
  moreover have "\<not> list_ex CTLByte (''http:'' @ ?rest)"
    using p2 by (auto simp: list_ex_iff list_all_iff)
  moreover have "getScheme (''http:'' @ ?rest) = Some (''http'', ?rest)" by (rule getScheme_http)
  ultimately have "url_Parse authority (''http:'' @ ?rest) =
      setPath (publish_path q) (empty_URL\<lparr>url_Scheme := ''http'', url_Host := host\<rparr>)"
    using f unfolding url_Parse_def Let_def by simp
  then show ?thesis by simp
qed

section \<open>The payloads\<close>

lemma is_ascii_EncodeToString: "is_ascii (EncodeToString bs)"
proof -
  have "byte (b64_char (v mod 64)) < 128" for v using b64_char_range [of "v mod 64"] by simp
  then show ?thesis
    by (induction bs rule: EncodeToString.induct) (simp_all add: is_ascii_def Let_def)
qed

text \<open>A codec that reads back what it has written, on a list of messages.\<close>

definition codec_on :: "('m \<Rightarrow> error + bytes) \<Rightarrow> (bytes \<Rightarrow> error + 'm) \<Rightarrow> 'm list \<Rightarrow> bool" where
  "codec_on marshal unmarshal ms \<longleftrightarrow> list_all (\<lambda>m. case marshal m of Inl _ \<Rightarrow> False | Inr bs \<Rightarrow> unmarshal bs = Inr m) ms"

lemma payloads_roundtrip:
  assumes "codec_on marshal unmarshal ms"
  shows "\<exists>es. encode_messages marshal i (map Some ms) = Inr es \<and> list_all is_ascii es \<and>
    length es = length ms \<and> decode_payloads unmarshal j es = Inr ms"
  using assms
proof (induction ms arbitrary: i j)
  case (Cons m ms)
  from Cons.prems obtain bs where bs: "marshal m = Inr bs" "unmarshal bs = Inr m" "codec_on marshal unmarshal ms"
    by (auto simp: codec_on_def split: sum.splits)
  from Cons.IH [OF bs(3), of "Suc i" "Suc j"] obtain es where
    "encode_messages marshal (Suc i) (map Some ms) = Inr es" "list_all is_ascii es"
    "length es = length ms" "decode_payloads unmarshal (Suc j) es = Inr ms" by blast
  then show ?case
    using bs by (auto simp: b64_decode_encode DecodeString_def is_ascii_EncodeToString)
qed simp

section \<open>Remote publishing\<close>

definition remote_error :: "int \<Rightarrow> string \<Rightarrow> error" where
  "remote_error code text =
     Msg (''publish request failed: status='' @ fmt_d code @ '' body='' @ TrimSpace (take 1024 (text @ [CHR 0x0A])))"

text \<open>A remote adapter whose client serves its requests by a publish handler in place.\<close>

definition loopback_adapter ::
  "('m MemAdapter) http_client \<Rightarrow> (bytes \<Rightarrow> error + 'm) \<Rightarrow> string \<Rightarrow> ('m MemAdapter) RemoteAdapter" where
  "loopback_adapter net unmarshal url =
     NewRemoteAdapter net url [WithHTTPClient (Some (loopback (NewPublishHandler unmarshal)))]"

text \<open>A base URL with or without the slash at its end, whose authority is accepted.\<close>

definition endpoint :: "(string \<Rightarrow> string option) \<Rightarrow> string \<Rightarrow> string \<Rightarrow> bool" where
  "endpoint authority auth url \<longleftrightarrow> auth \<noteq> [] \<and> plain_authority auth \<and> authority auth \<noteq> None \<and>
     (url = ''http://'' @ auth \<or> url = ''http://'' @ auth @ ''/'')"

lemma baseURL_loopback:
  assumes "endpoint authority auth url"
  shows "baseURL (loopback_adapter net unmarshal url) = ''http://'' @ auth"
    and "client (loopback_adapter net unmarshal url) = loopback (NewPublishHandler unmarshal)"
proof -
  from assms have "auth \<noteq> []" "last auth \<noteq> CHR ''/''"
    by (auto simp: endpoint_def plain_authority_def list_all_iff dest: last_in_set)
  then have "\<not> HasSuffix (''http://'' @ auth) ''/''"
    by (cases auth rule: rev_cases) (auto simp: HasSuffix_def)
  then have "TrimSuffix (''http://'' @ auth) ''/'' = ''http://'' @ auth" by (simp add: TrimSuffix_def)
  moreover have "TrimSuffix ((''http://'' @ auth) @ ''/'') ''/'' = ''http://'' @ auth" by (rule TrimSuffix_append)
  ultimately show "baseURL (loopback_adapter net unmarshal url) = ''http://'' @ auth"
    using assms by (auto simp: endpoint_def loopback_adapter_def NewRemoteAdapter_def WithHTTPClient_def)
qed (simp add: loopback_adapter_def NewRemoteAdapter_def WithHTTPClient_def)

lemma handle_publish_path:
  assumes "req_Method r = ''POST''" and "url_Path (req_URL r) = ''/queues/'' @ q @ ''/messages''"
    and "Decode ''messages'' (req_Body r) = Some es" and "es \<noteq> []" and "decode_payloads unmarshal 0 es = Inr ms"
  shows "handle_publish unmarshal r a =
    (case PathUnescape q of
       None \<Rightarrow> (http_Error ''invalid queue name'' 400, a)
     | Some q' \<Rightarrow>
         (case Publish (req_Context r) q' ms a of
            (Some err, a') \<Rightarrow> (http_Error (''failed to publish: '' @ error_text err) 500, a')
          | (None, a') \<Rightarrow> (NoContent, a')))"
  unfolding handle_publish_def using assms
  by (simp only: CutPrefix_append TrimSuffix_append HasSuffix_append) (simp split: option.split)

lemma remote_request:
  assumes "codec_on marshal unmarshal ms" and "ms \<noteq> []" and "endpoint authority auth url"
  obtains r es where
    "remote_Publish marshal authority (loopback_adapter net unmarshal url) c q (map Some ms) a =
      (case loopback (NewPublishHandler unmarshal) r a of
         (Inl err, w') \<Rightarrow> (Some (Wrap ''publish request failed: '' err ''''), w')
       | (Inr resp, w') \<Rightarrow>
           if resp_StatusCode resp \<ge> 300
           then (Some (Msg (''publish request failed: status='' @ fmt_d (resp_StatusCode resp)
                            @ '' body='' @ TrimSpace (take 1024 (resp_Body resp)))), w')
           else (None, w'))"
    "req_Method r = ''POST''" "req_Context r = c" "EscapedPath (req_URL r) = publish_path q"
    "url_Path (req_URL r) = ''/queues/'' @ q @ ''/messages''"
    "Decode ''messages'' (req_Body r) = Some es" "es \<noteq> []" "decode_payloads unmarshal 0 es = Inr ms"
proof -
  from payloads_roundtrip [OF assms(1), of 0 0] obtain es where es:
    "encode_messages marshal 0 (map Some ms) = Inr es" "list_all is_ascii es"
    "length es = length ms" "decode_payloads unmarshal 0 es = Inr ms" by blast
  from assms(3) obtain host where "plain_authority auth" "authority auth = Some host" by (auto simp: endpoint_def)
  then obtain u' where u': "url_Parse authority ((''http://'' @ auth) @ publish_path q) = Some u'"
    "EscapedPath u' = publish_path q" "url_Path u' = ''/queues/'' @ q @ ''/messages''"
    using setPath_publish_path [of q "empty_URL\<lparr>url_Scheme := ''http'', url_Host := host\<rparr>"]
      url_Parse_http [of auth authority host q] by auto
  define r where "r = \<lparr>req_Method = ''POST'', req_URL = u', req_Header = [(''Content-Type'', ''application/json'')],
    req_Body = Marshal ''messages'' es, req_Context = c\<rparr>"
  have "is_ascii ''messages''" by (simp add: is_ascii_def)
  from Decode_Marshal [OF this es(2)] have "Decode ''messages'' (req_Body r) = Some es" by (simp add: r_def)
  moreover have "NewRequest authority c ''POST'' ((''http://'' @ auth) @ publish_path q) (Marshal ''messages'' es)
      = Inr (r\<lparr>req_Header := []\<rparr>)"
    by (simp only: NewRequest_def u'(1) option.case) (simp add: r_def)
  then have "remote_Publish marshal authority (loopback_adapter net unmarshal url) c q (map Some ms) a =
      (case loopback (NewPublishHandler unmarshal) r a of
         (Inl err, w') \<Rightarrow> (Some (Wrap ''publish request failed: '' err ''''), w')
       | (Inr resp, w') \<Rightarrow>
           if resp_StatusCode resp \<ge> 300
           then (Some (Msg (''publish request failed: status='' @ fmt_d (resp_StatusCode resp)
                            @ '' body='' @ TrimSpace (take 1024 (resp_Body resp)))), w')
           else (None, w'))"
    using assms(2) es(1) unfolding remote_Publish_def baseURL_loopback [OF assms(3)] publish_path_def
    by (simp add: r_def Let_def)
  moreover from es(3) assms(2) have "es \<noteq> []" by auto
  ultimately show thesis using es(4) u'(2,3) by (intro that [of r es]) (simp_all add: r_def)
qed

lemma remote_publish_served:
  assumes "codec_on marshal unmarshal ms" and "ms \<noteq> []" and "endpoint authority auth url"
    and "\<not> dot_name q"
  shows "remote_Publish marshal authority (loopback_adapter net unmarshal url) c q (map Some ms) a =
    (case PathUnescape q of
       None \<Rightarrow> (Some (remote_error 400 ''invalid queue name''), a)
     | Some q' \<Rightarrow>
         (case Publish c q' ms a of
            (Some err, a') \<Rightarrow> (Some (remote_error 500 (''failed to publish: '' @ error_text err)), a')
          | (None, a') \<Rightarrow> (None, a')))"
proof (rule remote_request [OF assms(1-3), where net = net and c = c and q = q and a = a], goal_cases)
  case (1 r es)
  note serve = loopback_served [OF mux_route_publish [OF 1(4) assms(4)], where unmarshal = unmarshal and a = a]
  from 1(1) show ?case
    unfolding serve handle_publish_path [OF 1(2,5-8)] 1(3)
    by (auto simp: remote_error_def http_Error_def NoContent_def split: option.split prod.split)
qed

lemma remote_publish_dots:
  assumes "codec_on marshal unmarshal ms" and "ms \<noteq> []" and "endpoint authority auth url"
    and "dot_name q"
  shows "\<exists>err. remote_Publish marshal authority (loopback_adapter net unmarshal url) c q (map Some ms) a = (Some err, a)"
proof (rule remote_request [OF assms(1-3), where net = net and c = c and q = q and a = a], goal_cases)
  case (1 r es)
  from mux_route_dot_name [OF 1(4) assms(4) 1(2)] obtain loc where "loc \<noteq> []" "mux_route r = Redirect loc" by blast
  from loopback_redirected [OF this(2,1), of unmarshal a] 1(1) show ?case by (auto split: sum.splits)
qed

lemma Publish_Nil [simp]: "Publish c q [] a = (None, a)"
  by (simp add: Publish_def)

lemma remote_publish_plain:
  assumes "codec_on marshal unmarshal ms" and "endpoint authority auth url"
    and "CHR ''%'' \<notin> set q" and "\<not> dot_name q"
  shows "remote_Publish marshal authority (loopback_adapter net unmarshal url) c q (map Some ms) a =
    (map_option (\<lambda>err. remote_error 500 (''failed to publish: '' @ error_text err)) (fst (Publish c q ms a)),
     snd (Publish c q ms a))"
proof (cases "ms = []")
  case True
  then show ?thesis by (simp add: remote_Publish_def)
next
  case False
  have "PathUnescape q = Some q" using assms(3) by (simp add: PathUnescape_def unescape_plain)
  with remote_publish_served [OF assms(1) False assms(2,4), of net c a] show ?thesis
    by (auto split: prod.splits option.splits)
qed

section \<open>Properties\<close>

text \<open>
  C14. Publishing through the HTTP endpoint is publishing: for messages the codec reads back, and for
  every queue name without a per cent sign other than the empty name and the names \<open>.\<close> and
  \<open>..\<close>, RemoteAdapter.Publish against NewPublishHandler has exactly the effect of Adapter.Publish on the
  adapter behind the endpoint, and reports an error exactly when that call does, with its text.  The name
  travels escaped in the URL, so it may contain slashes, spaces or any other bytes.
\<close>

theorem remote_publish_refines:
  assumes "codec_on marshal unmarshal ms" and "endpoint authority auth url"
    and "CHR ''%'' \<notin> set q" and "q \<notin> {[], ''.'', ''..''}"
  shows "remote_Publish marshal authority (loopback_adapter net unmarshal url) c q (map Some ms) a =
    (map_option (\<lambda>err. remote_error 500 (''failed to publish: '' @ error_text err)) (fst (Publish c q ms a)),
     snd (Publish c q ms a))"
  using remote_publish_plain [OF assms(1-3)] assms(4) by (simp add: dot_name_def)

lemma endpoint_localhost: "endpoint Some ''queue'' ''http://queue''"
  by (simp add: endpoint_def plain_authority_def CTLByte_def)

lemma codec_id: "codec_on Inr Inr ms"
  by (simp add: codec_on_def list_all_iff)

theorem remote_publish_refines_witness:
  "\<exists>a'. remote_Publish Inr Some (loopback_adapter (\<lambda>r a. (Inl (Ext ''net''), a)) Inr ''http://queue'') None ''a/b c''
      [Some ''m1'', Some ''m2''] (NewAdapter 2) = (None, a') \<and>
     Publish None ''a/b c'' [''m1'', ''m2''] (NewAdapter 2) = (None, a')"
proof -
  let ?p = "Publish None ''a/b c'' [''m1'', ''m2''] (NewAdapter 2)"
  have "fst ?p = None"
    by (simp add: Publish_def NewAdapter_def ensure_queue_def make_queue_def chan_cap_def chan_len_def)
  then have p: "?p = (None, snd ?p)" by (metis prod.collapse)
  have "remote_Publish Inr Some (loopback_adapter (\<lambda>r a. (Inl (Ext ''net''), a)) Inr ''http://queue'') None ''a/b c''
      (map Some [''m1'', ''m2'']) (NewAdapter 2) = (None, snd ?p)"
    by (subst remote_publish_refines [OF codec_id endpoint_localhost]) (simp_all add: \<open>fst ?p = None\<close>)
  with p show ?thesis by (intro exI [of _ "snd ?p"]) simp
qed

text \<open>
  C37. What a remote publish does for every queue name.  The handler unescapes the path of the request, which
  the HTTP server has unescaped already: a name with a per cent sign is taken for an escape, and its
  messages go to the queue of the unescaped name, or are refused when it is no escape.  The empty name and the
  names \<open>.\<close> and \<open>..\<close> are cleaned out of the path and always refused.  A refused publish changes no queue.
\<close>

theorem remote_publish_queue:
  assumes "mem_inv a" and "codec_on marshal unmarshal ms" and "ms \<noteq> []" and "endpoint authority auth url"
    and "remote_Publish marshal authority (loopback_adapter net unmarshal url) c q (map Some ms) a = (ret, a')"
  shows "if q \<in> {[], ''.'', ''..''} \<or> PathUnescape q = None then ret \<noteq> None \<and> a' = a
    else mem_inv a' \<and>
      (if ret = None
       then pending a' = (pending a)(the (PathUnescape q) := pending a (the (PathUnescape q)) @ ms)
       else pending a' = pending a)"
proof (cases "dot_name q")
  case True
  with remote_publish_dots [OF assms(2-4) True, of net c a] assms(5) show ?thesis by (auto simp: dot_name_def)
next
  case False
  note served = remote_publish_served [OF assms(2-4) False, of net c a]
  show ?thesis
  proof (cases "PathUnescape q")
    case None
    with served assms(5) show ?thesis by simp
  next
    case (Some q')
    obtain r a1 where p: "Publish c q' ms a = (r, a1)" by fastforce
    with served assms(5) Some have "a' = a1" "ret = None \<longleftrightarrow> r = None" by (auto split: option.splits)
    with Publish_cases [OF assms(1) p] Some False show ?thesis by (auto simp: dot_name_def)
  qed
qed

theorem remote_publish_queue_witness:
  "\<exists>a'. remote_Publish Inr Some (loopback_adapter (\<lambda>r a. (Inl (Ext ''net''), a)) Inr ''http://queue'') None ''a%2Fb''
      [Some ''m''] (NewAdapter 2) = (None, a') \<and>
     pending a' ''a/b'' = [''m''] \<and> pending a' ''a%2Fb'' = []"
proof -
  let ?ra = "loopback_adapter (\<lambda>r a. (Inl (Ext ''net''), a)) Inr ''http://queue'' :: (string MemAdapter) RemoteAdapter"
  let ?p = "remote_Publish Inr Some ?ra None ''a%2Fb'' (map Some [''m'']) (NewAdapter 2)"
  have u: "PathUnescape ''a%2Fb'' = Some ''a/b''" by code_simp
  have d: "\<not> dot_name ''a%2Fb''" by (simp add: dot_name_def)
  have "fst ?p = None"
    unfolding remote_publish_served [OF codec_id list.distinct(2) endpoint_localhost d] u
    by (simp add: Publish_def NewAdapter_def ensure_queue_def make_queue_def chan_cap_def chan_len_def)
  then have p: "?p = (None, snd ?p)" by (metis prod.collapse)
  from remote_publish_queue [OF mem_inv_New codec_id list.distinct(2) endpoint_localhost p] p show ?thesis
    by (intro exI [of _ "snd ?p"]) (simp add: u pending_New)
qed

text \<open>
  C25. The endpoint publishes a request as a whole or not at all: the answer is 204 only to a POST whose
  body decodes and whose messages all decode, and then exactly those messages are at the back of one
  queue; with any other answer, which is a redirect, 400, 404, 405 or 500, no queue has changed.
\<close>

theorem publish_endpoint_atomic:
  assumes "mem_inv a" and "NewPublishHandler unmarshal r a = (resp, a')"
  shows "mem_inv a' \<and>
    (if resp_StatusCode resp = 204
     then req_Method r = ''POST'' \<and>
       (\<exists>q es ms. Decode ''messages'' (req_Body r) = Some es \<and> decode_payloads unmarshal 0 es = Inr ms \<and>
          pending a' = (pending a)(q := pending a q @ ms))
     else pending a' = pending a \<and> resp_StatusCode resp \<in> {301, 400, 404, 405, 500})"
proof (cases "mux_route r")
  case Serve
  with assms(2) have "handle_publish unmarshal r a = (resp, a')" by (simp add: NewPublishHandler_def)
  then consider "a' = a" "resp_StatusCode resp \<in> {400, 404, 405}"
    | "a' = a" "req_Method r = ''POST''" "Decode ''messages'' (req_Body r) = Some []" "resp_StatusCode resp = 204"
    | q es ms ret where "req_Method r = ''POST''" "Decode ''messages'' (req_Body r) = Some es"
        "decode_payloads unmarshal 0 es = Inr ms" "Publish (req_Context r) q ms a = (ret, a')"
        "resp_StatusCode resp = (if ret = None then 204 else 500)"
    by (auto simp: handle_publish_def http_Error_def NotFound_def NoContent_def Let_def
        split: if_splits option.splits sum.splits prod.splits)
  then show ?thesis
  proof cases
    case 2
    then show ?thesis using assms(1) by auto
  next
    case (3 q es ms ret)
    from Publish_cases [OF assms(1) 3(4)] 3 show ?thesis by (cases ret) auto
  qed (use assms(1) in auto)
qed (use assms in \<open>auto simp: NewPublishHandler_def NotFound_def http_Error_def\<close>)

definition post_users :: "string \<Rightarrow> Request" where
  "post_users body = \<lparr>req_Method = ''POST'', req_URL = empty_URL\<lparr>url_Path := ''/queues/users/messages''\<rparr>,
     req_Header = [], req_Body = body, req_Context = None\<rparr>"

theorem publish_endpoint_atomic_witness:
  "\<exists>resp a'. NewPublishHandler Inr (post_users (Marshal ''messages'' [''bQ=='', ''?''])) (NewAdapter 2) = (resp, a') \<and>
     resp = http_Error ''invalid message 1 payload'' 400 \<and> pending a' = pending (NewAdapter 2)"
proof -
  let ?r = "post_users (Marshal ''messages'' [''bQ=='', ''?''])"
  let ?h = "NewPublishHandler Inr ?r (NewAdapter 2)"
  have "EscapedPath (req_URL ?r) = publish_path ''users''"
    by (simp add: post_users_def EscapedPath_def empty_URL_def escape_byte_def shouldEscape_def alphanum_def
        publish_path_def PathEscape_def)
  then have "mux_route ?r = Serve" by (rule mux_route_publish) (simp add: dot_name_def)
  moreover have "Decode ''messages'' (req_Body ?r) = Some [''bQ=='', ''?'']"
    unfolding post_users_def by (simp only: Request.simps) (rule Decode_Marshal; simp add: is_ascii_def)
  moreover have "fmt_nat 1 = ''1''" by code_simp
  then have "decode_payloads Inr 0 [''bQ=='', ''?''] = (Inl ''invalid message 1 payload'' :: string + string list)"
    by (simp add: DecodeString_def b64_digit_def b64_newline_def b64_end_def Let_def)
  moreover have "CutPrefix ''/queues/users/messages'' ''/queues/'' = (''users/messages'', True)"
    "HasSuffix ''users/messages'' ''/messages''" "TrimSuffix ''users/messages'' ''/messages'' = ''users''"
    using CutPrefix_append [of "''/queues/''"] HasSuffix_append [of "''users''"] TrimSuffix_append [of "''users''"] by simp_all
  moreover have "PathUnescape ''users'' = Some ''users''" by (simp add: PathUnescape_def)
  ultimately have f: "fst ?h = http_Error ''invalid message 1 payload'' 400"
    by (simp add: NewPublishHandler_def handle_publish_def post_users_def)
  then have h: "?h = (http_Error ''invalid message 1 payload'' 400, snd ?h)" by (metis prod.collapse)
  from publish_endpoint_atomic [OF mem_inv_New h] have "pending (snd ?h) = pending (NewAdapter 2)"
    by (simp add: http_Error_def)
  with h show ?thesis by blast
qed

text \<open>
  The body a remote adapter sends is read back by the endpoint as the same messages: base64 inside a
  JSON array of strings loses nothing, for any number of messages the codec reads back.
\<close>

lemma wire_roundtrip:
  assumes "codec_on marshal unmarshal ms"
  shows "\<exists>encoded. encode_messages marshal i (map Some ms) = Inr encoded \<and>
    Decode ''messages'' (Marshal ''messages'' encoded) = Some encoded \<and>
    decode_payloads unmarshal j encoded = Inr ms"
proof -
  from payloads_roundtrip [OF assms] obtain es where es:
    "encode_messages marshal i (map Some ms) = Inr es" "list_all is_ascii es" "decode_payloads unmarshal j es = Inr ms"
    by blast
  have "is_ascii ''messages''" by (simp add: is_ascii_def)
  from Decode_Marshal [OF this es(2)] es show ?thesis by blast
qed

end
