(* ===== verification/DemoProgram.thy ===== *)
theory DemoProgram
  imports UserService HttpAdapter
begin

text \<open>
  \<open>go/examples/userservice/main.go\<close>: the program around the example service, in its five modes.

  What a run does is the list of its effects in the order of the main goroutine; the log is part of
  it.  What the run meets is an argument: the outcome of network calls, which channel
  its \<open>select\<close> received from first, and what the other channels delivered later.  A call of \<open>log.Fatalf\<close>
  ends the process.
\<close>

section \<open>Effects and environment\<close>

datatype effect =
    Log string
  | Listen string
  | StartHTTP string
  | ServeGRPC
  | GracefulStop
  | StartServer
  | StopServer
  | AwaitServer
  | ShutdownHTTP
  | Sleep nat

datatype exit = Returned | Exited

definition Fatalf :: "string \<Rightarrow> effect list \<times> exit" where
  "Fatalf text = ([Log text], Exited)"

text \<open>What the \<open>select\<close> of the servers receives first.\<close>

datatype first_event = Signal | QueueErr error | ServerErr "error option"

text \<open>
  \<open>env_stop\<close> is the result of \<open>server.Stop\<close>, \<open>env_server\<close> what \<open>server.Start\<close> returned after it, \<open>env_shutdown\<close>
  the result of the HTTP server's \<open>Shutdown\<close>, and \<open>env_queue\<close> an error left in \<open>queueErrCh\<close> at the end.
\<close>

record server_env =
  env_stop :: "error option"
  env_server :: "error option"
  env_shutdown :: "error option"
  env_queue :: "error option"

definition demo_queueName :: string where
  "demo_queueName = ''user-service-queue''"

definition grpcAddr :: string where
  "grpcAddr = ''localhost:50051''"

definition ErrServerClosed :: error where
  "ErrServerClosed = Ext ''http: Server closed''"

section \<open>The modes with plain gRPC\<close>

definition runSyncServer :: "error option \<Rightarrow> error option \<Rightarrow> effect list \<times> exit" where
  "runSyncServer listen_err serve_err =
     (case listen_err of
        Some err \<Rightarrow> Fatalf (''Failed to listen: '' @ error_text err)
      | None \<Rightarrow>
     (let started = [Listen grpcAddr, Log (''gRPC server listening on '' @ grpcAddr), ServeGRPC]
      in case serve_err of
           Some err \<Rightarrow> map_prod (\<lambda>es. started @ es) id (Fatalf (''Failed to serve: '' @ error_text err))
         | None \<Rightarrow> (started @ [Log ''Shutting down gRPC server...'', GracefulStop], Returned)))"

text \<open>The users all clients create.\<close>

definition demo_users :: "CreateUserRequest list" where
  "demo_users =
     [\<lparr>cu_Name = ''Alice Johnson'', cu_Email = ''alice@example.com''\<rparr>,
      \<lparr>cu_Name = ''Bob Smith'', cu_Email = ''bob@example.com''\<rparr>,
      \<lparr>cu_Name = ''Charlie Brown'', cu_Email = ''charlie@example.com''\<rparr>]"

fun sync_calls ::
  "(CreateUserRequest \<Rightarrow> 'w \<Rightarrow> (error + CreateUserResponse) \<times> 'w) \<Rightarrow> CreateUserRequest list \<Rightarrow> 'w \<Rightarrow> effect list \<times> 'w" where
  "sync_calls call [] w = ([], w)"
| "sync_calls call (user # rest) w =
     (case call user w of
        (Inl err, w') \<Rightarrow>
          map_prod (Cons (Log (''CreateUser failed: '' @ error_text err))) id (sync_calls call rest w')
      | (Inr resp, w') \<Rightarrow>
          map_prod (Cons (Log (''Created user: id='' @ cr_UserId resp @ '' name='' @ cr_Name resp @ '' email='' @ cr_Email resp))) id
            (sync_calls call rest w'))"

definition runSyncClient ::
  "error option \<Rightarrow> (CreateUserRequest \<Rightarrow> 'w \<Rightarrow> (error + CreateUserResponse) \<times> 'w) \<Rightarrow> 'w \<Rightarrow> (effect list \<times> exit) \<times> 'w" where
  "runSyncClient dial_err call w =
     (case dial_err of
        Some err \<Rightarrow> (Fatalf (''Failed to connect: '' @ error_text err), w)
      | None \<Rightarrow>
     (let (es, w') = sync_calls call demo_users w
      in (([Log ''Calling CreateUser via traditional gRPC...''] @ es @ [Log ''Sync client completed''], Returned), w')))"

section \<open>The modes with grpcq\<close>

text \<open>The publishing loop of \<open>runAsyncClient\<close> and \<open>runDemo\<close>; \<open>create i\<close> is the call with the \<open>i\<close>-th message's id and time.\<close>

fun publish_users ::
  "(nat \<Rightarrow> CreateUserRequest \<Rightarrow> 'w \<Rightarrow> error option \<times> 'w) \<Rightarrow> nat \<Rightarrow> CreateUserRequest list \<Rightarrow> 'w \<Rightarrow> effect list \<times> 'w" where
  "publish_users create i [] w = ([], w)"
| "publish_users create i (user # rest) w =
     (case create i user w of
        (Some err, w') \<Rightarrow>
          map_prod (Cons (Log (''Failed to publish: '' @ error_text err))) id (publish_users create (Suc i) rest w')
      | (None, w') \<Rightarrow>
          map_prod (\<lambda>es. [Log (''Published CreateUser request for: '' @ cu_Name user), Sleep 200] @ es) id
            (publish_users create (Suc i) rest w'))"

text \<open>A producer on a remote adapter, as the clients build it.\<close>

definition remote_create ::
  "(request \<Rightarrow> error + bytes) \<Rightarrow> (message \<Rightarrow> error + bytes) \<Rightarrow> (string \<Rightarrow> string option) \<Rightarrow> 'w http_client \<Rightarrow>
   (nat \<Rightarrow> string) \<Rightarrow> (nat \<Rightarrow> int) \<Rightarrow> string \<Rightarrow> string \<Rightarrow> ctx \<Rightarrow> nat \<Rightarrow> CreateUserRequest \<Rightarrow> 'w \<Rightarrow> error option \<times> 'w" where
  "remote_create marshal marshal_msg authority net uuid now queueEndpoint orig c i user w =
     (let adapter = NewRemoteAdapter net queueEndpoint [];
          cl = NewUserServiceProducer [WithClientQueueName demo_queueName, WithOriginator orig]
      in producer_CreateUser marshal (\<lambda>c q ms. remote_Publish marshal_msg authority adapter c q (map Some ms))
           (uuid i) (now i) cl c user [] w)"

definition runAsyncClient ::
  "(request \<Rightarrow> error + bytes) \<Rightarrow> (message \<Rightarrow> error + bytes) \<Rightarrow> (string \<Rightarrow> string option) \<Rightarrow> 'w http_client \<Rightarrow>
   (nat \<Rightarrow> string) \<Rightarrow> (nat \<Rightarrow> int) \<Rightarrow> string \<Rightarrow> ctx \<Rightarrow> 'w \<Rightarrow> (effect list \<times> exit) \<times> 'w" where
  "runAsyncClient marshal marshal_msg authority net uuid now queueEndpoint c w =
     (let (es, w') = publish_users (remote_create marshal marshal_msg authority net uuid now queueEndpoint ''example-client'' c)
                       0 demo_users w
      in (([Log (''Publishing CreateUser requests via grpcq (endpoint: '' @ queueEndpoint @ '')...'')] @ es
           @ [Log ''Async client completed''], Returned), w'))"

text \<open>The consumer both servers start: queue, concurrency 5 and a poll interval of 100 ms.\<close>

definition demo_server_of ::
  "(string \<Rightarrow> string \<Rightarrow> error) \<Rightarrow> (request \<Rightarrow> (bytes \<Rightarrow> error + request) option) \<Rightarrow> ('a, UserService, 'r) Server" where
  "demo_server_of status_Error unmarshal =
     RegisterUserServiceConsumer status_Error unmarshal
       [WithQueueName demo_queueName, WithConcurrency 5, WithPollInterval 100]"

text \<open>An error that is logged unless it is the cancellation the program itself causes.\<close>

definition log_unless :: "error \<Rightarrow> string \<Rightarrow> error option \<Rightarrow> effect list" where
  "log_unless quiet text e =
     (case e of None \<Rightarrow> [] | Some err \<Rightarrow> if errors_Is err quiet then [] else [Log (text @ error_text err)])"

text \<open>The error \<open>startQueuePublishServer\<close> sends to its channel when \<open>ListenAndServe\<close> has returned.\<close>

definition queue_server_error :: "error option \<Rightarrow> error option" where
  "queue_server_error ret =
     (case ret of None \<Rightarrow> None | Some err \<Rightarrow> if errors_Is err ErrServerClosed then None else Some err)"

definition shutdownHTTPServer :: "error option \<Rightarrow> effect list" where
  "shutdownHTTPServer ret = [ShutdownHTTP] @ log_unless ErrServerClosed ''Queue publish server shutdown error: '' ret"

definition select_first :: "string \<Rightarrow> first_event \<Rightarrow> effect list \<times> bool" where
  "select_first signal_text first =
     (case first of
        Signal \<Rightarrow> ([Log signal_text], True)
      | QueueErr err \<Rightarrow> ([Log (''Queue publish server error: '' @ error_text err)], True)
      | ServerErr e \<Rightarrow> (log_unless Canceled ''grpcq server exited: '' e, False))"

definition stop_server :: "bool \<Rightarrow> server_env \<Rightarrow> effect list" where
  "stop_server serverRunning env =
     (if serverRunning
      then [StopServer] @ log_unless Canceled ''Error stopping server: '' (env_stop env)
           @ [AwaitServer] @ log_unless Canceled ''grpcq server exited: '' (env_server env)
      else [])"

definition finish :: "server_env \<Rightarrow> effect list" where
  "finish env =
     shutdownHTTPServer (env_shutdown env)
     @ (case env_queue env of None \<Rightarrow> [] | Some err \<Rightarrow> [Log (''Queue publish server error: '' @ error_text err)])"

definition runAsyncServer :: "string \<Rightarrow> first_event \<Rightarrow> server_env \<Rightarrow> effect list \<times> exit" where
  "runAsyncServer queueListenAddr first env =
     (let (es, serverRunning) = select_first ''Shutdown signal received'' first
      in ([StartHTTP queueListenAddr, Log ''grpcq server started, waiting for messages...'', StartServer]
          @ es @ stop_server serverRunning env @ finish env, Returned))"

text \<open>The \<open>select\<close> of the demo has a timer as well: \<open>None\<close> when it fires first.\<close>

definition runDemo ::
  "(request \<Rightarrow> error + bytes) \<Rightarrow> (message \<Rightarrow> error + bytes) \<Rightarrow> (string \<Rightarrow> string option) \<Rightarrow> 'w http_client \<Rightarrow>
   (nat \<Rightarrow> string) \<Rightarrow> (nat \<Rightarrow> int) \<Rightarrow> string \<Rightarrow> string \<Rightarrow> ctx \<Rightarrow> first_event option \<Rightarrow> server_env \<Rightarrow> 'w \<Rightarrow>
   (effect list \<times> exit) \<times> 'w" where
  "runDemo marshal marshal_msg authority net uuid now queueListenAddr queueEndpoint c first env w =
     (let (pub, w') = publish_users (remote_create marshal marshal_msg authority net uuid now queueEndpoint ''demo-client'' c)
                        0 demo_users w;
          (es, serverRunning) =
            (case first of
               Some ev \<Rightarrow> select_first ''Received shutdown signal'' ev
             | None \<Rightarrow> ([Log ''Demo completed''], True))
      in (([StartHTTP queueListenAddr, StartServer, Sleep 100,
            Log (''Publishing user creation requests (endpoint: '' @ queueEndpoint @ '')...'')]
           @ pub @ [Log ''All messages published''] @ es @ [Sleep 1000] @ stop_server serverRunning env @ finish env,
           Returned), w'))"

datatype run_mode = SyncServer | SyncClient | AsyncServer | AsyncClient | Demo

text \<open>The dispatch of \<open>main\<close>: the log line and the mode to run, or the end of the process.\<close>

definition main_mode :: "string \<Rightarrow> (effect list \<times> exit) + (effect list \<times> run_mode)" where
  "main_mode mode =
     (if mode = ''sync-server'' then Inr ([Log ''Starting in SYNC SERVER mode (traditional gRPC)''], SyncServer)
      else if mode = ''sync-client'' then Inr ([Log ''Starting in SYNC CLIENT mode (traditional gRPC)''], SyncClient)
      else if mode = ''async-server'' then Inr ([Log ''Starting in ASYNC SERVER mode (grpcq)''], AsyncServer)
      else if mode = ''async-client'' then Inr ([Log ''Starting in ASYNC CLIENT mode (grpcq)''], AsyncClient)
      else if mode = ''demo'' then Inr ([Log ''Starting in DEMO mode (async server + client)''], Demo)
      else Inl (Fatalf (''Unknown mode: '' @ mode)))"

section \<open>Shutdown\<close>

text \<open>The effects that end a run of a server.\<close>

definition is_shutdown :: "effect \<Rightarrow> bool" where
  "is_shutdown e \<longleftrightarrow> e \<in> {StopServer, AwaitServer, ShutdownHTTP}"

lemma is_shutdown_simps [simp]:
  "is_shutdown StopServer" "is_shutdown AwaitServer" "is_shutdown ShutdownHTTP" "\<not> is_shutdown (Log t)"
  "\<not> is_shutdown (StartHTTP t)" "\<not> is_shutdown StartServer" "\<not> is_shutdown (Sleep n)"
  by (simp_all add: is_shutdown_def)

lemma shutdown_log [simp]: "filter is_shutdown (log_unless quiet text e) = []"
  by (simp add: log_unless_def split: option.split)

lemma shutdown_stop [simp]:
  "filter is_shutdown (stop_server up env) = (if up then [StopServer, AwaitServer] else [])"
  by (simp add: stop_server_def)

lemma shutdown_finish [simp]: "filter is_shutdown (finish env) = [ShutdownHTTP]"
  by (simp add: finish_def shutdownHTTPServer_def split: option.split)

lemma shutdown_select:
  "select_first text first = (es, up) \<Longrightarrow>
   filter is_shutdown es = [] \<and> up = (case first of ServerErr _ \<Rightarrow> False | _ \<Rightarrow> True)"
  by (auto simp: select_first_def split: first_event.splits)

lemma shutdown_publish [simp]: "filter is_shutdown (fst (publish_users create i us w)) = []"
  by (induction create i us w rule: publish_users.induct) (auto split: option.split prod.split)

section \<open>Publishing\<close>

definition payload_of :: "(request \<Rightarrow> error + bytes) \<Rightarrow> CreateUserRequest \<Rightarrow> bytes" where
  "payload_of marshal user = projr (marshal (ReqCreate user))"

definition user_message ::
  "(request \<Rightarrow> error + bytes) \<Rightarrow> (nat \<Rightarrow> string) \<Rightarrow> (nat \<Rightarrow> int) \<Rightarrow> string \<Rightarrow> nat \<Rightarrow> CreateUserRequest \<Rightarrow> message" where
  "user_message marshal uuid now orig i user =
     envelope (NewProducer orig) service_name ''CreateUser'' (payload_of marshal user) (uuid i) (now i) []"

fun user_messages ::
  "(request \<Rightarrow> error + bytes) \<Rightarrow> (nat \<Rightarrow> string) \<Rightarrow> (nat \<Rightarrow> int) \<Rightarrow> string \<Rightarrow> nat \<Rightarrow> CreateUserRequest list \<Rightarrow> message list" where
  "user_messages marshal uuid now orig i [] = []"
| "user_messages marshal uuid now orig i (user # rest) =
     user_message marshal uuid now orig i user # user_messages marshal uuid now orig (Suc i) rest"

definition sendable :: "(request \<Rightarrow> error + bytes) \<Rightarrow> CreateUserRequest \<Rightarrow> bool" where
  "sendable marshal user \<longleftrightarrow>
     (case marshal (ReqCreate user) of Inl _ \<Rightarrow> False | Inr p \<Rightarrow> length p \<le> MaxMessageSize)"

lemma length_user_messages [simp]: "length (user_messages marshal uuid now orig i us) = length us"
  by (induction us arbitrary: i) simp_all

lemma remote_is_loopback:
  "NewRemoteAdapter (loopback (NewPublishHandler unmarshal)) url [] = loopback_adapter net unmarshal url"
  by (simp add: loopback_adapter_def NewRemoteAdapter_def WithHTTPClient_def)

lemma demo_names:
  "validateQueueName demo_queueName = None" "validateTopicAction service_name ''CreateUser'' = None"
  "CHR ''%'' \<notin> set demo_queueName" "\<not> dot_name demo_queueName"
proof -
  show "validateQueueName demo_queueName = None"
    by (rule validateQueueName_ok) (simp_all add: demo_queueName_def queue_char_def)
  show "validateTopicAction service_name ''CreateUser'' = None"
    by (rule validateTopicAction_ok) (simp_all add: service_name_def IsSpace_def)
qed (simp_all add: demo_queueName_def dot_name_def)

text \<open>One call of the loop is one message more in the queue, while there is room.\<close>

lemma remote_create_ok:
  assumes "mem_inv a" and "endpoint authority auth url" and "sendable marshal user"
    and "codec_on marshal_msg unmarshal_msg [user_message marshal uuid now orig i user]"
    and "int (length (pending a demo_queueName)) < bufferSize a"
  shows "\<exists>a'. remote_create marshal marshal_msg authority (loopback (NewPublishHandler unmarshal_msg)) uuid now url orig None i user a
      = (None, a') \<and> mem_inv a' \<and> bufferSize a' = bufferSize a \<and>
    pending a' = (pending a)(demo_queueName := pending a demo_queueName @ [user_message marshal uuid now orig i user])"
proof -
  let ?m = "user_message marshal uuid now orig i user"
  from Publish_view [OF assms(1), of None demo_queueName "[?m]"] assms(5) obtain a' where
    p: "Publish None demo_queueName [?m] a = (None, a')"
      "pending a' = (pending a)(demo_queueName := pending a demo_queueName @ [?m])" by auto
  from assms(3) obtain pl where pl: "marshal (ReqCreate user) = Inr pl" "length pl \<le> MaxMessageSize"
    by (auto simp: sendable_def split: sum.splits)
  have "remote_create marshal marshal_msg authority (loopback (NewPublishHandler unmarshal_msg)) uuid now url orig None i user a
      = remote_Publish marshal_msg authority (loopback_adapter undefined unmarshal_msg url) None demo_queueName (map Some [?m]) a"
    using pl
    by (simp add: remote_create_def remote_is_loopback [where net = undefined] producer_CreateUser_def client_Invoke_def
        NewUserServiceProducer_def NewClient_def WithClientQueueName_def WithOriginator_def Send_def demo_names Let_def
        user_message_def payload_of_def)
  also have "\<dots> = (None, a')"
    by (subst remote_publish_plain [OF assms(4,2) demo_names(3,4)]) (simp add: p(1))
  finally show ?thesis using Publish_cases [OF assms(1) p(1)] Publish_bufferSize [OF assms(1) p(1)] p(2) by blast
qed

lemma publish_users_ok:
  assumes "mem_inv a" and "endpoint authority auth url" and "list_all (sendable marshal) us"
    and "codec_on marshal_msg unmarshal_msg (user_messages marshal uuid now orig i us)"
    and "int (length (pending a demo_queueName)) + int (length us) \<le> bufferSize a"
  shows "\<exists>a'. publish_users (remote_create marshal marshal_msg authority (loopback (NewPublishHandler unmarshal_msg))
      uuid now url orig None) i us a =
    (concat (map (\<lambda>u. [Log (''Published CreateUser request for: '' @ cu_Name u), Sleep 200]) us), a') \<and>
    pending a' = (pending a)(demo_queueName := pending a demo_queueName @ user_messages marshal uuid now orig i us)"
  using assms
proof (induction us arbitrary: i a)
  case (Cons u us)
  have "sendable marshal u" "codec_on marshal_msg unmarshal_msg [user_message marshal uuid now orig i u]"
    "codec_on marshal_msg unmarshal_msg (user_messages marshal uuid now orig (Suc i) us)"
    using Cons.prems(3,4) by (simp_all add: codec_on_def)
  note u = this
  from remote_create_ok [OF Cons.prems(1,2) u(1,2)] Cons.prems(5) obtain a1 where a1:
    "remote_create marshal marshal_msg authority (loopback (NewPublishHandler unmarshal_msg)) uuid now url orig None i u a = (None, a1)"
    "mem_inv a1" "bufferSize a1 = bufferSize a"
    "pending a1 = (pending a)(demo_queueName := pending a demo_queueName @ [user_message marshal uuid now orig i u])"
    by auto
  have "list_all (sendable marshal) us" using Cons.prems(3) by simp
  moreover have "int (length (pending a1 demo_queueName)) + int (length us) \<le> bufferSize a1"
    using Cons.prems(5) by (simp add: a1(3,4))
  ultimately obtain a' where "publish_users (remote_create marshal marshal_msg authority (loopback (NewPublishHandler unmarshal_msg))
      uuid now url orig None) (Suc i) us a1 =
      (concat (map (\<lambda>u. [Log (''Published CreateUser request for: '' @ cu_Name u), Sleep 200]) us), a')"
    "pending a' = (pending a1)(demo_queueName := pending a1 demo_queueName @ user_messages marshal uuid now orig (Suc i) us)"
    using Cons.IH [OF a1(2) Cons.prems(2) _ u(3)] by blast
  then show ?case by (intro exI [of _ a']) (simp add: a1(1,4))
qed simp

section \<open>Serving\<close>

lemma serve_user:
  assumes "unmarshal (ReqCreate \<lparr>cu_Name = [], cu_Email = []\<rparr>) = Some um"
    and "um (payload_of marshal u) = Inr (ReqCreate u)" and "cu_Name u \<noteq> []" and "cu_Email u \<noteq> []"
  shows "Handle (srv_registry (demo_server_of st unmarshal)) c (user_message marshal uuid now orig i u) app =
    (None, snd (CreateUser st c u app))"
proof -
  let ?m = "user_message marshal uuid now orig i u"
  have m: "Topic ?m = service_name" "Action ?m = ''CreateUser''" "Payload ?m = payload_of marshal u"
    by (simp_all add: user_message_def envelope_def)
  show ?thesis
    using assms m(3) unfolding demo_server_of_def consumer_create [OF m(1,2)]
    by (simp add: wrappedHandler_def create_closure_def CreateUser_def Let_def)
qed

lemma runDemo_publishes:
  assumes "publish_users (remote_create marshal marshal_msg authority net uuid now url ''demo-client'' c) 0 demo_users w = (pub, w')"
  shows "\<exists>es. runDemo marshal marshal_msg authority net uuid now addr url c ev env w = ((es, Returned), w') \<and> set pub \<subseteq> set es"
proof -
  obtain es up where s: "(case ev of Some ev \<Rightarrow> select_first ''Received shutdown signal'' ev
             | None \<Rightarrow> ([Log ''Demo completed''], True)) = (es, up)" by fastforce
  show ?thesis unfolding runDemo_def assms s by (intro exI conjI) (simp, auto)
qed

section \<open>Properties\<close>

text \<open>
  The servers of the example program shut down in order on every path: whatever ends the run, an
  error of the server itself, a signal, an error of the publish endpoint or the demo's timer, a server
  that still runs is told to stop and waited for, and then the publish endpoint is shut down; a
  server that has returned is not stopped again.  The program never ends with its server running.
\<close>

lemma demo_shutdown:
  "filter is_shutdown (fst (runAsyncServer addr first env)) =
     (case first of ServerErr _ \<Rightarrow> [ShutdownHTTP] | _ \<Rightarrow> [StopServer, AwaitServer, ShutdownHTTP]) \<and>
   filter is_shutdown (fst (fst (runDemo marshal marshal_msg authority net uuid now addr url c ev env w))) =
     (case ev of Some (ServerErr _) \<Rightarrow> [ShutdownHTTP] | _ \<Rightarrow> [StopServer, AwaitServer, ShutdownHTTP])"
proof
  obtain es up where s: "select_first ''Shutdown signal received'' first = (es, up)" by fastforce
  from shutdown_select [OF s] show "filter is_shutdown (fst (runAsyncServer addr first env)) =
     (case first of ServerErr _ \<Rightarrow> [ShutdownHTTP] | _ \<Rightarrow> [StopServer, AwaitServer, ShutdownHTTP])"
    by (simp add: runAsyncServer_def s split: first_event.split)
next
  let ?pub = "publish_users (remote_create marshal marshal_msg authority net uuid now url ''demo-client'' c) 0 demo_users w"
  obtain pub w' where pub: "?pub = (pub, w')" by fastforce
  then have "filter is_shutdown pub = []" using shutdown_publish by (metis fst_conv)
  then show "filter is_shutdown (fst (fst (runDemo marshal marshal_msg authority net uuid now addr url c ev env w))) =
     (case ev of Some (ServerErr _) \<Rightarrow> [ShutdownHTTP] | _ \<Rightarrow> [StopServer, AwaitServer, ShutdownHTTP])"
    unfolding runDemo_def pub
    by (auto simp: select_first_def split: option.split first_event.split)
qed

text \<open>
  C28. The demo works end to end over HTTP: started on an adapter with room for three messages and a publish
  endpoint that serves it, the demo's client publishes one message per user, in order, and logs each
  as published; as long as nothing else has used the adapter, the queue of the server then holds exactly these
  messages behind what it held, and the server's registry handles each of them by creating its user.
\<close>

theorem demo_end_to_end:
  assumes "mem_inv a" and "endpoint authority auth url" and "list_all (sendable marshal) demo_users"
    and "codec_on marshal_msg unmarshal_msg (user_messages marshal uuid now ''demo-client'' 0 demo_users)"
    and "int (length (pending a demo_queueName)) + 3 \<le> bufferSize a"
    and "unmarshal (ReqCreate \<lparr>cu_Name = [], cu_Email = []\<rparr>) = Some um"
    and "list_all (\<lambda>u. um (payload_of marshal u) = Inr (ReqCreate u)) demo_users"
  shows "\<exists>es a' ms. runDemo marshal marshal_msg authority (loopback (NewPublishHandler unmarshal_msg)) uuid now addr url None ev env a
      = ((es, Returned), a') \<and>
    pending a' = (pending a)(demo_queueName := pending a demo_queueName @ ms) \<and>
    list_all (\<lambda>u. Log (''Published CreateUser request for: '' @ cu_Name u) \<in> set es) demo_users \<and>
    map (\<lambda>m. Handle (srv_registry (demo_server_of st unmarshal)) c' m app) ms =
      map (\<lambda>u. (None, snd (CreateUser st c' u app))) demo_users"
proof -
  have len: "length demo_users = 3" by (simp add: demo_users_def)
  from publish_users_ok [OF assms(1-4)] assms(5) obtain a' where pub:
    "publish_users (remote_create marshal marshal_msg authority (loopback (NewPublishHandler unmarshal_msg))
       uuid now url ''demo-client'' None) 0 demo_users a =
     (concat (map (\<lambda>u. [Log (''Published CreateUser request for: '' @ cu_Name u), Sleep 200]) demo_users), a')"
    "pending a' = (pending a)(demo_queueName := pending a demo_queueName @ user_messages marshal uuid now ''demo-client'' 0 demo_users)"
    by (auto simp: len)
  have "list_all (\<lambda>u. cu_Name u \<noteq> [] \<and> cu_Email u \<noteq> []) demo_users" by (simp add: demo_users_def)
  then have "map (\<lambda>m. Handle (srv_registry (demo_server_of st unmarshal)) c' m app) (user_messages marshal uuid now ''demo-client'' i us) =
      map (\<lambda>u. (None, snd (CreateUser st c' u app))) us" if "set us \<subseteq> set demo_users" for i us
    using that assms(7)
    by (induction us arbitrary: i) (auto simp: serve_user [where unmarshal = unmarshal and um = um, OF assms(6)] list_all_iff)
  note handled = this [OF order_refl, of 0]
  obtain es where es: "runDemo marshal marshal_msg authority (loopback (NewPublishHandler unmarshal_msg)) uuid now addr url None ev env a
      = ((es, Returned), a')"
    "set (concat (map (\<lambda>u. [Log (''Published CreateUser request for: '' @ cu_Name u), Sleep 200]) demo_users)) \<subseteq> set es"
    using runDemo_publishes [OF pub(1)] by blast
  have "list_all (\<lambda>u. Log (''Published CreateUser request for: '' @ cu_Name u) \<in> set es) demo_users"
    using es(2) unfolding list_all_iff by auto
  with es(1) pub(2) handled show ?thesis by blast
qed

text \<open>A codec for the demo's requests and messages, by name and by payload.\<close>

definition by_name :: "request \<Rightarrow> error + bytes" where
  "by_name req = (case req of ReqCreate u \<Rightarrow> Inr (cu_Name u) | ReqGet g \<Rightarrow> Inr (gu_UserId g))"

definition find_user :: "bytes \<Rightarrow> error + request" where
  "find_user bs =
     (case find (\<lambda>u. cu_Name u = bs) demo_users of Some u \<Rightarrow> Inr (ReqCreate u) | None \<Rightarrow> Inl (Ext ''proto''))"

definition demo_messages :: "message list" where
  "demo_messages = user_messages by_name (\<lambda>_. ''id'') (\<lambda>_. 0) ''demo-client'' 0 demo_users"

definition find_message :: "bytes \<Rightarrow> error + message" where
  "find_message bs = (case find (\<lambda>m. Payload m = bs) demo_messages of Some m \<Rightarrow> Inr m | None \<Rightarrow> Inl (Ext ''proto''))"

lemma demo_codec:
  "list_all (sendable by_name) demo_users" "list_all (\<lambda>u. find_user (payload_of by_name u) = Inr (ReqCreate u)) demo_users"
  "codec_on (\<lambda>m. Inr (Payload m)) find_message demo_messages"
  by (simp_all add: sendable_def by_name_def demo_users_def MaxMessageSize_def payload_of_def find_user_def codec_on_def
      find_message_def demo_messages_def user_message_def envelope_def)

theorem demo_end_to_end_witness:
  "\<exists>es a' ms. runDemo by_name (\<lambda>m. Inr (Payload m)) Some (loopback (NewPublishHandler find_message)) (\<lambda>_. ''id'') (\<lambda>_. 0)
      ''queue'' ''http://queue'' None (Some Signal) \<lparr>env_stop = None, env_server = Some Canceled, env_shutdown = None, env_queue = None\<rparr>
      (NewAdapter 1000) = ((es, Returned), a') \<and>
    pending a' demo_queueName = ms \<and>
    map (\<lambda>m. fst (Handle (srv_registry (demo_server_of (\<lambda>_. Ext) (\<lambda>_. Some find_user) :: (message MemAdapter, UserService, nat) Server)) None m
      (NewUserService 7))) ms = [None, None, None]"
proof -
  let ?env = "\<lparr>env_stop = None, env_server = Some Canceled, env_shutdown = None, env_queue = None\<rparr>"
  let ?h = "\<lambda>m. Handle (srv_registry (demo_server_of (\<lambda>_. Ext) (\<lambda>_. Some find_user) :: (message MemAdapter, UserService, nat) Server)) None m
    (NewUserService 7)"
  have room: "int (length (pending (NewAdapter 1000) demo_queueName)) + 3 \<le> bufferSize (NewAdapter 1000)"
    by (simp add: pending_def NewAdapter_def)
  from demo_end_to_end [OF mem_inv_New endpoint_localhost demo_codec(1) demo_codec(3) [unfolded demo_messages_def] room refl demo_codec(2),
      where addr = "''queue''" and ev = "Some Signal" and env = ?env and st = "\<lambda>_. Ext" and c' = None and app = "NewUserService 7"]
  obtain es a' ms where "runDemo by_name (\<lambda>m. Inr (Payload m)) Some (loopback (NewPublishHandler find_message)) (\<lambda>_. ''id'') (\<lambda>_. 0)
      ''queue'' ''http://queue'' None (Some Signal) ?env (NewAdapter 1000) = ((es, Returned), a')"
    "pending a' = (pending (NewAdapter 1000))(demo_queueName := pending (NewAdapter 1000) demo_queueName @ ms)"
    "map ?h ms = map (\<lambda>u. (None, snd (CreateUser (\<lambda>_. Ext) None u (NewUserService 7)))) demo_users"
    by blast
  note run = this
  have "map (\<lambda>m. fst (?h m)) ms = map fst (map ?h ms)" by simp
  also have "\<dots> = [None, None, None]" unfolding run(3) by (simp add: demo_users_def)
  finally have "map (\<lambda>m. fst (?h m)) ms = [None, None, None]" .
  moreover have "pending a' demo_queueName = ms" by (simp add: run(2) pending_New)
  ultimately show ?thesis using run(1) by (intro exI [of _ es] exI [of _ a'] exI [of _ ms] conjI)
qed

end
