(* ===== verification/MemoryHistory.thy ===== *)
theory MemoryHistory
  imports MemoryAdapter
begin

text \<open>
  Histories of the in-memory adapter: any sequence of calls of its methods and of its receipts' methods, by any
  number of callers, each call with its own context and outcome of its \<open>select\<close>.

  Every state such a history reaches is well-formed, and at every moment the messages are accounted for:
  what was published and what was put back by a \<open>Nack\<close> is in a channel, or was returned by a
  \<open>Consume\<close>, or was thrown away by \<open>Clear\<close>, or was dropped by a \<open>Consume\<close> that reported an error.
\<close>

section \<open>Histories\<close>

datatype 'm mem_op =
    OpPublish ctx string "'m list"
  | OpConsume select_oracle string int
  | OpAck nat ctx
  | OpNack nat ctx
  | OpClear

primrec mem_exec :: "'m mem_op \<Rightarrow> 'm MemAdapter \<Rightarrow> 'm MemAdapter" where
  "mem_exec (OpPublish c q ms) a = snd (Publish c q ms a)"
| "mem_exec (OpConsume ora q n) a = snd (Consume ora q n a)"
| "mem_exec (OpAck r c) a = snd (Ack r c a)"
| "mem_exec (OpNack r c) a = snd (Nack r c a)"
| "mem_exec OpClear a = Clear a"

text \<open>
  The messages in the channels; those a receipt object was ever made for, whether or not a caller got it; and those in
  the queues that have a name.
\<close>

definition stock :: "'m MemAdapter \<Rightarrow> 'm multiset" where
  "stock a = mset (concat (map (\<lambda>ch. map mwr_message (ch_buf ch)) (chans a)))"

definition issued :: "'m MemAdapter \<Rightarrow> 'm multiset" where
  "issued a = mset (map mr_msg (receipts a))"

definition queued :: "'m MemAdapter \<Rightarrow> 'm multiset" where
  "queued a = mset (concat (map (\<lambda>(q, cid). map mwr_message (ch_buf (chans a ! cid))) (queues a)))"

text \<open>
  What a call accepts, returns to its caller, puts back and throws away, and how many messages it may drop: a \<open>Consume\<close>
  that fails returns none of the messages it has received, which are fewer than it was asked for.
\<close>

primrec accepted :: "'m mem_op \<Rightarrow> 'm MemAdapter \<Rightarrow> 'm multiset" where
  "accepted (OpPublish c q ms) a = (if fst (Publish c q ms a) = None then mset ms else {#})"
| "accepted (OpConsume ora q n) a = {#}"
| "accepted (OpAck r c) a = {#}"
| "accepted (OpNack r c) a = {#}"
| "accepted OpClear a = {#}"

primrec handed_out :: "'m mem_op \<Rightarrow> 'm MemAdapter \<Rightarrow> 'm multiset" where
  "handed_out (OpPublish c q ms) a = {#}"
| "handed_out (OpConsume ora q n) a =
     (case fst (Consume ora q n a) of Inr (Some cr) \<Rightarrow> mset (map Message (Items cr)) | _ \<Rightarrow> {#})"
| "handed_out (OpAck r c) a = {#}"
| "handed_out (OpNack r c) a = {#}"
| "handed_out OpClear a = {#}"

primrec may_drop :: "'m mem_op \<Rightarrow> 'm MemAdapter \<Rightarrow> nat" where
  "may_drop (OpPublish c q ms) a = 0"
| "may_drop (OpConsume ora q n) a = (if isl (fst (Consume ora q n a)) then nat (n - 1) else 0)"
| "may_drop (OpAck r c) a = 0"
| "may_drop (OpNack r c) a = 0"
| "may_drop OpClear a = 0"

primrec put_back :: "'m mem_op \<Rightarrow> 'm MemAdapter \<Rightarrow> 'm multiset" where
  "put_back (OpPublish c q ms) a = {#}"
| "put_back (OpConsume ora q n) a = {#}"
| "put_back (OpAck r c) a = {#}"
| "put_back (OpNack r c) a =
     (case (outstanding a r, requeue_chan (receipts a ! r)) of
        (Some m, Some cid) \<Rightarrow> if chan_len cid a < chan_cap cid a then {#m#} else {#}
      | _ \<Rightarrow> {#})"
| "put_back OpClear a = {#}"

primrec thrown :: "'m mem_op \<Rightarrow> 'm MemAdapter \<Rightarrow> 'm multiset" where
  "thrown (OpPublish c q ms) a = {#}"
| "thrown (OpConsume ora q n) a = {#}"
| "thrown (OpAck r c) a = {#}"
| "thrown (OpNack r c) a = {#}"
| "thrown OpClear a = queued a"

fun total :: "('m mem_op \<Rightarrow> 'm MemAdapter \<Rightarrow> 'b :: comm_monoid_add) \<Rightarrow> 'm mem_op list \<Rightarrow> 'm MemAdapter \<Rightarrow> 'b" where
  "total f [] a = 0"
| "total f (x # xs) a = f x a + total f xs (mem_exec x a)"

section \<open>Well-formedness\<close>

lemma mem_exec_inv:
  assumes "mem_inv a"
  shows "mem_inv (mem_exec x a)"
proof (cases x)
  case (OpPublish c q ms)
  with Publish_cases [OF assms, of c q ms] show ?thesis by (metis mem_exec.simps(1) prod.collapse)
next
  case (OpConsume ora q n)
  with mem.consume_inv [OF assms, of ora q n] show ?thesis by (metis mem_exec.simps(2) prod.collapse)
next
  case (OpAck r c)
  with Ack_inv [OF assms, of r c] show ?thesis by (metis mem_exec.simps(3) prod.collapse)
next
  case (OpNack r c)
  with Nack_inv [OF assms, of r c] show ?thesis by (metis mem_exec.simps(4) prod.collapse)
qed (use Clear_props(1) [OF assms] in simp)

lemma mem_history_inv: "mem_inv a \<Longrightarrow> mem_inv (fold mem_exec xs a)"
  by (induction xs arbitrary: a) (simp_all add: mem_exec_inv)

section \<open>Conservation, call by call\<close>

lemma stock_receipts [simp]: "stock (a\<lparr>receipts := rs\<rparr>) = stock a"
  by (simp add: stock_def)

lemma issued_chans [simp]: "issued (set_buf cid b a) = issued a" "issued (make_queue q a) = issued a"
  by (simp_all add: issued_def)

lemma stock_make_queue [simp]: "stock (make_queue q a) = stock a"
  by (simp add: stock_def)

lemma stock_set_buf:
  assumes "cid < length (chans a)"
  shows "stock (set_buf cid b a) + mset (map mwr_message (ch_buf (chans a ! cid))) = stock a + mset (map mwr_message b)"
  using mset_concat_update [OF assms, of "\<lambda>ch. map mwr_message (ch_buf ch)" "(chans a ! cid)\<lparr>ch_buf := b\<rparr>"]
  by (simp add: stock_def set_buf_def)

lemma stock_append:
  assumes "cid < length (chans a)"
  shows "stock (set_buf cid (ch_buf (chans a ! cid) @ b) a) = stock a + mset (map mwr_message b)"
  using stock_set_buf [OF assms, of "ch_buf (chans a ! cid) @ b"] by simp

lemma ensure_queue_stock:
  assumes "ensure_queue q a = (cid, a1)"
  shows "stock a1 = stock a" "issued a1 = issued a"
  using assms by (auto simp: ensure_queue_def split: option.splits)

lemma Publish_stock:
  assumes "mem_inv a" and "Publish c q ms a = (ret, a')"
  shows "stock a' = stock a + (if ret = None then mset ms else {#})" "issued a' = issued a"
proof -
  have "stock a' = stock a + (if ret = None then mset ms else {#}) \<and> issued a' = issued a"
  proof (cases "ms = [] \<or> c \<noteq> None")
    case True
    with assms(2) show ?thesis by (auto simp: Publish_def split: list.splits option.splits)
  next
    case False
    obtain cid a1 where e: "ensure_queue q a = (cid, a1)" by fastforce
    note a1 = ensure_queue_props [OF assms(1) e] and s = ensure_queue_stock [OF e]
    have "map mwr_message (map (\<lambda>m. \<lparr>mwr_message = m, mwr_receipt = None\<rparr>) ms) = ms" by (simp add: comp_def)
    with assms(2) False a1(2) s show ?thesis
      by (auto simp: Publish_live [OF _ e] fold_chan_send [OF a1(2)] stock_append simp del: map_map split: if_splits)
  qed
  then show "stock a' = stock a + (if ret = None then mset ms else {#})" "issued a' = issued a" by auto
qed

lemma receive_stock:
  assumes "cid < length (chans a)" and "0 < chan_len cid a" and "receive cid a = (it, a')"
  shows "stock a' + issued a' = stock a + issued a" "cid < length (chans a')"
proof -
  let ?b = "ch_buf (chans a ! cid)"
  have "?b \<noteq> []" using assms(2) by (simp add: chan_len_def)
  then have b: "mset (map mwr_message ?b) = add_mset (mwr_message (hd ?b)) (mset (map mwr_message (tl ?b)))"
    by (metis list.collapse list.simps(9) mset.simps(2))
  from assms(3) have a': "stock a' = stock (set_buf cid (tl ?b) a)" "issued a' = add_mset (mwr_message (hd ?b)) (issued a)"
      "length (chans a') = length (chans a)"
    by (auto simp: receive_def issued_def Let_def)
  have "stock a' + mset (map mwr_message ?b) = stock a + mset (map mwr_message (tl ?b))"
    using stock_set_buf [OF assms(1), of "tl ?b"] a'(1) by simp
  then show "stock a' + issued a' = stock a + issued a" unfolding b a'(2) by simp
  show "cid < length (chans a')" using assms(1) a'(3) by simp
qed

lemma consume_loop_stock:
  assumes "cid < length (chans a)" and "consume_loop ora cid i n items a = (res, a')"
  shows "stock a' + issued a' = stock a + issued a"
  using assms
proof (induction n arbitrary: i items a)
  case (Suc n)
  from Suc.prems(2) show ?case
  proof (cases rule: consume_step_cases)
    case (received it a1)
    from receive_stock [OF Suc.prems(1) received(1,2)] Suc.IH [OF _ received(3)] show ?thesis by simp
  qed simp_all
qed simp

lemma Consume_stock:
  assumes "mem_inv a" and "Consume ora q n a = (res, a')"
  shows "stock a' + issued a' = stock a + issued a"
proof -
  obtain cid a1 where e: "ensure_queue q a = (cid, a1)" by fastforce
  note a1 = ensure_queue_props [OF assms(1) e] and s = ensure_queue_stock [OF e]
  from assms(2) consume_loop_stock [OF a1(2)] s show ?thesis
    by (auto simp: Consume_def e split: if_splits)
qed

lemma consume_loop_issued:
  "consume_loop ora cid i n items a = (res, a') \<Longrightarrow>
   \<exists>new. issued a' = issued a + new \<and> size new \<le> n \<and> (isl res \<longrightarrow> size new < n)"
proof (induction n arbitrary: i items a)
  case (Suc n)
  from Suc.prems show ?case
  proof (cases rule: consume_step_cases)
    case (received it a1)
    from received(2) have "issued a1 = add_mset (Message it) (issued a)" by (auto simp: receive_def issued_def Let_def)
    moreover from Suc.IH [OF received(3)] obtain new where
      "issued a' = issued a1 + new" "size new \<le> n" "isl res \<longrightarrow> size new < n" by blast
    ultimately show ?thesis by (intro exI [of _ "add_mset (Message it) new"]) simp
  qed (auto intro: exI [of _ "{#}"])
qed (auto intro: exI [of _ "{#}"])

text \<open>What a call of Consume takes out of the channels: the items it returns, or messages nobody will see.\<close>

lemma Consume_takes:
  assumes "mem_inv a" and "Consume ora q n a = (res, a')"
  shows "\<exists>lost. stock a = stock a' + (case res of Inr (Some cr) \<Rightarrow> mset (map Message (Items cr)) | _ \<Rightarrow> {#}) + lost \<and>
    (\<not> isl res \<longrightarrow> lost = {#}) \<and> size lost \<le> nat (n - 1)"
proof -
  obtain cid a1 where e: "ensure_queue q a = (cid, a1)" by fastforce
  note s = ensure_queue_stock [OF e] and c = Consume_stock [OF assms]
  show ?thesis
  proof (cases "n < 0")
    case True
    with assms(2) e s show ?thesis by (auto simp: Consume_def)
  next
    case False
    with assms(2) e have l: "consume_loop ora cid 0 (nat n) [] a1 = (res, a')" by (simp add: Consume_def)
    show ?thesis
    proof (cases "\<exists>cr. res = Inr (Some cr)")
      case True
      then obtain cr where cr: "res = Inr (Some cr)" by blast
      from consume_loop_receipts [OF l [unfolded cr]] have "issued a' = issued a + mset (map Message (Items cr))"
        using s(2) by (auto simp: issued_def comp_def)
      with c cr show ?thesis by (simp add: ac_simps)
    next
      case False
      have "isl res" using consume_loop_not_nil [of ora cid 0 "nat n" "[]" a1] l False by (cases res) auto
      moreover from consume_loop_issued [OF l] s(2) this obtain lost where
        "issued a' = issued a + lost" "size lost \<le> nat (n - 1)" by auto
      moreover from this(1) c have "stock a = stock a' + lost" by simp
      ultimately show ?thesis using False by (cases res) auto
    qed
  qed
qed

lemma issued_update:
  assumes "r < length (receipts a)" and "mr_msg rc = mr_msg (receipts a ! r)"
  shows "issued (a\<lparr>receipts := (receipts a)[r := rc]\<rparr>) = issued a"
proof -
  have "map mr_msg ((receipts a)[r := rc]) = map mr_msg (receipts a)"
    using assms by (simp add: map_update list_update_same_conv)
  then show ?thesis by (simp add: issued_def)
qed

lemma Ack_stock: "Ack r c a = (ret, a') \<Longrightarrow> stock a' = stock a \<and> issued a' = issued a"
  by (auto simp: Ack_def Let_def issued_update split: if_splits)

lemma Nack_stock:
  assumes "mem_inv a" and "Nack r c a = (ret, a')"
  shows "stock a' = stock a + put_back (OpNack r c) a" "issued a' = issued a"
proof -
  have "stock a' = stock a + put_back (OpNack r c) a \<and> issued a' = issued a"
  proof (cases "outstanding a r")
    case None
    from Nack_settled [OF this, of c] assms(2) None show ?thesis by auto
  next
    case (Some m)
    note n = Nack_open(1) [OF Some, of c] Nack_open(2) [OF Some]
    let ?a1 = "a\<lparr>receipts := (receipts a)[r := (receipts a ! r)\<lparr>nacked := True\<rparr>]\<rparr>"
    have i: "issued ?a1 = issued a" by (rule issued_update [OF n(2)]) simp
    show ?thesis
    proof (cases "requeue_chan (receipts a ! r)")
      case None
      with n(1) assms(2) Some i show ?thesis by auto
    next
      case chan: (Some cid)
      have "receipts a ! r \<in> set (receipts a)" using n(2) by simp
      with assms(1) chan have cid: "cid < length (chans a)" by (auto simp: mem_inv_def)
      from n(1) assms(2) chan have a': "a' = requeueF cid m ?a1" by simp
      have "stock (chan_send cid m ?a1) = stock a + {#m#}" "issued (chan_send cid m ?a1) = issued a"
        using stock_append [of cid ?a1] cid i by (simp_all add: chan_send_def)
      with i show ?thesis by (simp add: a' requeueF_def chan_len_def chan_cap_def Some chan)
    qed
  qed
  then show "stock a' = stock a + put_back (OpNack r c) a" "issued a' = issued a" by auto
qed

lemma clear_queue_chans:
  assumes "cid < length (chans a)"
  shows "length (chans (clear_queue (q, cid) a)) = Suc (length (chans a))"
    "i < length (chans a) \<Longrightarrow> i \<noteq> cid \<Longrightarrow> chans (clear_queue (q, cid) a) ! i = chans a ! i"
    "stock (clear_queue (q, cid) a) + mset (map mwr_message (ch_buf (chans a ! cid))) = stock a"
    "issued (clear_queue (q, cid) a) = issued a"
proof -
  show "i < length (chans a) \<Longrightarrow> i \<noteq> cid \<Longrightarrow> chans (clear_queue (q, cid) a) ! i = chans a ! i"
    by (simp add: clear_queue_def nth_append set_buf_def)
qed (use stock_set_buf [OF assms, of "[]"] in \<open>simp_all add: clear_queue_def\<close>)

lemma mset_shift:
  fixes A B F S S' :: "'a multiset"
  shows "F + B = S' \<Longrightarrow> S' + A = S \<Longrightarrow> F + (A + B) = S"
  by (auto simp: ac_simps)

lemma clear_stock:
  assumes "\<forall>(q, cid) \<in> set nqs. cid < length (chans a)" and "distinct (map snd nqs)"
  shows "stock (fold clear_queue nqs a) + mset (concat (map (\<lambda>(q, cid). map mwr_message (ch_buf (chans a ! cid))) nqs)) = stock a
    \<and> issued (fold clear_queue nqs a) = issued a"
  using assms
proof (induction nqs arbitrary: a)
  case (Cons nq nqs)
  obtain q cid where nq: "nq = (q, cid)" by fastforce
  let ?a = "clear_queue (q, cid) a"
  from Cons.prems nq have cid: "cid < length (chans a)" "\<forall>(q', cid') \<in> set nqs. cid' < length (chans a) \<and> cid' \<noteq> cid"
    by (auto simp: image_iff)
  note c = clear_queue_chans [OF cid(1), where q = q]
  have same: "map (\<lambda>(q, cid). map mwr_message (ch_buf (chans ?a ! cid))) nqs = map (\<lambda>(q, cid). map mwr_message (ch_buf (chans a ! cid))) nqs"
    using cid(2) c(2) by auto
  have "\<forall>(q, cid) \<in> set nqs. cid < length (chans ?a)" using cid(2) c(1) by auto
  with Cons nq have "stock (fold clear_queue nqs ?a) + mset (concat (map (\<lambda>(q, cid). map mwr_message (ch_buf (chans ?a ! cid))) nqs)) = stock ?a
    \<and> issued (fold clear_queue nqs ?a) = issued ?a" by simp
  then have "stock (fold clear_queue nqs ?a) + mset (concat (map (\<lambda>(q, cid). map mwr_message (ch_buf (chans a ! cid))) nqs)) = stock ?a"
    "issued (fold clear_queue nqs ?a) = issued a" unfolding same c(4) by blast+
  with mset_shift [OF this(1) c(3)] show ?case by (simp add: nq)
qed simp

text \<open>The balance of one call.\<close>

lemma mem_exec_stock:
  assumes "mem_inv a"
  shows "\<exists>lost. stock (mem_exec x a) + handed_out x a + thrown x a + lost = stock a + accepted x a + put_back x a \<and>
    size lost \<le> may_drop x a"
proof (cases x)
  case (OpPublish c q ms)
  with Publish_stock [OF assms, of c q ms] show ?thesis by (cases "Publish c q ms a") simp
next
  case (OpConsume ora q n)
  obtain res a' where c: "Consume ora q n a = (res, a')" by fastforce
  from Consume_takes [OF assms c] obtain lost where
    l: "stock a = stock a' + (case res of Inr (Some cr) \<Rightarrow> mset (map Message (Items cr)) | _ \<Rightarrow> {#}) + lost"
    "\<not> isl res \<longrightarrow> lost = {#}" "size lost \<le> nat (n - 1)" by blast
  with OpConsume c show ?thesis by (intro exI [of _ lost]) (auto simp: ac_simps)
next
  case (OpAck r c)
  with Ack_stock [of r c a] show ?thesis by (cases "Ack r c a") simp
next
  case (OpNack r c)
  with Nack_stock [OF assms, of r c] show ?thesis by (cases "Nack r c a") (simp del: put_back.simps(4))
next
  case OpClear
  have "\<forall>(q, cid) \<in> set (queues a). cid < length (chans a)" "distinct (map snd (queues a))"
    using assms by (auto simp: mem_inv_def)
  from clear_stock [OF this] OpClear show ?thesis by (simp add: Clear_def queued_def)
qed

lemma balance_add:
  fixes A A' :: "'a multiset"
  assumes "S1 + H + T + L = S + A + P" and "S2 + H' + T' + L' = S1 + A' + P'"
  shows "S2 + (H + H') + (T + T') + (L + L') = S + (A + A') + (P + P')"
proof (rule multiset_eqI)
  fix x
  show "count (S2 + (H + H') + (T + T') + (L + L')) x = count (S + (A + A') + (P + P')) x"
    using arg_cong [OF assms(1), of "\<lambda>M. count M x"] arg_cong [OF assms(2), of "\<lambda>M. count M x"] by simp
qed

lemma mem_history_stock:
  assumes "mem_inv a"
  shows "\<exists>lost. stock (fold mem_exec xs a) + total handed_out xs a + total thrown xs a + lost =
      stock a + total accepted xs a + total put_back xs a \<and>
    size lost \<le> total may_drop xs a"
  using assms
proof (induction xs arbitrary: a)
  case (Cons x xs)
  from mem_exec_stock [OF Cons.prems, of x] obtain l1 where
    l1: "stock (mem_exec x a) + handed_out x a + thrown x a + l1 = stock a + accepted x a + put_back x a"
    "size l1 \<le> may_drop x a" by blast
  from Cons.IH [OF mem_exec_inv [OF Cons.prems, of x]] obtain l2 where
    l2: "stock (fold mem_exec xs (mem_exec x a)) + total handed_out xs (mem_exec x a) + total thrown xs (mem_exec x a) + l2 =
      stock (mem_exec x a) + total accepted xs (mem_exec x a) + total put_back xs (mem_exec x a)"
    "size l2 \<le> total may_drop xs (mem_exec x a)" by blast
  from balance_add [OF l1(1) l2(1)] l1(2) l2(2) show ?case by (intro exI [of _ "l1 + l2"]) simp
qed simp

section \<open>Properties\<close>

text \<open>
  C38. Every state of the adapter is well-formed: after any sequence of calls of Publish, Consume, Ack, Nack
  and Clear on a new adapter, queue names are unique and no two name the same channel, every channel has the
  configured capacity and holds at most that many messages, and every receipt knows a channel that
  exists.
\<close>

theorem mem_history_well_formed: "mem_inv (fold mem_exec xs (NewAdapter n))"
  by (rule mem_history_inv) (rule mem_inv_New)

text \<open>
  C4. No message is lost or duplicated by the adapter except by a Consume that reports an error: after any sequence of
  calls on a new adapter, the messages accepted by Publish together with those put back by Nack are, with
  multiplicities, those in its channels, those Consume has returned to its callers, those thrown away by Clear, and
  dropped ones; and of these there are none unless a Consume failed, and for each that failed fewer than the
  batch size it was called with.
\<close>

theorem mem_history_conserves:
  "\<exists>dropped. total accepted xs (NewAdapter n) + total put_back xs (NewAdapter n) =
     stock (fold mem_exec xs (NewAdapter n)) + total handed_out xs (NewAdapter n) + total thrown xs (NewAdapter n) + dropped \<and>
   size dropped \<le> total may_drop xs (NewAdapter n)"
proof -
  have "stock (NewAdapter n) = {#}" by (simp add: stock_def NewAdapter_def)
  with mem_history_stock [OF mem_inv_New, of xs n] show ?thesis by (metis add_0)
qed

end
