(* ===== verification/ServerSystem.thy ===== *)
theory ServerSystem
  imports DemoProgram MemoryHistory
begin

text \<open>
  A grpcq server with a publish endpoint, as the example program runs one: the worker that \<open>Server.Start\<close> starts on the
  in-memory adapter (\<open>go/grpcq/server.go\<close>), HTTP requests of any kind to the handler of
  \<open>NewPublishHandler\<close> on the same adapter (\<open>go/adapters/memory/http_adapter.go\<close>), and \<open>Server.Stop\<close>, in every interleaving.

  The relation \<open>tick\<close> is what the handlers' state does by itself, for the example service the passing of time.  A run
  carries the labels of its steps and the messages of the requests that were answered with 204.
  While the server's context is live a call of \<open>Consume\<close> never sees it done; afterwards it may at any turn.
\<close>

section \<open>The system\<close>

definition live_Consume ::
  "unit \<Rightarrow> string \<Rightarrow> int \<Rightarrow> 'm MemAdapter \<Rightarrow> (error + ('m, nat) ConsumeResult option) \<times> 'm MemAdapter" where
  "live_Consume u = Consume (\<lambda>_. (None, False))"

text \<open>The messages a request has put into a queue, by its answer.\<close>

definition answered :: "(bytes \<Rightarrow> error + 'm) \<Rightarrow> Request \<Rightarrow> Response \<Rightarrow> 'm list" where
  "answered unmarshal r resp =
     (if resp_StatusCode resp = 204
      then case Decode ''messages'' (req_Body r) of
             None \<Rightarrow> []
           | Some es \<Rightarrow> (case decode_payloads unmarshal 0 es of Inl _ \<Rightarrow> [] | Inr ms \<Rightarrow> ms)
      else [])"

type_synonym 's mem_worker = "(message MemAdapter, 's, nat) Worker"

inductive serve_run ::
  "('s \<Rightarrow> 's \<Rightarrow> bool) \<Rightarrow> (bytes \<Rightarrow> error + message) \<Rightarrow> int \<Rightarrow> (message MemAdapter, 's, nat) Server \<Rightarrow> 's \<Rightarrow>
   nat event list \<Rightarrow> message list \<Rightarrow> 's mem_worker \<Rightarrow> bool"
  for tick unmarshal n srv app0 where
  serve_start:
    "srv_worker (server_Start (NewAdapter n) app0 None srv) = Some w \<Longrightarrow>
     serve_run tick unmarshal n srv app0 [] [] w"
| serve_own:
    "serve_run tick unmarshal n srv app0 tr pub w \<Longrightarrow> s_ctx w = None \<Longrightarrow>
     worker_step live_Consume Ack Nack ev w w' \<Longrightarrow> own ev \<Longrightarrow>
     serve_run tick unmarshal n srv app0 (tr @ [ev]) pub w'"
| serve_own_stopped:
    "serve_run tick unmarshal n srv app0 tr pub w \<Longrightarrow> s_ctx w \<noteq> None \<Longrightarrow>
     worker_step Consume Ack Nack ev w w' \<Longrightarrow> own ev \<Longrightarrow>
     serve_run tick unmarshal n srv app0 (tr @ [ev]) pub w'"
| serve_tick:
    "serve_run tick unmarshal n srv app0 tr pub w \<Longrightarrow> tick (w_app w) app' \<Longrightarrow>
     serve_run tick unmarshal n srv app0 (tr @ [External]) pub (w\<lparr>w_app := app'\<rparr>)"
| serve_post:
    "serve_run tick unmarshal n srv app0 tr pub w \<Longrightarrow> NewPublishHandler unmarshal r (w_adapter w) = (resp, a') \<Longrightarrow>
     serve_run tick unmarshal n srv app0 (tr @ [External]) (pub @ answered unmarshal r resp) (w\<lparr>w_adapter := a'\<rparr>)"
| serve_stop:
    "serve_run tick unmarshal n srv app0 tr pub w \<Longrightarrow>
     server_Stop (srv\<lparr>srv_worker := Some w\<rparr>) = (None, srv') \<Longrightarrow> srv_worker srv' = Some w' \<Longrightarrow>
     serve_run tick unmarshal n srv app0 (tr @ [External]) pub w'"

section \<open>The system is a worker on a shared adapter\<close>

lemma live_step:
  assumes "worker_step live_Consume Ack Nack ev w w'"
  shows "worker_step Consume Ack Nack ev w w'"
  using assms
proof cases
  case (consume_error u e a')
  then show ?thesis using worker_step.consume_error [where consume = Consume and orc = "\<lambda>_. (None, False)"]
    by (simp add: live_Consume_def)
next
  case (consume_empty u res a')
  then show ?thesis using worker_step.consume_empty [where consume = Consume and orc = "\<lambda>_. (None, False)"]
    by (simp add: live_Consume_def)
next
  case (consume_items u cr a')
  then show ?thesis using worker_step.consume_items [where consume = Consume and orc = "\<lambda>_. (None, False)"]
    by (simp add: live_Consume_def)
qed (auto intro: worker_step.intros simp del: One_nat_def)

text \<open>What a request does to the adapter: nothing, or one call of Publish.\<close>

lemma publish_handler_cases:
  assumes "NewPublishHandler unmarshal r a = (resp, a')"
  obtains (refused) "a' = a" "answered unmarshal r resp = []"
  | (published) q ms ret where "Publish (req_Context r) q ms a = (ret, a')"
      "answered unmarshal r resp = (if ret = None then ms else [])"
proof (cases "mux_route r")
  case Serve
  with assms have h: "handle_publish unmarshal r a = (resp, a')" by (simp add: NewPublishHandler_def)
  then consider "a' = a" "resp_StatusCode resp \<noteq> 204"
    | "a' = a" "Decode ''messages'' (req_Body r) = Some []"
    | q es ms ret where "Decode ''messages'' (req_Body r) = Some es" "decode_payloads unmarshal 0 es = Inr ms"
        "Publish (req_Context r) q ms a = (ret, a')" "resp_StatusCode resp = (if ret = None then 204 else 500)"
    by (auto simp: handle_publish_def http_Error_def NotFound_def NoContent_def Let_def
        split: if_splits option.splits sum.splits prod.splits)
  then show ?thesis
  proof cases
    case 3
    then show ?thesis by (intro published) (auto simp: answered_def)
  qed (use refused in \<open>auto simp: answered_def\<close>)
qed (use assms refused in \<open>auto simp: NewPublishHandler_def answered_def NotFound_def http_Error_def\<close>)

lemma publish_handler_others:
  assumes "NewPublishHandler unmarshal r a = (resp, a')" shows "mem_others R a a'"
  using assms
proof (cases rule: publish_handler_cases)
  case refused
  have "Publish None [] [] a = (None, a)" by simp
  from others_publish [OF this] refused(1) show ?thesis by simp
next
  case (published q ms ret)
  from others_publish [OF published(1)] show ?thesis .
qed

lemma serve_run_worker: "serve_run tick unmarshal n srv app0 tr pub w \<Longrightarrow> mem_run (NewAdapter n) tr w"
proof (induction rule: serve_run.induct)
  case (serve_start w)
  have "ctx_ok None" by (simp add: ctx_ok_def)
  from run_new [OF this] serve_start show ?case by (auto simp: server_Start_def)
next
  case (serve_own tr pub w ev w')
  from run_step [OF serve_own.IH live_step [OF serve_own.hyps(3)]] show ?case .
next
  case (serve_own_stopped tr pub w ev w')
  from run_step [OF serve_own_stopped.IH serve_own_stopped.hyps(3)] show ?case .
next
  case (serve_tick tr pub w app')
  from run_step [OF serve_tick.IH app_changes] show ?case .
next
  case (serve_post tr pub w r resp a')
  from run_others [where others = mem_others, OF serve_post.IH publish_handler_others [OF serve_post.hyps(2)]] show ?case .
next
  case (serve_stop tr pub w srv' w')
  show ?case
  proof (cases "s_ctx w")
    case None
    with serve_stop.hyps(2,3) have w': "w' = w\<lparr>s_ctx := Some Canceled\<rparr>" by (auto simp: server_Stop_def)
    have "ctx_ok (Some Canceled)" by (simp add: ctx_ok_def)
    from run_step [OF serve_stop.IH ctx_done [OF None this]] w' show ?thesis by simp
  next
    case (Some e)
    with serve_stop.hyps(2,3) have "w' = w" by (auto simp: server_Stop_def)
    with run_step [OF serve_stop.IH app_changes [of _ _ _ w "w_app w"]] show ?thesis by simp
  qed
qed

section \<open>How the server ends\<close>

text \<open>
  Nobody closes the worker's \<open>stopCh\<close>, and a live context never makes the in-memory adapter's Consume fail: the worker leaves its
  loop only after \<open>Server.Stop\<close>, and with the error of the context it cancels.
\<close>

definition quits_on_cancel :: "('a, 's, 'r) Worker \<Rightarrow> bool" where
  "quits_on_cancel w \<longleftrightarrow>
     \<not> stopCh w \<and> (s_ctx w = None \<or> s_ctx w = Some Canceled) \<and>
     (\<forall>e. s_pc w = ConsumeFailed e \<longrightarrow> s_ctx w = Some Canceled) \<and>
     (\<forall>ret. returning (s_pc w) = Some ret \<longrightarrow> s_ctx w = Some Canceled \<and> ret = Some Canceled)"

lemma quits_on_cancel_step:
  assumes "worker_step consume ack nack ev w w'" and "own ev" and "quits_on_cancel w"
    and "\<And>orc e a'. s_ctx w = None \<Longrightarrow>
      consume orc (QueueName (w_config w)) (MaxBatch (w_config w)) (w_adapter w) \<noteq> (Inl e, a')"
  shows "quits_on_cancel w'"
  using assms(1)
proof cases
  case (poll_stopped pick e)
  with assms(3) have False
    by (auto simp: quits_on_cancel_def waitForNextPoll_def split: if_splits wait_case.splits option.splits)
  then show ?thesis ..
next
  case (poll_failed pick e)
  with assms(3) show ?thesis
    by (auto simp: quits_on_cancel_def waitForNextPoll_def split: if_splits wait_case.splits option.splits)
qed (use assms(2-4) in \<open>auto simp: quits_on_cancel_def\<close>)

lemma live_Consume_ok:
  assumes "mem_inv a" and "0 < n"
  shows "live_Consume u q n a \<noteq> (Inl e, a')"
  using Consume_live [OF assms(1), of n "\<lambda>_. (None, False)" q] assms(2) by (auto simp: live_Consume_def)

lemma serve_adapter:
  assumes "serve_run tick unmarshal n srv app0 tr pub w"
  shows "mem_inv (w_adapter w)" "owned (outstanding (w_adapter w)) (unsettled tr w)" "0 < MaxBatch (w_config w)"
  using mem_worker.receipts_inv_run [OF serve_run_worker [OF assms] mem_inv_New] sync_inv_run [OF serve_run_worker [OF assms]]
  by (simp_all add: sync_inv_def)

lemma serve_quits_on_cancel: "serve_run tick unmarshal n srv app0 tr pub w \<Longrightarrow> quits_on_cancel w"
proof (induction rule: serve_run.induct)
  case (serve_start w)
  then show ?case by (auto simp: quits_on_cancel_def server_Start_def NewWorker_def)
next
  case (serve_own tr pub w ev w')
  note inv = serve_adapter [OF serve_own.hyps(1)]
  from quits_on_cancel_step [OF serve_own.hyps(3,4) serve_own.IH] live_Consume_ok [OF inv(1,3)] show ?case by blast
next
  case (serve_own_stopped tr pub w ev w')
  with quits_on_cancel_step [OF serve_own_stopped.hyps(3,4) serve_own_stopped.IH] show ?case by blast
next
  case (serve_stop tr pub w srv' w')
  then show ?case by (auto simp: quits_on_cancel_def server_Stop_def split: option.splits)
qed (auto simp: quits_on_cancel_def)

section \<open>Where the messages are\<close>

text \<open>The messages acknowledged after their handler succeeded, and the number of failed handler runs that were settled.\<close>

definition done_messages :: "'r event list \<Rightarrow> message multiset" where
  "done_messages tr = mset (map (\<lambda>x. Message (fst x)) (filter (\<lambda>x. snd x = None) (settled tr)))"

definition failures :: "'r event list \<Rightarrow> nat" where
  "failures tr = length (filter (\<lambda>x. snd x \<noteq> None) (settled tr))"

text \<open>The messages in the adapter's queues, in the worker's hands, and done.\<close>

definition accounted :: "nat event list \<Rightarrow> 's mem_worker \<Rightarrow> message multiset" where
  "accounted tr w = stock (w_adapter w) + image_mset Message (unsettled tr w) + done_messages tr"

lemma done_messages_simps [simp]:
  "done_messages [] = {#}" "failures [] = 0"
  "done_messages (tr @ [ev]) = done_messages tr + (case ev of DidSettle it None _ \<Rightarrow> {#Message it#} | _ \<Rightarrow> {#})"
  "failures (tr @ [ev]) = failures tr + (case ev of DidSettle it (Some _) _ \<Rightarrow> 1 | _ \<Rightarrow> 0)"
  by (simp_all add: done_messages_def failures_def split: event.split option.split)

lemma Nack_accounts:
  assumes "mem_inv a" and "outstanding a r = Some m" and "Nack r c a = (ret, a')"
  shows "\<exists>lost. add_mset m (stock a) = stock a' + lost \<and> size lost \<le> 1"
proof -
  have "put_back (OpNack r c) a \<subseteq># {#m#}" using assms(2) by (auto split: option.split)
  then obtain lost where "{#m#} = put_back (OpNack r c) a + lost" by (auto simp: mset_subset_eq_exists_conv)
  moreover from this have "size lost \<le> 1" by (metis le_add2 size_single size_union)
  ultimately show ?thesis using Nack_stock(1) [OF assms(1,3)]
    by (metis add_mset_add_single add.assoc)
qed

text \<open>
  One step of the worker: what is no longer accounted for afterwards is a message that a Nack did not put back, or what the
  one failed Consume that makes Start give up had already taken, less than a batch.
\<close>

definition consume_failed :: "('a, 's, 'r) Worker \<Rightarrow> ('a, 's, 'r) Worker \<Rightarrow> bool" where
  "consume_failed w w' \<longleftrightarrow> s_pc w = Consuming \<and> (\<exists>e. s_pc w' = ConsumeFailed e)"

lemma step_accounts:
  assumes "worker_step Consume Ack Nack ev w w'" and "mem_inv (w_adapter w)" and "0 < MaxBatch (w_config w)"
    and "owned (outstanding (w_adapter w)) (unsettled tr w)"
  shows "\<exists>lost. accounted tr w = accounted (tr @ [ev]) w' + lost \<and>
    int (size lost + failures tr) \<le>
      int (failures (tr @ [ev])) + (if consume_failed w w' then MaxBatch (w_config w) - 1 else 0)"
  using assms(1)
proof cases
  case (consume_error orc e a')
  from Consume_takes [OF assms(2) consume_error(4)] assms(3) obtain lost where
    "stock (w_adapter w) = stock a' + lost" "int (size lost) < MaxBatch (w_config w)" by fastforce
  with consume_error show ?thesis by (intro exI [of _ lost]) (simp add: accounted_def unsettled_def consume_failed_def)
next
  case (consume_empty orc res a')
  from Consume_takes [OF assms(2) consume_empty(4)] consume_empty(5) have "stock (w_adapter w) = stock a'"
    by (auto split: option.splits)
  with consume_empty assms(3) show ?thesis by (intro exI [of _ "{#}"]) (simp add: accounted_def unsettled_def)
next
  case (consume_items orc cr a')
  from Consume_takes [OF assms(2) consume_items(4)] have "stock (w_adapter w) = stock a' + mset (map Message (Items cr))" by simp
  with consume_items assms(3) show ?thesis by (intro exI [of _ "{#}"]) (simp add: accounted_def unsettled_def ac_simps)
next
  case (go_handle i it err app')
  then show ?thesis using assms(3) running_go(1) [of i "gos w" it err] handled_go(1) [of i "gos w" it err]
    by (intro exI [of _ "{#}"]) (simp add: accounted_def unsettled_def)
next
  case (go_settle i it err ret a')
  have u: "unsettled tr w = add_mset it (unsettled (tr @ [ev]) w')"
    using go_settle running_go(2) [of i "gos w" it err] handled_go(2) [of i "gos w" it err] by (simp add: unsettled_def)
  with assms(4) have o: "outstanding (w_adapter w) (Receipt it) = Some (Message it)" by (simp add: owned_def)
  show ?thesis
  proof (cases err)
    case None
    with go_settle have "Ack (Receipt it) (s_ctx w) (w_adapter w) = (ret, a')" by (simp add: settle_def)
    with Ack_stock have "stock a' = stock (w_adapter w)" by blast
    with go_settle None u assms(3) show ?thesis by (intro exI [of _ "{#}"]) (simp add: accounted_def)
  next
    case (Some e)
    with go_settle have "Nack (Receipt it) (s_ctx w) (w_adapter w) = (ret, a')" by (simp add: settle_def)
    from Nack_accounts [OF assms(2) o this] obtain lost where
      l: "add_mset (Message it) (stock (w_adapter w)) = stock a' + lost" "size lost \<le> 1" by blast
    have "accounted tr w = add_mset (Message it) (stock (w_adapter w)) + image_mset Message (unsettled (tr @ [ev]) w') + done_messages tr"
      by (simp add: accounted_def u)
    also have "\<dots> = accounted (tr @ [ev]) w' + lost"
      unfolding l(1) using go_settle Some by (simp add: accounted_def ac_simps)
    finally show ?thesis using l(2) go_settle Some assms(3) by (intro exI [of _ lost]) simp
  qed
next
  case (dispatch it its)
  then show ?thesis using assms(3) by (intro exI [of _ "{#}"]) (simp add: accounted_def unsettled_def)
qed (use assms(3) in \<open>intro exI [of _ "{#}"], simp add: accounted_def unsettled_def running_go(3,4) handled_go(3,4)\<close>)+

text \<open>A worker gives up at most once; what its last call of Consume may have cost.\<close>

definition allowance :: "('a, 's, 'r) Worker \<Rightarrow> int" where
  "allowance w =
     (if (\<exists>e. s_pc w = ConsumeFailed e) \<or> returning (s_pc w) \<noteq> None then MaxBatch (w_config w) - 1 else 0)"

lemma allowance_step:
  "worker_step consume ack nack ev w w' \<Longrightarrow> 0 < MaxBatch (w_config w) \<Longrightarrow>
   allowance w + (if consume_failed w w' then MaxBatch (w_config w) - 1 else 0) \<le> allowance w'"
  by (cases rule: worker_step.cases) (auto simp: allowance_def consume_failed_def)

lemma allowance_external [simp]:
  "allowance (w\<lparr>w_app := app\<rparr>) = allowance w" "allowance (w\<lparr>w_adapter := a\<rparr>) = allowance w"
  "allowance (w\<lparr>s_ctx := c\<rparr>) = allowance w"
  by (simp_all add: allowance_def)

lemma quits_allowance: "quits_on_cancel w \<Longrightarrow> s_ctx w = None \<Longrightarrow> allowance w = 0"
  by (auto simp: quits_on_cancel_def allowance_def)

lemma own_step_keeps:
  "worker_step consume ack nack ev w w' \<Longrightarrow> own ev \<Longrightarrow> s_ctx w' = s_ctx w \<and> w_registry w' = w_registry w \<and> w_config w' = w_config w"
  by (cases rule: worker_step.cases) (auto simp: fail_return_def stop_return_def)

lemma accounted_external [simp]:
  "accounted tr (w\<lparr>w_app := app\<rparr>) = accounted tr w" "accounted tr (w\<lparr>s_ctx := c\<rparr>) = accounted tr w"
  "accounted (tr @ [External]) w = accounted tr w"
  by (simp_all add: accounted_def unsettled_def)

lemma stop_worker:
  assumes "server_Stop (srv\<lparr>srv_worker := Some w\<rparr>) = (None, srv')" and "srv_worker srv' = Some w'"
  shows "w' = w \<or> w' = w\<lparr>s_ctx := Some Canceled\<rparr>" "s_ctx w' \<noteq> None"
  using assms by (auto simp: server_Stop_def split: option.splits)

lemma serve_config:
  "serve_run tick unmarshal n srv app0 tr pub w \<Longrightarrow> w_config w = worker_config (server_workerConfig (srv_config srv))"
proof (induction rule: serve_run.induct)
  case (serve_start w)
  then show ?case by (auto simp: server_Start_def NewWorker_def)
next
  case (serve_stop tr pub w srv' w')
  with stop_worker(1) [OF serve_stop.hyps(2,3)] show ?case by auto
qed (simp_all add: own_step_keeps)

lemma serve_step_accounts:
  assumes "serve_run tick unmarshal n srv app0 tr pub w" and "worker_step Consume Ack Nack ev w w'"
    and "\<exists>lost. mset pub = accounted tr w + lost \<and> int (size lost) \<le> int (failures tr) + allowance w"
  shows "\<exists>lost. mset pub = accounted (tr @ [ev]) w' + lost \<and> int (size lost) \<le> int (failures (tr @ [ev])) + allowance w'"
proof -
  note inv = serve_adapter [OF assms(1)]
  from assms(3) obtain lost where
    IH: "mset pub = accounted tr w + lost" "int (size lost) \<le> int (failures tr) + allowance w" by (elim exE conjE that)
  from step_accounts [OF assms(2) inv(1,3,2)] obtain l where l: "accounted tr w = accounted (tr @ [ev]) w' + l"
    "int (size l + failures tr) \<le> int (failures (tr @ [ev])) + (if consume_failed w w' then MaxBatch (w_config w) - 1 else 0)"
    by (elim exE conjE that)
  from allowance_step [OF assms(2) inv(3)] l(2) IH(2) have "int (size (l + lost)) \<le> int (failures (tr @ [ev])) + allowance w'"
    by (simp split: if_splits)
  with IH(1) l(1) show ?thesis by (intro exI [of _ "l + lost"]) simp
qed

lemma serve_accounts:
  "serve_run tick unmarshal n srv app0 tr pub w \<Longrightarrow>
   \<exists>lost. mset pub = accounted tr w + lost \<and> int (size lost) \<le> int (failures tr) + allowance w"
proof (induction rule: serve_run.induct)
  case (serve_start w)
  then have "accounted [] w = {#}" "allowance w = 0"
    by (auto simp: server_Start_def NewWorker_def accounted_def unsettled_def stock_def NewAdapter_def allowance_def)
  then show ?case by simp
next
  case (serve_own tr pub w ev w')
  from serve_step_accounts [OF serve_own.hyps(1) live_step [OF serve_own.hyps(3)] serve_own.IH] show ?case .
next
  case (serve_own_stopped tr pub w ev w')
  from serve_step_accounts [OF serve_own_stopped.hyps(1,3) serve_own_stopped.IH] show ?case .
next
  case (serve_tick tr pub w app')
  then show ?case by simp
next
  case (serve_post tr pub w r resp a')
  from serve_post.IH obtain lost where
    IH: "mset pub = accounted tr w + lost" "int (size lost) \<le> int (failures tr) + allowance w" by (elim exE conjE that)
  have "accounted (tr @ [External]) (w\<lparr>w_adapter := a'\<rparr>) = accounted tr w + mset (answered unmarshal r resp)"
    using serve_post.hyps(2)
  proof (cases rule: publish_handler_cases)
    case (published q ms ret)
    with Publish_stock(1) [OF serve_adapter(1) [OF serve_post.hyps(1)] published(1)] show ?thesis
      by (simp add: accounted_def unsettled_def)
  qed (simp add: accounted_def unsettled_def)
  with IH show ?case by (intro exI [of _ lost]) simp
next
  case (serve_stop tr pub w srv' w')
  from stop_worker [OF serve_stop.hyps(2,3)] have "allowance w' = allowance w" "accounted tr w' = accounted tr w"
    by auto
  with serve_stop.IH show ?case by simp
qed

section \<open>The example service\<close>

text \<open>Time passes for the service, and nothing else happens to it by itself.\<close>

definition clock :: "UserService \<Rightarrow> UserService \<Rightarrow> bool" where
  "clock s s' \<longleftrightarrow> (\<exists>t. s' = s\<lparr>UnixNano := t\<rparr>)"

text \<open>The message asks for the user: it is a CreateUser request with the user's name and email.\<close>

definition asks_for :: "(bytes \<Rightarrow> error + request) \<Rightarrow> message \<Rightarrow> GetUserResponse \<Rightarrow> bool" where
  "asks_for um m u \<longleftrightarrow>
     Topic m = service_name \<and> Action m = ''CreateUser'' \<and>
     (\<exists>req. um (Payload m) = Inr (ReqCreate req) \<and> gr_Name u = cu_Name req \<and> gr_Email u = cu_Email req)"

lemma set_AList_update: "set (AList.update k v al) \<subseteq> insert (k, v) (set al)"
  by (induction al) auto

lemma CreateUser_users:
  "(uid, u) \<in> set (users (snd (CreateUser st c req s))) \<Longrightarrow>
   (uid, u) \<in> set (users s) \<or> gr_Name u = cu_Name req \<and> gr_Email u = cu_Email req"
  using set_AList_update [of "''user-'' @ fmt_d (UnixNano s)"] by (fastforce simp: CreateUser_def Let_def split: if_splits)

text \<open>A handler run of the consumer adds at most the user its message asks for, and only if it succeeds.\<close>

lemma consumer_handle_users:
  assumes "Handle (srv_registry (RegisterUserServiceConsumer st (\<lambda>_. Some um) opts)) c m s = (err, s')"
    and "(uid, u) \<in> set (users s')" and "(uid, u) \<notin> set (users s)"
  shows "err = None \<and> asks_for um m u"
proof (cases "Topic m = service_name \<and> Action m = ''CreateUser''")
  case True
  with assms(1) have
    w: "wrappedHandler (\<lambda>_. Some um) (create_closure st) (ReqCreate \<lparr>cu_Name = [], cu_Email = []\<rparr>) c m s = (err, s')"
    by (simp add: consumer_create)
  show ?thesis
  proof (cases "um (Payload m)")
    case (Inr v)
    with w assms(2,3) obtain req where v: "v = ReqCreate req" by (cases v) (auto simp: wrappedHandler_def create_closure_def)
    with w Inr assms(2,3) CreateUser_users [of uid u st c req s] True show ?thesis
      by (auto simp: wrappedHandler_def create_closure_def asks_for_def CreateUser_def Let_def split: if_splits)
  qed (use w assms(2,3) in \<open>auto simp: wrappedHandler_def\<close>)
next
  case False
  show ?thesis
  proof (cases "Topic m = service_name \<and> Action m = ''GetUser''")
    case True
    with assms(1) have "users s' = users s"
      by (auto simp: consumer_get wrappedHandler_def get_closure_def GetUser_def
          split: sum.splits request.splits if_splits option.splits)
    with assms(2,3) show ?thesis by simp
  next
    case other: False
    with False have "\<not> (Topic m = service_name \<and> Action m \<in> {''CreateUser'', ''GetUser''})" by simp
    with arg_cong [OF assms(1), of snd] have "s' = s" by (simp add: consumer_other)
    with assms(2,3) show ?thesis by simp
  qed
qed

text \<open>Every stored user goes back to a handler run on a published message that asks for it.\<close>

definition users_backed :: "(bytes \<Rightarrow> error + request) \<Rightarrow> nat event list \<Rightarrow> message list \<Rightarrow> UserService \<Rightarrow> bool" where
  "users_backed um tr pub s \<longleftrightarrow>
     (\<forall>uid u. (uid, u) \<in> set (users s) \<longrightarrow>
        (\<exists>it. (it, None) \<in> set (handler_runs tr) \<and> Message it \<in> set pub \<and> asks_for um (Message it) u))"

lemma users_backed_mono:
  assumes "users_backed um tr pub s" and "users s' = users s"
  shows "users_backed um (tr @ [ev]) (pub @ ms) s'"
  using assms unfolding users_backed_def by (auto split: event.splits)

lemma running_published:
  assumes "serve_run tick unmarshal n srv app0 tr pub w"
  shows "\<forall>it. (it, Running) \<in> set (gos w) \<longrightarrow> Message it \<in> set pub"
proof (intro allI impI)
  fix it assume "(it, Running) \<in> set (gos w)"
  then have "it \<in> set (running (gos w))" by (force simp: running_def)
  then have "it \<in># unsettled tr w" by (simp add: unsettled_def)
  then have m: "Message it \<in># accounted tr w" by (auto simp: accounted_def)
  from serve_accounts [OF assms] obtain lost where "mset pub = accounted tr w + lost" by blast
  with m have "Message it \<in># mset pub" by (simp only: union_iff simp_thms)
  then show "Message it \<in> set pub" by simp
qed

lemma step_users_backed:
  assumes "worker_step consume ack nack ev w w'" and "own ev"
    and "\<forall>it. (it, Running) \<in> set (gos w) \<longrightarrow> Message it \<in> set pub"
    and "w_registry w = srv_registry srv" and "users_backed um tr pub (w_app w)"
    and "srv = RegisterUserServiceConsumer st (\<lambda>_. Some um) opts"
  shows "users_backed um (tr @ [ev]) pub (w_app w')"
proof (cases "\<exists>it err. ev = Ran it err")
  case False
  with assms(1,2) have "w_app w' = w_app w" by cases (auto simp: fail_return_def stop_return_def)
  with users_backed_mono [OF assms(5), of "w_app w'" ev "[]"] show ?thesis by simp
next
  case True
  then obtain it err where ev: "ev = Ran it err" by blast
  with assms(1) obtain i where i: "i < length (gos w)" "gos w ! i = (it, Running)"
    "Handle (w_registry w) (s_ctx w) (Message it) (w_app w) = (err, w_app w')" by cases auto
  show ?thesis unfolding users_backed_def
  proof (intro allI impI)
    fix uid u assume u: "(uid, u) \<in> set (users (w_app w'))"
    show "\<exists>it. (it, None) \<in> set (handler_runs (tr @ [ev])) \<and> Message it \<in> set pub \<and> asks_for um (Message it) u"
    proof (cases "(uid, u) \<in> set (users (w_app w))")
      case True
      with users_backed_mono [OF assms(5) refl, of ev "[]"] show ?thesis by (simp add: users_backed_def)
    next
      case False
      from i(1,2) have "(it, Running) \<in> set (gos w)" by (metis nth_mem)
      with consumer_handle_users [OF i(3) [unfolded assms(4) assms(6)] u False] ev assms(3) show ?thesis by auto
    qed
  qed
qed

lemma serve_users_backed:
  assumes "serve_run clock unmarshal n srv (NewUserService t0) tr pub w"
    and "srv = RegisterUserServiceConsumer st (\<lambda>_. Some um) opts"
  shows "w_registry w = srv_registry srv \<and> users_backed um tr pub (w_app w)"
  using assms(1)
proof (induction rule: serve_run.induct)
  case (serve_start w)
  then show ?case by (auto simp: server_Start_def NewWorker_def users_backed_def NewUserService_def)
next
  case (serve_own tr pub w ev w')
  then have h: "w_registry w = srv_registry srv" "users_backed um tr pub (w_app w)" by simp_all
  from step_users_backed [OF serve_own.hyps(3,4) running_published [OF serve_own.hyps(1)] h assms(2)]
    own_step_keeps [OF serve_own.hyps(3,4)] h(1) show ?case by simp
next
  case (serve_own_stopped tr pub w ev w')
  then have h: "w_registry w = srv_registry srv" "users_backed um tr pub (w_app w)" by simp_all
  from step_users_backed [OF serve_own_stopped.hyps(3,4) running_published [OF serve_own_stopped.hyps(1)] h assms(2)]
    own_step_keeps [OF serve_own_stopped.hyps(3,4)] h(1) show ?case by simp
next
  case (serve_tick tr pub w app')
  then have "users app' = users (w_app w)" by (auto simp: clock_def)
  with serve_tick.IH users_backed_mono [of um tr pub "w_app w" app' External "[]"] show ?case by simp
next
  case (serve_post tr pub w r resp a')
  with users_backed_mono [of um tr pub "w_app w" "w_app w" External] show ?case by simp
next
  case (serve_stop tr pub w srv' w')
  have "w_app w' = w_app w" "w_registry w' = w_registry w" using stop_worker(1) [OF serve_stop.hyps(2,3)] by auto
  with serve_stop.IH users_backed_mono [of um tr pub "w_app w" "w_app w" External "[]"] show ?case by simp
qed

section \<open>Properties\<close>

text \<open>
  C6. No message disappears in a running server: at every moment of every interleaving of the worker, any HTTP
  requests, and Stop, the messages of the requests answered with 204 are, with multiplicities, those in the adapter's
  queues, those in the worker's hands, those acknowledged after their handler succeeded, and some that are
  lost: at most one per failed handler run, and once the server is stopped less than one batch more.  So when the
  queues are empty, the worker is idle and no handler has failed, exactly the published messages have been handled.
\<close>

theorem server_accounts_for_messages:
  assumes "serve_run tick unmarshal n srv app0 tr pub w"
  shows "\<exists>lost. mset pub = stock (w_adapter w) + image_mset Message (unsettled tr w) + done_messages tr + lost \<and>
    int (size lost) \<le> int (failures tr) + (if s_ctx w = None then 0 else MaxBatch (w_config w) - 1) \<and>
    (s_ctx w = None \<and> stock (w_adapter w) = {#} \<and> unsettled tr w = {#} \<and> failures tr = 0 \<longrightarrow>
       mset pub = image_mset (\<lambda>x. Message (fst x)) (mset (handler_runs tr)))"
proof -
  from serve_accounts [OF assms] obtain lost where
    l: "mset pub = accounted tr w + lost" "int (size lost) \<le> int (failures tr) + allowance w" by (elim exE conjE that)
  have "allowance w \<le> (if s_ctx w = None then 0 else MaxBatch (w_config w) - 1)"
    using quits_allowance [OF serve_quits_on_cancel [OF assms]] serve_adapter(3) [OF assms] by (simp add: allowance_def)
  with l(2) have bound: "int (size lost) \<le> int (failures tr) + (if s_ctx w = None then 0 else MaxBatch (w_config w) - 1)" by linarith
  have "mset pub = image_mset (\<lambda>x. Message (fst x)) (mset (handler_runs tr))"
    if h: "s_ctx w = None" "stock (w_adapter w) = {#}" "unsettled tr w = {#}" "failures tr = 0"
  proof -
    from h(3) books_inv_run [OF serve_run_worker [OF assms]] have "mset (handler_runs tr) = mset (settled tr)"
      by (simp add: books_inv_def unsettled_def)
    moreover from h(4) have "filter (\<lambda>x. snd x = None) (settled tr) = settled tr"
      by (simp add: failures_def filter_empty_conv filter_id_conv)
    ultimately show ?thesis using h l(1) bound by (simp add: accounted_def done_messages_def)
  qed
  with l(1) bound show ?thesis by (intro exI [of _ lost]) (simp add: accounted_def)
qed

text \<open>
  C26. The example server invents no users: whatever requests arrive and however they interleave with the worker, every
  user the service holds has the name and email of a CreateUser request that a client posted, that the
  endpoint answered with 204, and on which the service's handler ran and succeeded.
\<close>

theorem demo_users_requested:
  assumes "serve_run clock unmarshal 1000 (demo_server_of st (\<lambda>_. Some um)) (NewUserService t0) tr pub w"
    and "(uid, u) \<in> set (users (w_app w))"
  shows "\<exists>it. (it, None) \<in> set (handler_runs tr) \<and> Message it \<in> set pub \<and> asks_for um (Message it) u"
  using serve_users_backed [OF assms(1) demo_server_of_def] assms(2) by (simp add: users_backed_def)

section \<open>A run of the example server\<close>

text \<open>A client posts one CreateUser message, and the worker takes it and runs its handler.\<close>

lemma post_accepted:
  assumes "Publish None q [m] a = (None, a')" and "CHR ''%'' \<notin> set q" and "\<not> dot_name q"
  shows "\<exists>r. NewPublishHandler (\<lambda>_. Inr m) r a = (NoContent, a') \<and> answered (\<lambda>_. Inr m) r NoContent = [m]"
proof -
  have codec: "codec_on (\<lambda>_. Inr ''m'') (\<lambda>_. Inr m) [m]" by (simp add: codec_on_def)
  obtain r :: Request and es where r: "req_Method r = ''POST''" "req_Context r = None" "EscapedPath (req_URL r) = publish_path q"
    "url_Path (req_URL r) = ''/queues/'' @ q @ ''/messages''" "Decode ''messages'' (req_Body r) = Some es" "es \<noteq> []"
    "decode_payloads (\<lambda>_. Inr m) 0 es = Inr [m]"
    by (rule remote_request [OF codec list.distinct(2) endpoint_localhost, where c = None and q = q and a = a and
        net = "\<lambda>_ w. (Inl (Ext ''net''), w)"])
  have "PathUnescape q = Some q" using unescape_plain assms(2) by (simp add: PathUnescape_def)
  with handle_publish_path [OF r(1,4,5,6,7), of a] r(2) assms(1) have "handle_publish (\<lambda>_. Inr m) r a = (NoContent, a')" by simp
  with mux_route_publish [OF r(3) assms(3)] r(5,7) show ?thesis
    by (intro exI [of _ r]) (simp add: NewPublishHandler_def answered_def NoContent_def)
qed

definition ann_message :: message where
  "ann_message = \<lparr>Originator = ''client'', Topic = service_name, Action = ''CreateUser'', Payload = ''x'', MessageId = ''id'',
     TimestampMs = 5, Metadata = Map.empty\<rparr>"

definition ann_server :: "(message MemAdapter, UserService, nat) Server" where
  "ann_server = demo_server_of (\<lambda>_. Ext) (\<lambda>_. Some (\<lambda>_. Inr (ReqCreate ann)))"

lemma ann_publish:
  obtains a where "Publish None demo_queueName [ann_message] (NewAdapter 1000) = (None, a)" "mem_inv a" "pending a demo_queueName = [ann_message]"
proof -
  let ?p = "Publish None demo_queueName [ann_message] (NewAdapter 1000)"
  have "fst ?p = None"
    by (simp add: Publish_def NewAdapter_def ensure_queue_def make_queue_def chan_cap_def chan_len_def)
  then obtain a where a: "?p = (None, a)" by (metis prod.collapse)
  from mem.publish_ok [OF mem_inv_New a] mem.publish_inv [OF mem_inv_New a] a show thesis
    by (intro that [of a]) (simp_all add: pending_New)
qed

lemma ann_consume:
  assumes "mem_inv a" and "pending a q = [ann_message]"
  obtains it a' where "live_Consume () q 10 a = (Inr (Some \<lparr>Items = [it]\<rparr>), a')" "Message it = ann_message"
proof -
  from Consume_live [OF assms(1), of 10 "\<lambda>_. (None, False)" q] assms(2) obtain cr a' where
    c: "Consume (\<lambda>_. (None, False)) q 10 a = (Inr (Some cr), a')" "map Message (Items cr) = [ann_message]" by auto
  then obtain it where "Items cr = [it]" "Message it = ann_message" by auto
  with c(1) show thesis by (intro that [of it a']) (auto simp: live_Consume_def)
qed

lemma ann_handle:
  "Handle (srv_registry ann_server) None ann_message (NewUserService 7) = (None, snd (CreateUser (\<lambda>_. Ext) None ann (NewUserService 7)))"
  by (simp add: ann_server_def demo_server_of_def consumer_create ann_message_def wrappedHandler_def create_closure_def CreateUser_def
      ann_def Let_def)

lemma ann_run:
  "\<exists>it w. serve_run clock (\<lambda>_. Inr ann_message) 1000 ann_server (NewUserService 7)
      [External, Tau, Tau, Took [it], Began it, Ran it None] [ann_message] w \<and>
     Message it = ann_message \<and> s_ctx w = None \<and> w_app w = snd (CreateUser (\<lambda>_. Ext) None ann (NewUserService 7))"
proof -
  let ?S = "serve_run clock (\<lambda>_. Inr ann_message) 1000 ann_server (NewUserService 7)"
  let ?cfg = "\<lparr>QueueName = demo_queueName, MaxBatch = 10, Concurrency = 5, PollIntervalMs = 100\<rparr>"
  obtain w0 where w0: "srv_worker (server_Start (NewAdapter 1000) (NewUserService 7) None ann_server) = Some w0"
    "w0 = NewWorker (NewAdapter 1000) (srv_registry ann_server) ?cfg (NewUserService 7) None" "worker_config ?cfg = ?cfg"
    by (simp add: server_Start_def ann_server_def demo_server_of_def RegisterUserServiceConsumer_def server_RegisterMethod_def
        NewServer_def server_workerConfig_def WithQueueName_def WithConcurrency_def WithPollInterval_def worker_config_def Let_def)
  obtain a1 where a1: "Publish None demo_queueName [ann_message] (NewAdapter 1000) = (None, a1)" "mem_inv a1"
    "pending a1 demo_queueName = [ann_message]" by (rule ann_publish)
  obtain it a2 where it: "live_Consume () demo_queueName 10 a1 = (Inr (Some \<lparr>Items = [it]\<rparr>), a2)" "Message it = ann_message"
    by (rule ann_consume [OF a1(2,3)])
  note f = w0(2,3) NewWorker_def
  have "CHR ''%'' \<notin> set demo_queueName" "\<not> dot_name demo_queueName" by (simp_all add: demo_queueName_def dot_name_def)
  from post_accepted [OF a1(1) this] obtain r where r: "NewPublishHandler (\<lambda>_. Inr ann_message) r (NewAdapter 1000) = (NoContent, a1)"
    "answered (\<lambda>_. Inr ann_message) r NoContent = [ann_message]" by blast
  have s1: "?S [External] [ann_message] (w0\<lparr>w_adapter := a1\<rparr>)"
    using serve_post [OF serve_start [OF w0(1)], where tick = clock and unmarshal = "\<lambda>_. Inr ann_message" and r = r and resp = NoContent and a' = a1] r by (simp add: f)
  have s2: "?S [External, Tau] [ann_message] (w0\<lparr>w_adapter := a1, s_pc := LoopTop\<rparr>)"
    using serve_own [OF s1 _ start_call] by (simp add: f)
  have s3: "?S [External, Tau, Tau] [ann_message] (w0\<lparr>w_adapter := a1, s_pc := Consuming\<rparr>)"
    using serve_own [OF s2 _ top_default] by (simp add: f)
  have s4: "?S [External, Tau, Tau, Took [it]] [ann_message] (w0\<lparr>w_adapter := a2, s_pc := Dispatching [it]\<rparr>)"
    using serve_own [OF s3 _ consume_items [where orc = "()" and cr = "\<lparr>Items = [it]\<rparr>" and a' = a2]] it(1) by (simp add: f)
  have s5: "?S [External, Tau, Tau, Took [it], Began it] [ann_message]
      (w0\<lparr>w_adapter := a2, s_pc := Dispatching [], sem := 1, wg := 1, gos := [(it, Running)]\<rparr>)"
    using serve_own [OF s4 _ dispatch] by (simp add: f)
  have "Handle (srv_registry ann_server) None (Message it) (NewUserService 7) = (None, snd (CreateUser (\<lambda>_. Ext) None ann (NewUserService 7)))"
    by (simp add: it(2) ann_handle)
  then have "?S [External, Tau, Tau, Took [it], Began it, Ran it None] [ann_message]
      (w0\<lparr>w_adapter := a2, s_pc := Dispatching [], sem := 1, wg := 1, gos := [(it, Handled None)],
          w_app := snd (CreateUser (\<lambda>_. Ext) None ann (NewUserService 7))\<rparr>)"
    using serve_own [OF s5 _ go_handle [where i = 0 and it = it and err = None]] by (simp add: f)
  with it(2) show ?thesis by (intro exI conjI) (auto simp: f)
qed

theorem server_accounts_for_messages_witness:
  "\<exists>w tr. serve_run clock (\<lambda>_. Inr ann_message) 1000 ann_server (NewUserService 7) tr [ann_message] w \<and>
     {#ann_message#} = stock (w_adapter w) + image_mset Message (unsettled tr w) + done_messages tr"
proof -
  from ann_run obtain it w where r: "serve_run clock (\<lambda>_. Inr ann_message) 1000 ann_server (NewUserService 7)
      [External, Tau, Tau, Took [it], Began it, Ran it None] [ann_message] w" "s_ctx w = None" by blast
  let ?tr = "[External, Tau, Tau, Took [it], Began it, Ran it None]"
  have "failures ?tr = 0" by (simp add: failures_def settled_def)
  with server_accounts_for_messages [OF r(1)] r(2) have
    "{#ann_message#} = stock (w_adapter w) + image_mset Message (unsettled ?tr w) + done_messages ?tr" by auto
  with r(1) show ?thesis by blast
qed

theorem demo_users_requested_witness:
  "\<exists>w tr it u. serve_run clock (\<lambda>_. Inr ann_message) 1000 ann_server (NewUserService 7) tr [ann_message] w \<and>
     u \<in> snd ` set (users (w_app w)) \<and> gr_Name u = ''Ann'' \<and> (it, None) \<in> set (handler_runs tr) \<and> Message it = ann_message"
proof -
  let ?um = "\<lambda>_ :: bytes. Inr (ReqCreate ann) :: error + request"
  let ?uid = "''user-'' @ fmt_d 7" and ?u = "\<lparr>gr_UserId = ''user-'' @ fmt_d 7, gr_Name = ''Ann'', gr_Email = ''ann@x''\<rparr>"
  from ann_run obtain it w where r: "serve_run clock (\<lambda>_. Inr ann_message) 1000 ann_server (NewUserService 7)
      [External, Tau, Tau, Took [it], Began it, Ran it None] [ann_message] w"
    "w_app w = snd (CreateUser (\<lambda>_. Ext) None ann (NewUserService 7))" by blast
  have u: "(?uid, ?u) \<in> set (users (w_app w))" by (simp add: r(2) CreateUser_def ann_def NewUserService_def Let_def)
  from demo_users_requested [where um = ?um, OF r(1) [unfolded ann_server_def] u] obtain it' where
    "(it', None) \<in> set (handler_runs [External, Tau, Tau, Took [it], Began it, Ran it None])" "Message it' = ann_message" by auto
  moreover have "?u \<in> snd ` set (users (w_app w))" using u by force
  ultimately show ?thesis using r(1) by (intro exI [of _ w] exI [of _ "[External, Tau, Tau, Took [it], Began it, Ran it None]"]
      exI [of _ it'] exI [of _ ?u] conjI) simp_all
qed

end
