(* ===== verification/AsyncServer.thy ===== *)
theory AsyncServer
  imports ServerSystem
begin

text \<open>
  The process of \<open>runAsyncServer\<close> (\<open>go/examples/userservice/main.go\<close>) as one transition system: the main goroutine from
  its first \<open>select\<close> to its return, the goroutine that calls \<open>server.Start\<close> and reports on \<open>serverErrCh\<close>, the worker
  that \<open>Start\<close> runs, the goroutine of \<open>startQueuePublishServer\<close>, and around them signals, HTTP requests and the
  clock.  Where \<open>DemoProgram\<close> takes the outcomes of channels and calls as arguments, here they come about.
\<close>

section \<open>State\<close>

datatype main_pc = AtSelect | AtStop | AtAwait | AtShutdown | AtFinal | MainDone

text \<open>
  Before \<open>Start\<close> has run, the adapter and the service are only reachable from main; afterwards they are the worker's.
  A channel of capacity one is what it holds.  \<open>pr_http\<close> says that the HTTP server may still serve a request,
  \<open>pr_listening\<close> that \<open>ListenAndServe\<close> has not reported yet, \<open>pr_sent\<close> that \<open>Start\<close> has returned and was reported,
  \<open>pr_mutex\<close> that a goroutine of the HTTP server holds the adapter's mutex.
\<close>

record proc =
  pr_pc :: main_pc
  pr_adapter :: "message MemAdapter"
  pr_app :: UserService
  pr_server :: "(message MemAdapter, UserService, nat) Server"
  pr_sent :: bool
  pr_http :: bool
  pr_listening :: bool
  sigCh :: bool
  queueErrCh :: "error option"
  serverErrCh :: "error option option"
  pr_mutex :: bool

definition async_init ::
  "(string \<Rightarrow> string \<Rightarrow> error) \<Rightarrow> (request \<Rightarrow> (bytes \<Rightarrow> error + request) option) \<Rightarrow> int \<Rightarrow> proc" where
  "async_init st unmarshal_req t0 =
     \<lparr>pr_pc = AtSelect, pr_adapter = NewAdapter 1000, pr_app = NewUserService t0, pr_server = demo_server_of st unmarshal_req,
      pr_sent = False, pr_http = True, pr_listening = True, sigCh = False, queueErrCh = None, serverErrCh = None,
      pr_mutex = False\<rparr>"

abbreviation worker_of :: "proc \<Rightarrow> UserService mem_worker option" where
  "worker_of p \<equiv> srv_worker (pr_server p)"

definition adapter_of :: "proc \<Rightarrow> message MemAdapter" where
  "adapter_of p = (case worker_of p of None \<Rightarrow> pr_adapter p | Some w \<Rightarrow> w_adapter w)"

definition app_of :: "proc \<Rightarrow> UserService" where
  "app_of p = (case worker_of p of None \<Rightarrow> pr_app p | Some w \<Rightarrow> w_app w)"

definition set_worker :: "UserService mem_worker \<Rightarrow> proc \<Rightarrow> proc" where
  "set_worker w p = p\<lparr>pr_server := (pr_server p)\<lparr>srv_worker := Some w\<rparr>\<rparr>"

definition set_adapter :: "message MemAdapter \<Rightarrow> proc \<Rightarrow> proc" where
  "set_adapter a p =
     (case worker_of p of None \<Rightarrow> p\<lparr>pr_adapter := a\<rparr> | Some w \<Rightarrow> set_worker (w\<lparr>w_adapter := a\<rparr>) p)"

definition set_app :: "UserService \<Rightarrow> proc \<Rightarrow> proc" where
  "set_app s p = (case worker_of p of None \<Rightarrow> p\<lparr>pr_app := s\<rparr> | Some w \<Rightarrow> set_worker (w\<lparr>w_app := s\<rparr>) p)"

section \<open>Steps\<close>

text \<open>
  A label says whose step it is, and what main did, what the worker did, or what a request published.  A request's handler
  takes the adapter's mutex in \<open>Publish\<close>; how long it holds it is not said, and while it does neither another request changes
  the adapter nor does the worker get past the beginning of \<open>Consume\<close> (\<open>takes_mutex\<close>).  \<open>Shutdown\<close> waits for the handlers
  that are running, for five seconds at most, so it returns nil only when none of them is in \<open>Publish\<close>.
\<close>

datatype proc_label =
    MainStep "effect list"
  | GoStep
  | WorkStep "nat event"
  | EnvStep "message list"

inductive proc_step :: "(bytes \<Rightarrow> error + message) \<Rightarrow> proc_label \<Rightarrow> proc \<Rightarrow> proc \<Rightarrow> bool" for unmarshal where
  sig_arrives:
    "proc_step unmarshal (EnvStep []) p (p\<lparr>sigCh := True\<rparr>)"
| listen_returns:
    "pr_listening p \<Longrightarrow>
     proc_step unmarshal (EnvStep []) p (p\<lparr>pr_listening := False, queueErrCh := queue_server_error (Some err)\<rparr>)"
| request:
    "pr_http p \<Longrightarrow> NewPublishHandler unmarshal r (adapter_of p) = (resp, a') \<Longrightarrow> (pr_mutex p \<longrightarrow> a' = adapter_of p) \<Longrightarrow>
     proc_step unmarshal (EnvStep (answered unmarshal r resp)) p (set_adapter a' p)"
| mutex_taken:
    "pr_http p \<Longrightarrow> \<not> pr_mutex p \<Longrightarrow> proc_step unmarshal (EnvStep []) p (p\<lparr>pr_mutex := True\<rparr>)"
| mutex_freed:
    "pr_mutex p \<Longrightarrow> proc_step unmarshal (EnvStep []) p (p\<lparr>pr_mutex := False\<rparr>)"
| time_passes:
    "clock (app_of p) s' \<Longrightarrow> proc_step unmarshal (EnvStep []) p (set_app s' p)"
| go_start:
    "worker_of p = None \<Longrightarrow>
     proc_step unmarshal GoStep p (p\<lparr>pr_server := server_Start (pr_adapter p) (pr_app p) None (pr_server p)\<rparr>)"
| go_work:
    "worker_of p = Some w \<Longrightarrow> s_ctx w = None \<Longrightarrow> worker_step live_Consume Ack Nack ev w w' \<Longrightarrow> own ev \<Longrightarrow>
     (takes_mutex w w' \<longrightarrow> \<not> pr_mutex p) \<Longrightarrow>
     proc_step unmarshal (WorkStep ev) p (set_worker w' p)"
| go_work_stopped:
    "worker_of p = Some w \<Longrightarrow> s_ctx w \<noteq> None \<Longrightarrow> worker_step Consume Ack Nack ev w w' \<Longrightarrow> own ev \<Longrightarrow>
     (takes_mutex w w' \<longrightarrow> \<not> pr_mutex p) \<Longrightarrow>
     proc_step unmarshal (WorkStep ev) p (set_worker w' p)"
| go_report:
    "worker_of p = Some w \<Longrightarrow> s_pc w = start_pc.Returned ret \<Longrightarrow> \<not> pr_sent p \<Longrightarrow>
     proc_step unmarshal GoStep p (p\<lparr>serverErrCh := Some ret, pr_sent := True\<rparr>)"
| main_signal:
    "pr_pc p = AtSelect \<Longrightarrow> sigCh p \<Longrightarrow>
     proc_step unmarshal (MainStep [Log ''Shutdown signal received'']) p (p\<lparr>sigCh := False, pr_pc := AtStop\<rparr>)"
| main_queue_err:
    "pr_pc p = AtSelect \<Longrightarrow> queueErrCh p = Some err \<Longrightarrow>
     proc_step unmarshal (MainStep [Log (''Queue publish server error: '' @ error_text err)]) p
       (p\<lparr>queueErrCh := None, pr_pc := AtStop\<rparr>)"
| main_server_err:
    "pr_pc p = AtSelect \<Longrightarrow> serverErrCh p = Some err \<Longrightarrow>
     proc_step unmarshal (MainStep (log_unless Canceled ''grpcq server exited: '' err)) p
       (p\<lparr>serverErrCh := None, pr_pc := AtShutdown\<rparr>)"
| main_stop:
    "pr_pc p = AtStop \<Longrightarrow> server_Stop (pr_server p) = (err, srv') \<Longrightarrow>
     proc_step unmarshal (MainStep ([StopServer] @ log_unless Canceled ''Error stopping server: '' err)) p
       (p\<lparr>pr_server := srv', pr_pc := AtAwait\<rparr>)"
| main_await:
    "pr_pc p = AtAwait \<Longrightarrow> serverErrCh p = Some err \<Longrightarrow>
     proc_step unmarshal (MainStep ([AwaitServer] @ log_unless Canceled ''grpcq server exited: '' err)) p
       (p\<lparr>serverErrCh := None, pr_pc := AtShutdown\<rparr>)"
| main_shutdown:
    "pr_pc p = AtShutdown \<Longrightarrow> (err = None \<longrightarrow> \<not> pr_mutex p) \<Longrightarrow>
     proc_step unmarshal (MainStep (shutdownHTTPServer err)) p (p\<lparr>pr_http := (err \<noteq> None), pr_pc := AtFinal\<rparr>)"
| main_final:
    "pr_pc p = AtFinal \<Longrightarrow>
     proc_step unmarshal
       (MainStep (case queueErrCh p of None \<Rightarrow> [] | Some err \<Rightarrow> [Log (''Queue publish server error: '' @ error_text err)])) p
       (p\<lparr>queueErrCh := None, pr_pc := MainDone\<rparr>)"

text \<open>A path of the process; it ends when main returns.\<close>

inductive proc_path :: "(bytes \<Rightarrow> error + message) \<Rightarrow> proc \<Rightarrow> proc_label list \<Rightarrow> proc \<Rightarrow> bool" for unmarshal p0 where
  path_start: "proc_path unmarshal p0 [] p0"
| path_step:
    "proc_path unmarshal p0 labs p \<Longrightarrow> pr_pc p \<noteq> MainDone \<Longrightarrow> proc_step unmarshal lab p p' \<Longrightarrow>
     proc_path unmarshal p0 (labs @ [lab]) p'"

text \<open>What main has done, what the worker has done, and what the requests have published.\<close>

definition effects :: "string \<Rightarrow> proc_label list \<Rightarrow> effect list" where
  "effects addr labs =
     [StartHTTP addr, Log ''grpcq server started, waiting for messages...'', StartServer]
     @ concat (map (\<lambda>l. case l of MainStep es \<Rightarrow> es | _ \<Rightarrow> []) labs)"

definition work_done :: "proc_label list \<Rightarrow> nat event list" where
  "work_done labs = concat (map (\<lambda>l. case l of WorkStep ev \<Rightarrow> [ev] | _ \<Rightarrow> []) labs)"

definition posted :: "proc_label list \<Rightarrow> message list" where
  "posted labs = concat (map (\<lambda>l. case l of EnvStep ms \<Rightarrow> ms | _ \<Rightarrow> []) labs)"

lemma label_reads [simp]:
  "effects addr [] = [StartHTTP addr, Log ''grpcq server started, waiting for messages...'', StartServer]"
  "work_done [] = []" "posted [] = []"
  "effects addr (labs @ [lab]) = effects addr labs @ (case lab of MainStep es \<Rightarrow> es | _ \<Rightarrow> [])"
  "work_done (labs @ [lab]) = work_done labs @ (case lab of WorkStep ev \<Rightarrow> [ev] | _ \<Rightarrow> [])"
  "posted (labs @ [lab]) = posted labs @ (case lab of EnvStep ms \<Rightarrow> ms | _ \<Rightarrow> [])"
  by (simp_all add: effects_def work_done_def posted_def)

section \<open>The process runs a server\<close>

text \<open>The worker as far as requests can tell: before \<open>Start\<close> has run, the one it is going to make.\<close>

definition standin :: "proc \<Rightarrow> UserService mem_worker" where
  "standin p =
     (case worker_of p of
        None \<Rightarrow> the (srv_worker (server_Start (pr_adapter p) (pr_app p) None (pr_server p)))
      | Some w \<Rightarrow> w)"

lemma set_worker_simps [simp]:
  "pr_pc (set_worker w p) = pr_pc p" "pr_sent (set_worker w p) = pr_sent p" "pr_http (set_worker w p) = pr_http p"
  "sigCh (set_worker w p) = sigCh p" "queueErrCh (set_worker w p) = queueErrCh p"
  "serverErrCh (set_worker w p) = serverErrCh p" "pr_mutex (set_worker w p) = pr_mutex p" "worker_of (set_worker w p) = Some w"
  "pr_server (set_worker w p) = (pr_server p)\<lparr>srv_worker := Some w\<rparr>" "standin (set_worker w p) = w"
  by (simp_all add: set_worker_def standin_def)

lemma standin_adapter [simp]: "w_adapter (standin p) = adapter_of p" "w_app (standin p) = app_of p"
  by (simp_all add: standin_def adapter_of_def app_of_def server_Start_def NewWorker_def split: option.split)

lemma standin_set [simp]:
  "standin (set_adapter a p) = (standin p)\<lparr>w_adapter := a\<rparr>" "standin (set_app s p) = (standin p)\<lparr>w_app := s\<rparr>"
  by (simp_all add: standin_def set_adapter_def set_app_def set_worker_def server_Start_def NewWorker_def split: option.split)

lemma set_shared_simps [simp]:
  "pr_pc (set_adapter a p) = pr_pc p" "pr_pc (set_app s p) = pr_pc p"
  "pr_sent (set_adapter a p) = pr_sent p" "pr_sent (set_app s p) = pr_sent p"
  "serverErrCh (set_adapter a p) = serverErrCh p" "serverErrCh (set_app s p) = serverErrCh p"
  "worker_of (set_adapter a p) = None \<longleftrightarrow> worker_of p = None" "worker_of (set_app s p) = None \<longleftrightarrow> worker_of p = None"
  by (simp_all add: set_adapter_def set_app_def split: option.split)

text \<open>The server is the one of \<open>async_init\<close>, but for its worker; its worker takes part in a run of the server system.\<close>

definition same_server :: "('a, 's, 'r) Server \<Rightarrow> ('a, 's, 'r) Server \<Rightarrow> bool" where
  "same_server s srv \<longleftrightarrow> srv_registry s = srv_registry srv \<and> srv_config s = srv_config srv"

lemma same_server_simps [simp]:
  "same_server s s" "same_server (s\<lparr>srv_worker := x\<rparr>) srv = same_server s srv"
  "same_server (pr_server (set_worker w p)) srv = same_server (pr_server p) srv"
  "same_server (pr_server (set_adapter a p)) srv = same_server (pr_server p) srv"
  "same_server (pr_server (set_app u p)) srv = same_server (pr_server p) srv"
  by (simp_all add: same_server_def set_adapter_def set_app_def split: option.split)

lemma same_serverD: "same_server s srv \<Longrightarrow> srv_worker s = x \<Longrightarrow> s = srv\<lparr>srv_worker := x\<rparr>"
  by (cases s, cases srv) (simp add: same_server_def)

definition serves ::
  "(bytes \<Rightarrow> error + message) \<Rightarrow> (message MemAdapter, UserService, nat) Server \<Rightarrow> int \<Rightarrow> proc_label list \<Rightarrow> proc \<Rightarrow> bool" where
  "serves unmarshal srv t0 labs p \<longleftrightarrow>
     same_server (pr_server p) srv \<and>
     (\<exists>tr. serve_run clock unmarshal 1000 srv (NewUserService t0) tr (posted labs) (standin p) \<and> visible tr = work_done labs)"

lemma serves_own:
  assumes "serves unmarshal srv t0 labs p" and "worker_of p = Some w" and "own ev"
    and "\<And>tr. serve_run clock unmarshal 1000 srv (NewUserService t0) tr (posted labs) w \<Longrightarrow>
      serve_run clock unmarshal 1000 srv (NewUserService t0) (tr @ [ev]) (posted labs) w'"
  shows "serves unmarshal srv t0 (labs @ [WorkStep ev]) (set_worker w' p)"
proof -
  from assms(1,2) obtain tr where srv: "same_server (pr_server p) srv"
    and tr: "serve_run clock unmarshal 1000 srv (NewUserService t0) tr (posted labs) w" "visible tr = work_done labs"
    by (auto simp: serves_def standin_def)
  have "ev \<noteq> External" using assms(3) by auto
  with assms(4) [OF tr(1)] tr(2) srv show ?thesis by (auto simp: serves_def)
qed

text \<open>A step of another thread that the server system sees as a step of its environment, or not at all.\<close>

lemma serves_env:
  assumes "serves unmarshal srv t0 labs p" and "same_server (pr_server p') srv"
    and "work_done labs' = work_done labs"
    and "\<And>tr. serve_run clock unmarshal 1000 srv (NewUserService t0) tr (posted labs) (standin p) \<Longrightarrow>
      serve_run clock unmarshal 1000 srv (NewUserService t0) (tr @ [External]) (posted labs') (standin p')"
  shows "serves unmarshal srv t0 labs' p'"
proof -
  from assms(1) obtain tr where
    "serve_run clock unmarshal 1000 srv (NewUserService t0) tr (posted labs) (standin p)" "visible tr = work_done labs"
    by (auto simp: serves_def)
  with assms(2-4) show ?thesis by (auto simp: serves_def intro!: exI [of _ "tr @ [External]"])
qed

lemma serves_same:
  assumes "serves unmarshal srv t0 labs p" and "pr_server p' = pr_server p" and "pr_adapter p' = pr_adapter p" and "pr_app p' = pr_app p"
    and "work_done labs' = work_done labs" and "posted labs' = posted labs"
  shows "serves unmarshal srv t0 labs' p'"
proof -
  have "standin p' = standin p" unfolding standin_def assms(2-4) ..
  with assms(1,2,5,6) show ?thesis by (simp add: serves_def)
qed

lemma serves_stop:
  assumes "serves unmarshal srv t0 labs p" and "server_Stop (pr_server p) = (err, srv')"
  shows "serves unmarshal srv t0 (labs @ [MainStep es]) (p\<lparr>pr_server := srv', pr_pc := pc\<rparr>)"
proof (cases "worker_of p")
  case None
  with assms(2) have "srv' = pr_server p" by (simp add: server_Stop_def)
  with assms(1) None show ?thesis by (elim serves_same) simp_all
next
  case (Some w)
  let ?w' = "case s_ctx w of None \<Rightarrow> w\<lparr>s_ctx := Some Canceled\<rparr> | Some _ \<Rightarrow> w"
  from assms(1) Some have "pr_server p = srv\<lparr>srv_worker := Some w\<rparr>" by (simp add: serves_def same_serverD)
  with assms(2) have stop: "server_Stop (srv\<lparr>srv_worker := Some w\<rparr>) = (None, srv\<lparr>srv_worker := Some ?w'\<rparr>)"
    and s': "srv' = srv\<lparr>srv_worker := Some ?w'\<rparr>" by (simp_all add: server_Stop_def)
  have "standin p = w" "standin (p\<lparr>pr_server := srv', pr_pc := pc\<rparr>) = ?w'" using Some s' by (simp_all add: standin_def)
  with serve_stop [OF _ stop] show ?thesis by (intro serves_env [OF assms(1)]) (simp_all add: s')
qed

lemma serves_step:
  assumes "proc_step unmarshal lab p p'" and "serves unmarshal srv t0 labs p"
  shows "serves unmarshal srv t0 (labs @ [lab]) p'"
  using assms(1)
proof cases
  case (request r resp a')
  have "same_server (pr_server p) srv" using assms(2) by (simp add: serves_def)
  moreover have "NewPublishHandler unmarshal r (w_adapter (standin p)) = (resp, a')" using request by simp
  note post = serve_post [OF _ this]
  ultimately show ?thesis unfolding request(1,2)
    by (intro serves_env [OF assms(2)]) (simp_all add: post)
next
  case (time_passes s')
  have "same_server (pr_server p) srv" using assms(2) by (simp add: serves_def)
  moreover have "clock (w_app (standin p)) s'" using time_passes by simp
  note tick = serve_tick [where tick = clock, OF _ this]
  ultimately show ?thesis unfolding time_passes(1,2)
    by (intro serves_env [OF assms(2)]) (simp_all add: tick)
next
  case go_start
  then have "standin p' = standin p" by (simp add: standin_def server_Start_def)
  with go_start assms(2) show ?thesis by (auto simp: serves_def server_Start_def)
next
  case (go_work w ev w')
  from serves_own [OF assms(2) go_work(3,6)] serve_own [OF _ go_work(4,5,6)] show ?thesis unfolding go_work(1,2) by blast
next
  case (go_work_stopped w ev w')
  from serves_own [OF assms(2) go_work_stopped(3,6)] serve_own_stopped [OF _ go_work_stopped(4,5,6)] show ?thesis
    unfolding go_work_stopped(1,2) by blast
next
  case (main_stop err srv')
  from serves_stop [OF assms(2) main_stop(4)] show ?thesis unfolding main_stop(1,2) .
qed (use assms(2) in \<open>auto elim!: serves_same\<close>)

lemma serves_path:
  assumes "proc_path unmarshal (async_init st um t0) labs p"
  shows "serves unmarshal (demo_server_of st um) t0 labs p"
  using assms
proof (induction rule: proc_path.induct)
  case path_start
  let ?p = "async_init st um t0"
  have none: "worker_of ?p = None"
    by (simp add: async_init_def demo_server_of_def RegisterUserServiceConsumer_def server_RegisterMethod_def NewServer_def Let_def)
  have "serve_run clock unmarshal 1000 (demo_server_of st um) (NewUserService t0) [] [] (standin ?p)"
    by (rule serve_start) (use none in \<open>simp add: standin_def async_init_def server_Start_def\<close>)
  then show ?case by (auto simp: serves_def async_init_def visible_def)
next
  case (path_step labs p lab p')
  from serves_step [OF path_step.hyps(3) path_step.IH] show ?case .
qed

lemma serves_worker:
  assumes "proc_path unmarshal (async_init st um t0) labs p" and "worker_of p = Some w"
  obtains tr where "serve_run clock unmarshal 1000 (demo_server_of st um) (NewUserService t0) tr (posted labs) w"
    "visible tr = work_done labs"
  using serves_path [OF assms(1)] assms(2) by (auto simp: serves_def standin_def)

lemma path_worker:
  assumes "proc_path unmarshal (async_init st um t0) labs p" and "worker_of p = Some w"
  shows "sync_inv w" "quits_on_cancel w" "mem_inv (w_adapter w)" "0 < MaxBatch (w_config w)"
proof -
  from serves_worker [OF assms] obtain tr where
    "serve_run clock unmarshal 1000 (demo_server_of st um) (NewUserService t0) tr (posted labs) w" .
  from sync_inv_run [OF serve_run_worker [OF this]] serve_quits_on_cancel [OF this] serve_adapter(1,3) [OF this]
  show "sync_inv w" "quits_on_cancel w" "mem_inv (w_adapter w)" "0 < MaxBatch (w_config w)" .
qed

section \<open>Where main is\<close>

definition cancelled :: "proc \<Rightarrow> bool" where
  "cancelled p \<longleftrightarrow> (\<exists>w. worker_of p = Some w \<and> s_ctx w \<noteq> None)"

definition start_returned :: "proc \<Rightarrow> bool" where
  "start_returned p \<longleftrightarrow> (\<exists>w. worker_of p = Some w \<and> s_pc w = start_pc.Returned (Some Canceled))"

text \<open>What main has done after its first lines when it has come to \<open>pc\<close>.\<close>

definition stage :: "main_pc \<Rightarrow> first_event \<Rightarrow> server_env \<Rightarrow> effect list" where
  "stage pc first env =
     (let chosen = fst (select_first ''Shutdown signal received'' first);
          stopped = chosen @ [StopServer] @ log_unless Canceled ''Error stopping server: '' (env_stop env);
          awaited = stopped @ [AwaitServer] @ log_unless Canceled ''grpcq server exited: '' (env_server env)
      in case pc of
           AtSelect \<Rightarrow> []
         | AtStop \<Rightarrow> chosen
         | AtAwait \<Rightarrow> stopped
         | AtShutdown \<Rightarrow> awaited
         | AtFinal \<Rightarrow> awaited @ shutdownHTTPServer (env_shutdown env)
         | MainDone \<Rightarrow> awaited @ finish env)"

definition main_inv :: "string \<Rightarrow> proc_label list \<Rightarrow> proc \<Rightarrow> first_event \<Rightarrow> server_env \<Rightarrow> bool" where
  "main_inv addr labs p first env \<longleftrightarrow>
     (\<forall>ret. first \<noteq> ServerErr ret) \<and> effects addr labs = effects addr [] @ stage (pr_pc p) first env \<and>
     env_server env = Some Canceled \<and> (env_stop env = None \<or> env_stop env = Some (Msg ''server not started'')) \<and>
     (cancelled p \<longleftrightarrow> pr_pc p \<notin> {AtSelect, AtStop} \<and> env_stop env = None) \<and>
     (pr_sent p \<longrightarrow> start_returned p) \<and> (\<forall>ret. serverErrCh p = Some ret \<longrightarrow> pr_sent p \<and> ret = Some Canceled) \<and>
     (pr_pc p \<in> {AtShutdown, AtFinal, MainDone} \<longrightarrow> pr_sent p) \<and>
     (pr_sent p \<and> pr_pc p \<in> {AtSelect, AtStop, AtAwait} \<longrightarrow> serverErrCh p \<noteq> None)"

lemma set_shared_worker [simp]:
  "cancelled (set_adapter a p) = cancelled p" "cancelled (set_app s p) = cancelled p"
  "start_returned (set_adapter a p) = start_returned p" "start_returned (set_app s p) = start_returned p"
  by (auto simp: cancelled_def start_returned_def set_adapter_def set_app_def split: option.splits)

lemma returned_stays:
  "worker_step consume ack nack ev w w' \<Longrightarrow> own ev \<Longrightarrow> sync_inv w \<Longrightarrow> s_pc w = start_pc.Returned ret \<Longrightarrow>
   s_pc w' = start_pc.Returned ret"
  by (cases rule: worker_step.cases) auto

lemma main_inv_work:
  assumes "main_inv addr labs p first env" and "worker_of p = Some w" and "sync_inv w"
    and "worker_step consume ack nack ev w w'" and "own ev"
  shows "main_inv addr (labs @ [WorkStep ev]) (set_worker w' p) first env"
proof -
  have "cancelled (set_worker w' p) = cancelled p" using own_step_ctx [OF assms(4,5)] assms(2) by (simp add: cancelled_def)
  moreover have "start_returned p \<Longrightarrow> start_returned (set_worker w' p)"
    using returned_stays [OF assms(4,5,3)] assms(2) by (auto simp: start_returned_def)
  ultimately show ?thesis using assms(1) by (auto simp: main_inv_def)
qed

lemma returned_cancelled:
  assumes "quits_on_cancel w" and "s_pc w = start_pc.Returned ret"
  shows "ret = Some Canceled" "s_ctx w = Some Canceled"
  using assms by (auto simp: quits_on_cancel_def)

lemma main_inv_env:
  assumes "main_inv addr labs p first env" and "pr_pc p' = pr_pc p" and "pr_sent p' = pr_sent p"
    and "serverErrCh p' = serverErrCh p" and "cancelled p' = cancelled p" and "start_returned p' = start_returned p"
  shows "main_inv addr (labs @ [EnvStep ms]) p' first env"
  using assms by (simp add: main_inv_def)

lemma main_inv_stop:
  assumes "main_inv addr labs p first env" and "pr_pc p = AtStop" and "server_Stop (pr_server p) = (err, srv')"
  shows "main_inv addr (labs @ [MainStep ([StopServer] @ log_unless Canceled ''Error stopping server: '' err)])
    (p\<lparr>pr_server := srv', pr_pc := AtAwait\<rparr>) first (env\<lparr>env_stop := err\<rparr>)"
proof -
  have "err = None \<or> err = Some (Msg ''server not started'')" "srv_worker srv' = None \<longleftrightarrow> err \<noteq> None"
    "\<And>w. srv_worker srv' = Some w \<Longrightarrow> s_ctx w \<noteq> None"
    using assms(3) by (auto simp: server_Stop_def split: option.splits)
  then have "cancelled (p\<lparr>pr_server := srv', pr_pc := AtAwait\<rparr>) \<longleftrightarrow> err = None" by (auto simp: cancelled_def)
  moreover have "start_returned (p\<lparr>pr_server := srv', pr_pc := AtAwait\<rparr>) \<longleftrightarrow> start_returned p"
    using assms(3) by (auto simp: start_returned_def server_Stop_def split: option.splits)
  moreover note \<open>err = None \<or> err = Some (Msg ''server not started'')\<close>
  ultimately show ?thesis using assms(1,2) by (simp add: main_inv_def stage_def Let_def)
qed

lemma main_inv_step:
  assumes "proc_step unmarshal lab p p'" and "main_inv addr labs p first env" and "pr_pc p \<noteq> MainDone"
    and "\<And>w. worker_of p = Some w \<Longrightarrow> sync_inv w \<and> quits_on_cancel w"
  shows "\<exists>first env. main_inv addr (labs @ [lab]) p' first env"
  using assms(1)
proof cases
  case go_start
  then have "\<not> cancelled p" "\<not> cancelled p'" "\<not> start_returned p"
    by (auto simp: cancelled_def start_returned_def server_Start_def NewWorker_def)
  with go_start assms(2) show ?thesis by (intro exI [of _ first] exI [of _ env]) (auto simp: main_inv_def)
next
  case (go_work w ev w')
  with main_inv_work [OF assms(2) go_work(3) _ go_work(5,6)] assms(4) show ?thesis by blast
next
  case (go_work_stopped w ev w')
  with main_inv_work [OF assms(2) go_work_stopped(3) _ go_work_stopped(5,6)] assms(4) show ?thesis by blast
next
  case (go_report w ret)
  then have "start_returned p'" "cancelled p' = cancelled p" "ret = Some Canceled"
    using returned_cancelled [of w ret] assms(4) by (auto simp: start_returned_def cancelled_def)
  with go_report assms(2) show ?thesis by (intro exI [of _ first] exI [of _ env]) (auto simp: main_inv_def)
next
  case main_signal
  with assms(2) show ?thesis
    by (intro exI [of _ Signal] exI [of _ env]) (auto simp: main_inv_def stage_def select_first_def cancelled_def start_returned_def)
next
  case (main_queue_err err)
  with assms(2) show ?thesis
    by (intro exI [of _ "QueueErr err"] exI [of _ env])
      (auto simp: main_inv_def stage_def select_first_def cancelled_def start_returned_def)
next
  case (main_server_err err)
  then have "start_returned p" "\<not> cancelled p" using assms(2) by (auto simp: main_inv_def)
  then show ?thesis using returned_cancelled(2) assms(4) by (force simp: start_returned_def cancelled_def)
next
  case (main_stop err srv')
  with main_inv_stop [OF assms(2)] show ?thesis by blast
next
  case (main_await err)
  with assms(2) show ?thesis
    by (intro exI [of _ first] exI [of _ env])
      (auto simp: main_inv_def stage_def Let_def log_unless_def cancelled_def start_returned_def)
next
  case (main_shutdown err)
  with assms(2) show ?thesis
    by (intro exI [of _ first] exI [of _ "env\<lparr>env_shutdown := err\<rparr>"])
      (auto simp: main_inv_def stage_def Let_def cancelled_def start_returned_def)
next
  case main_final
  with assms(2) show ?thesis
    by (intro exI [of _ first] exI [of _ "env\<lparr>env_queue := queueErrCh p\<rparr>"])
      (auto simp: main_inv_def stage_def Let_def cancelled_def start_returned_def finish_def)
next
  case sig_arrives
  show ?thesis unfolding sig_arrives
    by (rule exI [of _ first], rule exI [of _ env], rule main_inv_env [OF assms(2)]) (simp_all add: cancelled_def start_returned_def)
next
  case (listen_returns err)
  show ?thesis unfolding listen_returns
    by (rule exI [of _ first], rule exI [of _ env], rule main_inv_env [OF assms(2)]) (simp_all add: cancelled_def start_returned_def)
next
  case mutex_taken
  show ?thesis unfolding mutex_taken(1,2)
    by (rule exI [of _ first], rule exI [of _ env], rule main_inv_env [OF assms(2)]) (simp_all add: cancelled_def start_returned_def)
next
  case mutex_freed
  show ?thesis unfolding mutex_freed(1,2)
    by (rule exI [of _ first], rule exI [of _ env], rule main_inv_env [OF assms(2)]) (simp_all add: cancelled_def start_returned_def)
next
  case (request r resp a')
  show ?thesis unfolding request(1,2) by (rule exI [of _ first], rule exI [of _ env], rule main_inv_env [OF assms(2)]) simp_all
next
  case (time_passes s')
  show ?thesis unfolding time_passes(1,2) by (rule exI [of _ first], rule exI [of _ env], rule main_inv_env [OF assms(2)]) simp_all
qed

lemma main_inv_path:
  assumes "proc_path unmarshal (async_init st um t0) labs p"
  shows "\<exists>first env. main_inv addr labs p first env"
  using assms
proof (induction rule: proc_path.induct)
  case path_start
  show ?case
    by (intro exI [of _ Signal] exI [of _ "\<lparr>env_stop = None, env_server = Some Canceled, env_shutdown = None, env_queue = None\<rparr>"])
      (simp add: main_inv_def stage_def async_init_def cancelled_def demo_server_of_def RegisterUserServiceConsumer_def
        server_RegisterMethod_def NewServer_def Let_def)
next
  case (path_step labs p lab p')
  from path_step.IH main_inv_step [OF path_step.hyps(3) _ path_step.hyps(2)] path_worker(1,2) [OF path_step.hyps(1)]
  show ?case by blast
qed

section \<open>How long the shutdown takes\<close>

primrec main_left :: "main_pc \<Rightarrow> nat" where
  "main_left AtSelect = 5"
| "main_left AtStop = 4"
| "main_left AtAwait = 3"
| "main_left AtShutdown = 2"
| "main_left AtFinal = 1"
| "main_left MainDone = 0"

text \<open>Bounds the steps of the process once its server is cancelled: main's, the report of \<open>Start\<close>, and the worker's.\<close>

definition proc_left :: "proc \<Rightarrow> nat" where
  "proc_left p =
     main_left (pr_pc p) + (if pr_sent p then 0 else 1) + (case worker_of p of None \<Rightarrow> 0 | Some w \<Rightarrow> work_left w)"

primrec proc_own :: "proc_label \<Rightarrow> bool" where
  "proc_own (MainStep es) = True"
| "proc_own GoStep = True"
| "proc_own (WorkStep ev) = True"
| "proc_own (EnvStep ms) = False"

lemma work_left_shared [simp]:
  "work_left (w\<lparr>w_adapter := a\<rparr>) = work_left w" "work_left (w\<lparr>w_app := s\<rparr>) = work_left w"
  by (simp_all add: work_left_def)

lemma proc_left_env:
  "proc_left (set_adapter a p) = proc_left p" "proc_left (set_app s p) = proc_left p"
  by (simp_all add: proc_left_def set_adapter_def set_app_def split: option.split)

lemma proc_left_work:
  assumes "worker_of p = Some w" and "cancelled p" and "mem_inv (w_adapter w)" and "0 < MaxBatch (w_config w)"
    and "worker_step Consume Ack Nack ev w w'" and "own ev"
  shows "proc_left (set_worker w' p) < proc_left p" "cancelled (set_worker w' p)"
proof -
  from assms(1,2) have "stopping w" by (auto simp: cancelled_def stopping_def)
  from own_step_work [OF assms(5,6) this] mem_worker.consume_bound [OF assms(3,4)] have "work_left w' < work_left w" by blast
  with assms(1) show "proc_left (set_worker w' p) < proc_left p" by (simp add: proc_left_def)
  show "cancelled (set_worker w' p)" using own_step_ctx [OF assms(5,6)] assms(1,2) by (auto simp: cancelled_def)
qed

lemma proc_left_step:
  assumes "proc_step unmarshal lab p p'" and "cancelled p"
    and "\<And>w. worker_of p = Some w \<Longrightarrow> mem_inv (w_adapter w) \<and> 0 < MaxBatch (w_config w)"
  shows "cancelled p' \<and> (if proc_own lab then proc_left p' < proc_left p else proc_left p' = proc_left p)"
  using assms(1)
proof cases
  case go_start
  with assms(2) show ?thesis by (simp add: cancelled_def)
next
  case (go_work w ev w')
  with assms(2) show ?thesis by (simp add: cancelled_def)
next
  case (go_work_stopped w ev w')
  with proc_left_work [OF go_work_stopped(3) assms(2) _ _ go_work_stopped(5,6)] assms(3) show ?thesis by simp
next
  case (main_stop err srv')
  from assms(2) obtain w e where w: "worker_of p = Some w" "s_ctx w = Some e" by (auto simp: cancelled_def)
  with main_stop(4) have "srv_worker srv' = Some w" by (auto simp: server_Stop_def)
  with main_stop w show ?thesis by (simp add: cancelled_def proc_left_def)
next
  case (request r resp a')
  with assms(2) show ?thesis by (simp add: proc_left_env)
next
  case (time_passes s')
  with assms(2) show ?thesis by (simp add: proc_left_env)
qed (use assms(2) in \<open>auto simp: proc_left_def cancelled_def\<close>)

lemma path_append:
  assumes "proc_path unmarshal p ext p'" and "proc_path unmarshal p0 labs p"
  shows "proc_path unmarshal p0 (labs @ ext) p'"
  using assms
proof (induction rule: proc_path.induct)
  case (path_step ext q lab q')
  from proc_path.path_step [OF path_step.IH [OF path_step.prems] path_step.hyps(2,3)] show ?case by simp
qed simp

lemma path_Cons:
  assumes "proc_step unmarshal lab p p1" and "pr_pc p \<noteq> MainDone" and "proc_path unmarshal p1 labs p'"
  shows "proc_path unmarshal p (lab # labs) p'"
  using path_append [OF assms(3) path_step [OF path_start assms(2,1)]] by simp

lemma cancelled_bound:
  assumes "proc_path unmarshal p ext p'" and "proc_path unmarshal (async_init st um t0) labs p" and "cancelled p"
  shows "cancelled p' \<and> length (filter proc_own ext) + proc_left p' \<le> proc_left p"
  using assms
proof (induction rule: proc_path.induct)
  case (path_step ext q lab q')
  note IH = path_step.IH [OF path_step.prems]
  note w = path_worker(3,4) [OF path_append [OF path_step.hyps(1) path_step.prems(1)]]
  from proc_left_step [OF path_step.hyps(3)] w IH show ?case by (cases "proc_own lab") auto
qed simp

text \<open>Until main has returned, the process can go on by itself, unless the worker waits for the adapter's mutex.\<close>

lemma cancelled_progress:
  assumes "proc_path unmarshal (async_init st um t0) labs p" and "cancelled p" and "pr_pc p \<noteq> MainDone"
  shows "(\<exists>lab p'. proc_own lab \<and> proc_step unmarshal lab p p') \<longleftrightarrow>
    \<not> (pr_mutex p \<and> (\<exists>w. worker_of p = Some w \<and> s_pc w = Consuming \<and> gos w = []))"
proof -
  from main_inv_path [OF assms(1)] obtain first env where inv: "main_inv [] labs p first env" by blast
  from assms(2) obtain w where w: "worker_of p = Some w" "s_ctx w \<noteq> None" by (auto simp: cancelled_def)
  have err: "\<exists>lab p'. proc_own lab \<and> proc_step unmarshal lab p p'" if "proc_step unmarshal (MainStep es) p p'" for es p'
    using that by (intro exI [of _ "MainStep es"] exI [of _ p']) simp
  show ?thesis
  proof (cases "pr_sent p")
    case True
    with inv w(1) have "s_pc w \<noteq> Consuming" by (auto simp: main_inv_def start_returned_def)
    moreover from inv assms(2,3) consider "pr_pc p = AtAwait" | "pr_pc p = AtShutdown" | "pr_pc p = AtFinal"
      by (cases "pr_pc p") (auto simp: main_inv_def)
    then have "\<exists>lab p'. proc_own lab \<and> proc_step unmarshal lab p p'"
    proof cases
      case 1
      with True inv obtain ret where "serverErrCh p = Some ret" by (auto simp: main_inv_def)
      from err [OF main_await [OF 1 this]] show ?thesis .
    next
      case 2
      from err [OF main_shutdown [OF 2, of "Some DeadlineExceeded"]] show ?thesis by simp
    next
      case 3
      from err [OF main_final [OF 3]] show ?thesis .
    qed
    ultimately show ?thesis using w(1) by auto
  next
    case False
    with inv assms(2,3) have pc: "pr_pc p = AtAwait" "serverErrCh p = None" by (cases "pr_pc p"; auto simp: main_inv_def)+
    show ?thesis
    proof (cases "\<exists>ret. s_pc w = start_pc.Returned ret")
      case True
      then obtain ret where r: "s_pc w = start_pc.Returned ret" by blast
      from go_report [OF w(1) r False, of unmarshal] have "\<exists>lab p'. proc_own lab \<and> proc_step unmarshal lab p p'"
        by (metis proc_own.simps(2))
      with r w(1) show ?thesis by auto
    next
      case running: False
      have "(\<exists>lab p'. proc_own lab \<and> proc_step unmarshal lab p p') \<longleftrightarrow> can_move (pr_mutex p) w"
      proof
        assume "\<exists>lab p'. proc_own lab \<and> proc_step unmarshal lab p p'"
        then obtain lab p' where "proc_own lab" "proc_step unmarshal lab p p'" by blast
        from this(2,1) pc w running show "can_move (pr_mutex p) w" by cases (auto simp: can_move_def)
      next
        assume "can_move (pr_mutex p) w"
        then obtain ev w' where "own ev" "worker_step Consume Ack Nack ev w w'" "takes_mutex w w' \<longrightarrow> \<not> pr_mutex p"
          by (auto simp: can_move_def)
        from go_work_stopped [OF w this(2,1,3), of unmarshal] show "\<exists>lab p'. proc_own lab \<and> proc_step unmarshal lab p p'"
          by (metis proc_own.simps(3))
      qed
      with moves_iff [OF path_worker(1) [OF assms(1) w(1)] running] w(1) show ?thesis by auto
    qed
  qed
qed

section \<open>Properties\<close>

lemma stage_effects:
  assumes "\<And>ret. first \<noteq> ServerErr ret"
  shows "\<exists>rest. fst (runAsyncServer addr first env) = (effects addr [] @ stage pc first env) @ rest \<and> (pc = MainDone \<longrightarrow> rest = [])"
proof -
  from assms obtain es where "select_first ''Shutdown signal received'' first = (es, True)"
    by (cases first) (auto simp: select_first_def)
  then show ?thesis
    by (cases pc) (simp_all add: runAsyncServer_def stage_def stop_server_def finish_def Let_def)
qed

text \<open>
  C12. The process of the asynchronous server does what its main goroutine is described to do: at every moment of every
  interleaving its effects are the beginning of a run of runAsyncServer whose select chose the signal or an error of the
  HTTP server, never the server's own error; when main has returned they are the whole run, Stop has
  succeeded, and the server has ended with context.Canceled, which is not logged.
\<close>

theorem async_server_effects:
  assumes "proc_path unmarshal (async_init st um t0) labs p"
  shows "\<exists>first env rest. (\<forall>ret. first \<noteq> ServerErr ret) \<and>
    fst (runAsyncServer addr first env) = effects addr labs @ rest \<and>
    (pr_pc p = MainDone \<longrightarrow> rest = [] \<and> env_stop env = None \<and> env_server env = Some Canceled)"
proof -
  from main_inv_path [OF assms] obtain first env where inv: "main_inv addr labs p first env" by blast
  then have "\<And>ret. first \<noteq> ServerErr ret" by (simp add: main_inv_def)
  from stage_effects [OF this, of addr env "pr_pc p"] obtain rest where
    "fst (runAsyncServer addr first env) = effects addr labs @ rest" "pr_pc p = MainDone \<longrightarrow> rest = []"
    using inv by (auto simp: main_inv_def)
  moreover have "env_stop env = None" if d: "pr_pc p = MainDone"
  proof -
    from inv d obtain w where w: "worker_of p = Some w" "s_pc w = start_pc.Returned (Some Canceled)"
      by (auto simp: main_inv_def start_returned_def)
    with returned_cancelled(2) [OF path_worker(2) [OF assms w(1)] w(2)] have "cancelled p" by (simp add: cancelled_def)
    with inv show ?thesis by (simp add: main_inv_def)
  qed
  ultimately show ?thesis using inv by (intro exI [of _ first] exI [of _ env] exI [of _ rest]) (auto simp: main_inv_def)
qed

text \<open>
  C7. When main returns, the server has drained: no handler is running, every message that was dispatched has been handled
  once and settled once, and the messages of the requests answered with 204 are those still queued, those abandoned at
  shutdown, those done, and lost ones: at most one per failed handler run and nine more.
\<close>

theorem async_server_drains:
  assumes "proc_path unmarshal (async_init st um t0) labs p" and "pr_pc p = MainDone"
  shows "\<exists>w lost. worker_of p = Some w \<and> gos w = [] \<and>
    mset (settled (work_done labs)) = mset (handler_runs (work_done labs)) \<and>
    mset (map fst (settled (work_done labs))) = mset (begun (work_done labs)) \<and>
    mset (posted labs) = stock (w_adapter w) + image_mset Message (mset (dropped (work_done labs))) +
      done_messages (work_done labs) + lost \<and>
    size lost \<le> failures (work_done labs) + 9"
proof -
  from main_inv_path [OF assms(1)] assms(2) obtain w where
    w: "worker_of p = Some w" "s_pc w = start_pc.Returned (Some Canceled)" by (force simp: main_inv_def start_returned_def)
  from serves_worker [OF assms(1) w(1)] obtain tr where
    run: "serve_run clock unmarshal 1000 (demo_server_of st um) (NewUserService t0) tr (posted labs) w"
    and tr: "visible tr = work_done labs" .
  from path_worker(1) [OF assms(1) w(1)] w(2) have g: "gos w = []" by (simp add: sync_inv_def)
  have "MaxBatch (w_config w) = 10"
    by (simp add: serve_config [OF run] demo_server_of_def RegisterUserServiceConsumer_def server_RegisterMethod_def Let_def NewServer_def
        WithQueueName_def WithConcurrency_def WithPollInterval_def server_workerConfig_def worker_config_def)
  with serve_accounts [OF run] w(2) obtain lost where
    "mset (posted labs) = accounted tr w + lost" "size lost \<le> failures tr + 9" by (auto simp: allowance_def)
  moreover have "accounted tr w = stock (w_adapter w) + image_mset Message (mset (dropped tr)) + done_messages tr"
    using g w(2) by (simp add: accounted_def unsettled_def)
  moreover from books_inv_run [OF serve_run_worker [OF run]] g have
    "mset (settled tr) = mset (handler_runs tr)" "mset (map fst (settled tr)) = mset (begun tr)"
    by (simp_all add: books_inv_def)
  ultimately show ?thesis using w(1) g visible_reads [of tr] unfolding tr [symmetric]
    by (auto simp: done_messages_def failures_def)
qed

text \<open>
  C13. The shutdown terminates as far as the adapter lets it: once main has stopped a server whose Start had run, the process
  makes at most a computed number of further steps whatever signals and requests arrive, and has returned when it has made
  that many.  Until then it can make one, except in one situation: a publish handler holds the adapter's mutex, and the
  worker, with no goroutine left, is about to take it in Consume.  Then it cannot, and main waits for as long as
  the handler does.
\<close>

theorem async_server_terminates:
  assumes "proc_path unmarshal (async_init st um t0) labs p" and "cancelled p" and "proc_path unmarshal p ext p'"
  shows "length (filter proc_own ext) \<le> proc_left p \<and>
    (length (filter proc_own ext) = proc_left p \<longrightarrow> pr_pc p' = MainDone) \<and>
    (pr_pc p' \<noteq> MainDone \<longrightarrow>
       ((\<exists>lab p''. proc_own lab \<and> proc_step unmarshal lab p' p'') \<longleftrightarrow>
        \<not> (pr_mutex p' \<and> (\<exists>w. worker_of p' = Some w \<and> s_pc w = Consuming \<and> gos w = []))))"
proof -
  note b = cancelled_bound [OF assms(3,1,2)]
  have "proc_left p' = 0 \<Longrightarrow> pr_pc p' = MainDone" by (cases "pr_pc p'") (simp_all add: proc_left_def)
  with b cancelled_progress [OF path_append [OF assms(3,1)]] show ?thesis by auto
qed

text \<open>
  C8. A Stop that comes before Start is lost and the process hangs: if main has logged that the server it was to stop
  had not been started, main waits for the server's report and goes on waiting, whatever happens afterwards, since the
  server starts with a context that nobody cancels.
\<close>

theorem early_stop_hangs:
  assumes "proc_path unmarshal (async_init st um t0) labs p"
    and "Log ''Error stopping server: server not started'' \<in> set (effects addr labs)"
  shows "pr_pc p = AtAwait \<and> (\<forall>w. worker_of p = Some w \<longrightarrow> s_ctx w = None \<and> returning (s_pc w) = None)"
proof -
  from main_inv_path [OF assms(1)] obtain first env where inv: "main_inv addr labs p first env" by blast
  from inv assms(2) have stop: "env_stop env \<noteq> None" and pc: "pr_pc p \<notin> {AtSelect, AtStop}"
    by (auto simp: main_inv_def stage_def select_first_def log_unless_def shutdownHTTPServer_def finish_def Let_def
        split: main_pc.splits first_event.splits option.splits if_splits)
  with inv have "\<not> cancelled p" by (simp add: main_inv_def)
  then have w: "s_ctx w = None \<and> returning (s_pc w) = None" if "worker_of p = Some w" for w
    using path_worker(2) [OF assms(1) that] that by (auto simp: cancelled_def quits_on_cancel_def)
  then have "\<not> start_returned p" by (auto simp: start_returned_def)
  with inv pc have "pr_pc p = AtAwait" by (cases "pr_pc p") (auto simp: main_inv_def)
  with w show ?thesis by blast
qed

section \<open>A run of the process\<close>

text \<open>
  A message is posted, the signal arrives, \<open>Start\<close> has run by the time main calls Stop, and the worker finds its context
  done before it has polled.
\<close>

definition ann_proc :: proc where
  "ann_proc = async_init (\<lambda>_. Ext) (\<lambda>_. Some (\<lambda>_. Inr (ReqCreate ann))) 7"

abbreviation ann_path :: "proc \<Rightarrow> proc_label list \<Rightarrow> proc \<Rightarrow> bool" where
  "ann_path \<equiv> proc_path (\<lambda>_. Inr ann_message)"

lemma ann_proc_fields [simp]:
  "pr_pc ann_proc = AtSelect" "worker_of ann_proc = None" "pr_http ann_proc" "\<not> pr_sent ann_proc" "serverErrCh ann_proc = None"
  "queueErrCh ann_proc = None" "\<not> pr_mutex ann_proc" "pr_adapter ann_proc = NewAdapter 1000"
  by (simp_all add: ann_proc_def async_init_def demo_server_of_def RegisterUserServiceConsumer_def server_RegisterMethod_def
      NewServer_def Let_def)

lemma shutdown_path:
  assumes "pr_pc p = AtAwait" and "worker_of p = Some w" and "s_ctx w = Some Canceled" and "s_pc w = NotStarted" and "wg w = 0"
    and "\<not> pr_sent p" and "queueErrCh p = None" and "\<not> pr_mutex p"
  shows "\<exists>p'. proc_path unmarshal p [WorkStep Tau, WorkStep Tau, WorkStep (StartReturns (Some Canceled)), GoStep,
      MainStep [AwaitServer], MainStep [ShutdownHTTP], MainStep []] p' \<and> pr_pc p' = MainDone"
proof -
  define w1 where "w1 = w\<lparr>s_pc := LoopTop\<rparr>"
  define w2 where "w2 = fail_return Canceled w1"
  define w3 where "w3 = w2\<lparr>done_ch := True, s_pc := start_pc.Returned (Some Canceled)\<rparr>"
  define p4 where "p4 = (set_worker w3 (set_worker w2 (set_worker w1 p)))\<lparr>serverErrCh := Some (Some Canceled), pr_sent := True\<rparr>"
  define p5 where "p5 = p4\<lparr>serverErrCh := None, pr_pc := AtShutdown\<rparr>"
  define p6 where "p6 = p5\<lparr>pr_http := (None \<noteq> (None :: error option)), pr_pc := AtFinal\<rparr>"
  define p7 where "p7 = p6\<lparr>queueErrCh := None, pr_pc := MainDone\<rparr>"
  note defs = w1_def w2_def w3_def p4_def p5_def p6_def p7_def
  have s: "worker_step Consume Ack Nack Tau w w1" "worker_step Consume Ack Nack Tau w1 w2"
    "worker_step Consume Ack Nack (StartReturns (Some Canceled)) w2 w3"
    using start_call [OF assms(4)] top_ctx [of w1 Canceled] drained [of w2 "Some Canceled"] assms(3,5)
    by (simp_all add: defs)
  have t: "proc_step unmarshal (WorkStep Tau) p (set_worker w1 p)"
    "proc_step unmarshal (WorkStep Tau) (set_worker w1 p) (set_worker w2 (set_worker w1 p))"
    "proc_step unmarshal (WorkStep (StartReturns (Some Canceled))) (set_worker w2 (set_worker w1 p))
       (set_worker w3 (set_worker w2 (set_worker w1 p)))"
    using go_work_stopped [of p w] go_work_stopped [of "set_worker w1 p" w1]
      go_work_stopped [of "set_worker w2 (set_worker w1 p)" w2] assms(2,3) s by (simp_all add: w1_def w2_def takes_mutex_def assms(4))
  have u: "proc_step unmarshal GoStep (set_worker w3 (set_worker w2 (set_worker w1 p))) p4"
    "proc_step unmarshal (MainStep [AwaitServer]) p4 p5" "proc_step unmarshal (MainStep [ShutdownHTTP]) p5 p6"
    "proc_step unmarshal (MainStep []) p6 p7"
    using go_report [of "set_worker w3 (set_worker w2 (set_worker w1 p))" w3 "Some Canceled"]
      main_await [of p4 "Some Canceled" unmarshal] main_shutdown [of p5 None unmarshal] main_final [of p6 unmarshal] assms(1,6-8)
    by (simp_all add: defs log_unless_def shutdownHTTPServer_def)
  have "proc_path unmarshal p [WorkStep Tau, WorkStep Tau, WorkStep (StartReturns (Some Canceled)), GoStep,
      MainStep [AwaitServer], MainStep [ShutdownHTTP], MainStep []] p7"
    using assms(1) by (intro path_Cons [OF t(1)] path_Cons [OF t(2)] path_Cons [OF t(3)] path_Cons [OF u(1)] path_Cons [OF u(2)]
        path_Cons [OF u(3)] path_Cons [OF u(4)] path_start) (simp_all add: p4_def p5_def p6_def)
  moreover have "pr_pc p7 = MainDone" by (simp add: p7_def)
  ultimately show ?thesis by blast
qed

text \<open>Up to the call of Stop.\<close>

abbreviation ann_labels :: "proc_label list" where
  "ann_labels \<equiv> [EnvStep [ann_message], EnvStep [], GoStep, MainStep [Log ''Shutdown signal received''], MainStep [StopServer]]"

lemma ann_stopped:
  obtains p w where "ann_path ann_proc ann_labels p" "pr_pc p = AtAwait" "worker_of p = Some w" "s_ctx w = Some Canceled"
    "s_pc w = NotStarted" "wg w = 0" "gos w = []" "\<not> pr_sent p" "queueErrCh p = None" "cancelled p" "\<not> pr_mutex p"
proof -
  obtain a where "Publish None demo_queueName [ann_message] (NewAdapter 1000) = (None, a)" by (rule ann_publish)
  from post_accepted [OF this demo_names(3,4)] obtain r where
    r: "NewPublishHandler (\<lambda>_. Inr ann_message) r (NewAdapter 1000) = (NoContent, a)"
      "answered (\<lambda>_. Inr ann_message) r NoContent = [ann_message]" by blast
  define p1 where "p1 = set_adapter a ann_proc"
  define p2 where "p2 = p1\<lparr>sigCh := True\<rparr>"
  define p3 where "p3 = p2\<lparr>pr_server := server_Start (pr_adapter p2) (pr_app p2) None (pr_server p2)\<rparr>"
  define p4 where "p4 = p3\<lparr>sigCh := False, pr_pc := AtStop\<rparr>"
  define p5 where "p5 = p4\<lparr>pr_server := snd (server_Stop (pr_server p4)), pr_pc := AtAwait\<rparr>"
  note defs = p1_def p2_def p3_def p4_def p5_def set_adapter_def server_Start_def server_Stop_def NewWorker_def
  have "adapter_of ann_proc = NewAdapter 1000" by (simp add: adapter_of_def)
  with request [of ann_proc "\<lambda>_. Inr ann_message" r NoContent a] r have
    t1: "proc_step (\<lambda>_. Inr ann_message) (EnvStep [ann_message]) ann_proc p1" by (simp add: p1_def)
  have t2: "proc_step (\<lambda>_. Inr ann_message) (EnvStep []) p1 p2" unfolding p2_def by (rule sig_arrives)
  have t3: "proc_step (\<lambda>_. Inr ann_message) GoStep p2 p3" unfolding p3_def by (rule go_start) (simp add: p1_def p2_def)
  have t4: "proc_step (\<lambda>_. Inr ann_message) (MainStep [Log ''Shutdown signal received'']) p3 p4"
    unfolding p4_def by (rule main_signal) (simp_all add: p1_def p2_def p3_def)
  have t5: "proc_step (\<lambda>_. Inr ann_message) (MainStep [StopServer]) p4 p5"
    using main_stop [of p4 None "snd (server_Stop (pr_server p4))"] by (simp add: defs log_unless_def)
  have "ann_path ann_proc ann_labels p5"
    by (intro path_Cons [OF t1] path_Cons [OF t2] path_Cons [OF t3] path_Cons [OF t4] path_Cons [OF t5] path_start)
      (simp_all add: p1_def p2_def p3_def p4_def)
  then show thesis by (rule that [where w = "the (worker_of p5)"]) (simp_all add: defs cancelled_def)
qed

abbreviation ann_all_labels :: "proc_label list" where
  "ann_all_labels \<equiv> ann_labels @ [WorkStep Tau, WorkStep Tau, WorkStep (StartReturns (Some Canceled)), GoStep,
     MainStep [AwaitServer], MainStep [ShutdownHTTP], MainStep []]"

lemma ann_finished: obtains p where "ann_path ann_proc ann_all_labels p" "pr_pc p = MainDone"
proof -
  obtain q w where q: "ann_path ann_proc ann_labels q" "pr_pc q = AtAwait" "worker_of q = Some w" "s_ctx w = Some Canceled"
    "s_pc w = NotStarted" "wg w = 0" "gos w = []" "\<not> pr_sent q" "queueErrCh q = None" "cancelled q" "\<not> pr_mutex q" by (rule ann_stopped)
  from shutdown_path [OF q(2-6,8,9,11), of "\<lambda>_. Inr ann_message"] path_append [OF _ q(1)] that show thesis by blast
qed

theorem async_server_effects_witness:
  "\<exists>labs p env. ann_path ann_proc labs p \<and> pr_pc p = MainDone \<and>
     effects ''addr'' labs = fst (runAsyncServer ''addr'' Signal env) \<and> env_stop env = None"
proof -
  obtain p where p: "ann_path ann_proc ann_all_labels p" "pr_pc p = MainDone" by (rule ann_finished)
  from async_server_effects [OF p(1) [unfolded ann_proc_def], of "''addr''"] p(2) obtain first env where
    e: "fst (runAsyncServer ''addr'' first env) = effects ''addr'' ann_all_labels" "env_stop env = None" "\<forall>ret. first \<noteq> ServerErr ret" by auto
  have "first = Signal"
    using e(1,3) by (cases first) (auto simp: effects_def runAsyncServer_def select_first_def)
  with e p show ?thesis by metis
qed

theorem async_server_drains_witness:
  "\<exists>labs p w lost. ann_path ann_proc labs p \<and> worker_of p = Some w \<and> {#ann_message#} = stock (w_adapter w) + lost \<and> size lost \<le> 9"
proof -
  obtain p where p: "ann_path ann_proc ann_all_labels p" "pr_pc p = MainDone" by (rule ann_finished)
  have "work_done ann_all_labels = [Tau, Tau, StartReturns (Some Canceled)]" "posted ann_all_labels = [ann_message]"
    by (simp_all add: work_done_def posted_def)
  with async_server_drains [OF p(1) [unfolded ann_proc_def] p(2)] obtain w lost where
    "worker_of p = Some w" "{#ann_message#} = stock (w_adapter w) + lost" "size lost \<le> 9"
    by (auto simp: dropped_def done_messages_def settled_def failures_def)
  with p(1) show ?thesis by blast
qed

theorem async_server_terminates_witness:
  "\<exists>p ext p'. ann_path ann_proc ann_labels p \<and> (\<exists>lab p1. proc_own lab \<and> proc_step (\<lambda>_. Inr ann_message) lab p p1) \<and>
     ann_path p ext p' \<and> length (filter proc_own ext) = 7 \<and> pr_pc p' = MainDone"
proof -
  obtain q w where q: "ann_path ann_proc ann_labels q" "pr_pc q = AtAwait" "worker_of q = Some w" "s_ctx w = Some Canceled"
    "s_pc w = NotStarted" "wg w = 0" "gos w = []" "\<not> pr_sent q" "queueErrCh q = None" "cancelled q" "\<not> pr_mutex q"
    by (rule ann_stopped)
  note terminates = async_server_terminates [OF q(1) [unfolded ann_proc_def] q(10)]
  from q have "proc_left q = 7" by (simp add: proc_left_def work_left_def)
  moreover from shutdown_path [OF q(2-6,8,9,11), of "\<lambda>_. Inr ann_message"] obtain ext p' where
    e: "ann_path q ext p'" "length (filter proc_own ext) = 7" by auto
  ultimately have "pr_pc p' = MainDone" using terminates by metis
  moreover have "\<exists>lab p1. proc_own lab \<and> proc_step (\<lambda>_. Inr ann_message) lab q p1"
    using terminates [OF path_start] q(2,11) by simp
  ultimately show ?thesis using q(1) e by blast
qed

text \<open>The signal arrives before the goroutine has called \<open>Start\<close>.\<close>

theorem early_stop_hangs_witness:
  "\<exists>p. ann_path ann_proc [EnvStep [], MainStep [Log ''Shutdown signal received''],
      MainStep [StopServer, Log ''Error stopping server: server not started'']] p \<and> pr_pc p = AtAwait"
proof -
  let ?p1 = "ann_proc\<lparr>sigCh := True\<rparr>"
  let ?p2 = "?p1\<lparr>sigCh := False, pr_pc := AtStop\<rparr>"
  let ?p3 = "?p2\<lparr>pr_server := pr_server ann_proc, pr_pc := AtAwait\<rparr>"
  have t: "proc_step (\<lambda>_. Inr ann_message) (EnvStep []) ann_proc ?p1" by (rule sig_arrives)
  have u: "proc_step (\<lambda>_. Inr ann_message) (MainStep [Log ''Shutdown signal received'']) ?p1 ?p2" by (rule main_signal) simp_all
  have v: "proc_step (\<lambda>_. Inr ann_message) (MainStep [StopServer, Log ''Error stopping server: server not started'']) ?p2 ?p3"
    using main_stop [of ?p2 "Some (Msg ''server not started'')" "pr_server ann_proc"] by (simp add: server_Stop_def log_unless_def)
  have path: "ann_path ann_proc [EnvStep [], MainStep [Log ''Shutdown signal received''],
      MainStep [StopServer, Log ''Error stopping server: server not started'']] ?p3"
    by (intro path_Cons [OF t] path_Cons [OF u] path_Cons [OF v] path_start) simp_all
  from early_stop_hangs [OF path [unfolded ann_proc_def], of "[]"] path show ?thesis by (auto simp: effects_def ann_proc_def)
qed

end
