(* ===== verification/SqsAdapter.thy ===== *)
theory SqsAdapter
  imports Base64 Producer
begin

text \<open>
  \<open>go/adapters/sqs/adapter.go\<close>: message bodies, publishing in batches of ten, receiving, and receipts.

  The SQS client is outside the repository.  It is a record of the four calls the adapter makes, on a
  state \<open>'w\<close> of the service; protobuf's \<open>proto.Marshal\<close> and \<open>proto.Unmarshal\<close> on the envelope are the
  parameters \<open>marshal\<close> and \<open>unmarshal\<close>.  A \<open>*string\<close> that may be nil is an option, and
  \<open>aws.ToString\<close> reads it.
\<close>

section \<open>The client\<close>

record SendMessageBatchRequestEntry =
  Id :: string
  MessageBody :: string
  MessageAttributes :: "(string \<times> string \<times> string) list"

record sqsMessage =
  Body :: "string option"
  ReceiptHandle :: "string option"

record 'w sqsClient =
  SendMessageBatch ::
    "ctx \<Rightarrow> string \<Rightarrow> SendMessageBatchRequestEntry list \<Rightarrow> 'w \<Rightarrow> (error + string option list) \<times> 'w"
  ReceiveMessage :: "ctx \<Rightarrow> string \<Rightarrow> int \<Rightarrow> 'w \<Rightarrow> (error + sqsMessage list) \<times> 'w"
  DeleteMessage :: "ctx \<Rightarrow> string \<Rightarrow> string \<Rightarrow> 'w \<Rightarrow> error option \<times> 'w"
  ChangeMessageVisibility :: "ctx \<Rightarrow> string \<Rightarrow> string \<Rightarrow> int \<Rightarrow> 'w \<Rightarrow> error option \<times> 'w"

definition aws_ToString :: "string option \<Rightarrow> string" where
  "aws_ToString p = (case p of None \<Rightarrow> [] | Some s \<Rightarrow> s)"

section \<open>Message bodies\<close>

definition encodeMessageBody :: "(message \<Rightarrow> error + bytes) \<Rightarrow> message \<Rightarrow> error + string" where
  "encodeMessageBody marshal msg =
     (case marshal msg of Inl err \<Rightarrow> Inl err | Inr data \<Rightarrow> Inr (EncodeToString data))"

text \<open>The text \<open>%v\<close> prints for the base64 error, which may be nil.\<close>

definition b64_text :: "(error + bytes) \<Rightarrow> string" where
  "b64_text r = (case r of Inl e \<Rightarrow> error_text e | Inr _ \<Rightarrow> ''<nil>'')"

definition decodeMessageBody :: "(bytes \<Rightarrow> error + message) \<Rightarrow> string \<Rightarrow> error + message" where
  "decodeMessageBody unmarshal body =
     (let fallback =
        (case unmarshal body of
           Inl rawErr \<Rightarrow>
             Inl (Wrap (''failed to decode message (base64: '' @ b64_text (DecodeString body) @ '', raw: '') rawErr '')'')
         | Inr msg \<Rightarrow> Inr msg)
      in case DecodeString body of
           Inl _ \<Rightarrow> fallback
         | Inr data \<Rightarrow> (case unmarshal data of Inl _ \<Rightarrow> fallback | Inr msg \<Rightarrow> Inr msg))"

section \<open>The adapter\<close>

record 'w SqsAdapter =
  client :: "'w sqsClient"
  queueURLs :: str_map

record 'w SqsConfig =
  cfg_QueueURLs :: str_map
  cfg_Client :: "'w sqsClient option"

definition sqs_NewAdapter :: "'w SqsConfig \<Rightarrow> error + 'w SqsAdapter" where
  "sqs_NewAdapter cfg =
     (if cfg_QueueURLs cfg = [] then Inl (Msg ''at least one queue URL is required'')
      else case cfg_Client cfg of
             None \<Rightarrow> Inl (Msg ''SQS client is required'')
           | Some c \<Rightarrow> Inr \<lparr>client = c, queueURLs = cfg_QueueURLs cfg\<rparr>)"

definition batch_entry :: "message \<Rightarrow> string \<Rightarrow> SendMessageBatchRequestEntry" where
  "batch_entry msg body =
     \<lparr>Id = MessageId msg, MessageBody = body,
      MessageAttributes = [(''topic'', ''String'', Topic msg), (''action'', ''String'', Action msg),
                           (''originator'', ''String'', Originator msg)]\<rparr>"

text \<open>The entries of a batch, or the error of the first message that does not encode; \<open>i\<close> counts.\<close>

fun batch_entries ::
  "(message \<Rightarrow> error + bytes) \<Rightarrow> nat \<Rightarrow> message list \<Rightarrow> error + SendMessageBatchRequestEntry list" where
  "batch_entries marshal i [] = Inr []"
| "batch_entries marshal i (msg # msgs) =
     (case encodeMessageBody marshal msg of
        Inl err \<Rightarrow> Inl (Wrap (''failed to encode message '' @ fmt_nat i @ '': '') err '''')
      | Inr body \<Rightarrow>
          (case batch_entries marshal (Suc i) msgs of
             Inl err \<Rightarrow> Inl err
           | Inr es \<Rightarrow> Inr (batch_entry msg body # es)))"

definition publishBatch ::
  "(message \<Rightarrow> error + bytes) \<Rightarrow> 'w SqsAdapter \<Rightarrow> ctx \<Rightarrow> string \<Rightarrow> message list \<Rightarrow> 'w \<Rightarrow> error option \<times> 'w" where
  "publishBatch marshal a c queueURL messages s =
     (case batch_entries marshal 0 messages of
        Inl err \<Rightarrow> (Some err, s)
      | Inr entries \<Rightarrow>
          (case SendMessageBatch (client a) c queueURL entries s of
             (Inl err, s') \<Rightarrow> (Some (Wrap ''failed to send batch to SQS: '' err ''''), s')
           | (Inr [], s') \<Rightarrow> (None, s')
           | (Inr (f # fs), s') \<Rightarrow>
               (Some (Msg (''failed to send '' @ fmt_nat (length (f # fs)) @ '' messages: '' @ aws_ToString f)), s')))"

definition maxBatchSize :: nat where
  "maxBatchSize = 10"

text \<open>The loop of \<open>Publish\<close> over the messages from position \<open>i\<close> on.\<close>

function publish_from ::
  "(message \<Rightarrow> error + bytes) \<Rightarrow> 'w SqsAdapter \<Rightarrow> ctx \<Rightarrow> string \<Rightarrow> message list \<Rightarrow> nat \<Rightarrow> 'w \<Rightarrow> error option \<times> 'w" where
  "publish_from marshal a c queueURL messages i s =
     (if i < length messages then
        (case publishBatch marshal a c queueURL
                (take (min (i + maxBatchSize) (length messages) - i) (drop i messages)) s of
           (Some err, s') \<Rightarrow> (Some err, s')
         | (None, s') \<Rightarrow> publish_from marshal a c queueURL messages (i + maxBatchSize) s')
      else (None, s))"
  by pat_completeness auto
termination
  by (relation "measure (\<lambda>(_, _, _, _, messages, i, _). length messages - i)") (auto simp: maxBatchSize_def)

declare publish_from.simps [simp del]

definition sqs_Publish ::
  "(message \<Rightarrow> error + bytes) \<Rightarrow> 'w SqsAdapter \<Rightarrow> ctx \<Rightarrow> string \<Rightarrow> message list \<Rightarrow> 'w \<Rightarrow> error option \<times> 'w" where
  "sqs_Publish marshal a c queueName messages s =
     (case map_of (queueURLs a) queueName of
        None \<Rightarrow> (Some (Msg (''queue name '' @ queueName @ '' not configured'')), s)
      | Some queueURL \<Rightarrow> publish_from marshal a c queueURL messages 0 s)"

section \<open>Receiving\<close>

record sqsReceipt =
  r_queueURL :: string
  r_receiptHandle :: string

fun receive_items ::
  "(bytes \<Rightarrow> error + message) \<Rightarrow> string \<Rightarrow> sqsMessage list \<Rightarrow> error + (message, sqsReceipt) MessageItem list" where
  "receive_items unmarshal queueURL [] = Inr []"
| "receive_items unmarshal queueURL (sqsMsg # rest) =
     (case decodeMessageBody unmarshal (aws_ToString (Body sqsMsg)) of
        Inl err \<Rightarrow> Inl (Wrap ''failed to decode message: '' err '''')
      | Inr msg \<Rightarrow>
          (case receive_items unmarshal queueURL rest of
             Inl err \<Rightarrow> Inl err
           | Inr items \<Rightarrow>
               Inr (\<lparr>Message = msg, Receipt = \<lparr>r_queueURL = queueURL, r_receiptHandle = aws_ToString (ReceiptHandle sqsMsg)\<rparr>\<rparr>
                    # items)))"

definition sqs_Consume ::
  "(bytes \<Rightarrow> error + message) \<Rightarrow> 'w SqsAdapter \<Rightarrow> ctx \<Rightarrow> string \<Rightarrow> int \<Rightarrow> 'w \<Rightarrow>
   (error + (message, sqsReceipt) ConsumeResult option) \<times> 'w" where
  "sqs_Consume unmarshal a c queueName maxBatch s =
     (case map_of (queueURLs a) queueName of
        None \<Rightarrow> (Inl (Msg (''queue name '' @ queueName @ '' not configured'')), s)
      | Some queueURL \<Rightarrow>
          (let maxBatch' = (if maxBatch > 10 then 10 else maxBatch) in
           case ReceiveMessage (client a) c queueURL (int32 maxBatch') s of
             (Inl err, s') \<Rightarrow> (Inl (Wrap ''failed to receive messages from SQS: '' err ''''), s')
           | (Inr msgs, s') \<Rightarrow>
               (case receive_items unmarshal queueURL msgs of
                  Inl err \<Rightarrow> (Inl err, s')
                | Inr items \<Rightarrow> (Inr (Some \<lparr>Items = items\<rparr>), s'))))"

definition sqs_Ack :: "'w sqsClient \<Rightarrow> sqsReceipt \<Rightarrow> ctx \<Rightarrow> 'w \<Rightarrow> error option \<times> 'w" where
  "sqs_Ack cl r c s =
     (case DeleteMessage cl c (r_queueURL r) (r_receiptHandle r) s of
        (Some err, s') \<Rightarrow> (Some (Wrap ''failed to delete message from SQS: '' err ''''), s')
      | (None, s') \<Rightarrow> (None, s'))"

definition sqs_Nack :: "'w sqsClient \<Rightarrow> sqsReceipt \<Rightarrow> ctx \<Rightarrow> 'w \<Rightarrow> error option \<times> 'w" where
  "sqs_Nack cl r c s =
     (case ChangeMessageVisibility cl c (r_queueURL r) (r_receiptHandle r) 0 s of
        (Some err, s') \<Rightarrow> (Some (Wrap ''failed to change message visibility in SQS: '' err ''''), s')
      | (None, s') \<Rightarrow> (None, s'))"

text \<open>The adapter as a value of the interfaces of \<open>core/types.go\<close>.\<close>

definition sqs_QueueAdapter ::
  "(message \<Rightarrow> error + bytes) \<Rightarrow> (bytes \<Rightarrow> error + message) \<Rightarrow> 'w SqsAdapter \<Rightarrow>
   ('w, message, sqsReceipt, ctx) QueueAdapter" where
  "sqs_QueueAdapter marshal unmarshal a = \<lparr>ad_Publish = sqs_Publish marshal a, ad_Consume = sqs_Consume unmarshal a\<rparr>"

definition sqs_Receipt :: "'w SqsAdapter \<Rightarrow> ('w, sqsReceipt) Receipt_methods" where
  "sqs_Receipt a = \<lparr>rc_Ack = sqs_Ack (client a), rc_Nack = sqs_Nack (client a)\<rparr>"

section \<open>Batches\<close>

text \<open>Specification of the loop of \<open>Publish\<close>: consecutive batches of ten, until one fails.\<close>

function batches :: "'m list \<Rightarrow> 'm list list" where
  "batches ms = (if ms = [] then [] else take 10 ms # batches (drop 10 ms))"
  by pat_completeness auto
termination by (relation "measure length") auto

declare batches.simps [simp del]

lemma batches_Nil [simp]: "batches [] = []"
  by (simp add: batches.simps)

fun send_batches :: "('m list \<Rightarrow> 'w \<Rightarrow> error option \<times> 'w) \<Rightarrow> 'm list list \<Rightarrow> 'w \<Rightarrow> error option \<times> 'w" where
  "send_batches send [] s = (None, s)"
| "send_batches send (b # bs) s =
     (case send b s of (Some err, s') \<Rightarrow> (Some err, s') | (None, s') \<Rightarrow> send_batches send bs s')"

lemma batches_shape: "concat (batches ms) = ms \<and> (\<forall>b \<in> set (batches ms). b \<noteq> [] \<and> length b \<le> 10)"
proof (induction ms rule: batches.induct)
  case (1 ms)
  then show ?case by (cases "ms = []") (auto simp: batches.simps [of ms])
qed

lemma publish_from_batches:
  "publish_from marshal a c url ms i s = send_batches (publishBatch marshal a c url) (batches (drop i ms)) s"
proof (induction marshal a c url ms i s rule: publish_from.induct)
  case (1 marshal a c url ms i s)
  show ?case
  proof (cases "i < length ms")
    case True
    have "take (min (i + maxBatchSize) (length ms) - i) (drop i ms) = take 10 (drop i ms)"
      by (simp add: maxBatchSize_def min_def)
    moreover have "batches (drop i ms) = take 10 (drop i ms) # batches (drop (i + maxBatchSize) ms)"
      using True by (simp add: batches.simps [of "drop i ms"] maxBatchSize_def add.commute)
    ultimately show ?thesis using 1 True
      by (simp add: publish_from.simps [of marshal a c url ms i s] split: prod.split option.split)
  next
    case False
    then show ?thesis by (simp add: publish_from.simps [of marshal a c url ms i s] batches.simps [of "drop i ms"])
  qed
qed

lemma send_batches_fail:
  "fst (send_batches send bs s) = Some e \<Longrightarrow>
   \<exists>k s1. k < length bs \<and> send_batches send (take k bs) s = (None, s1) \<and> send (bs ! k) s1 = send_batches send bs s"
proof (induction bs arbitrary: s)
  case (Cons b bs)
  obtain r s' where b: "send b s = (r, s')" by fastforce
  show ?case
  proof (cases r)
    case None
    with Cons.prems b have "fst (send_batches send bs s') = Some e" by simp
    from Cons.IH [OF this] obtain k s1 where
      "k < length bs" "send_batches send (take k bs) s' = (None, s1)" "send (bs ! k) s1 = send_batches send bs s'" by blast
    with b None show ?thesis by (intro exI [of _ "Suc k"] exI [of _ s1]) simp
  next
    case (Some e')
    with b show ?thesis by (intro exI [of _ 0] exI [of _ s]) simp
  qed
qed simp

lemma receive_items_ok:
  "\<forall>m \<in> set msgs. \<exists>x. decodeMessageBody unmarshal (aws_ToString (Body m)) = Inr x \<Longrightarrow>
   receive_items unmarshal url msgs =
     Inr (map (\<lambda>m. \<lparr>Message = projr (decodeMessageBody unmarshal (aws_ToString (Body m))),
                     Receipt = \<lparr>r_queueURL = url, r_receiptHandle = aws_ToString (ReceiptHandle m)\<rparr>\<rparr>) msgs)"
  by (induction msgs) auto

lemma receive_items_error:
  "\<not> (\<forall>m \<in> set msgs. \<exists>x. decodeMessageBody unmarshal (aws_ToString (Body m)) = Inr x) \<Longrightarrow>
   \<exists>e. receive_items unmarshal url msgs = Inl e"
proof (induction msgs)
  case (Cons m msgs)
  then show ?case by (cases "decodeMessageBody unmarshal (aws_ToString (Body m))") (auto split: sum.split)
qed simp

section \<open>Properties\<close>

text \<open>
  A message body survives the trip: for a protobuf codec that unmarshals what it marshals,
  decoding an encoded body gives the message back, through the base64 branch; and the body
  is four characters for every three bytes begun.
\<close>

lemma sqs_body_roundtrip:
  assumes "marshal m = Inr data" and "unmarshal data = Inr m"
  shows "\<exists>body. encodeMessageBody marshal m = Inr body \<and> decodeMessageBody unmarshal body = Inr m \<and>
    length body = 4 * ((length data + 2) div 3)"
  using assms
  by (simp add: encodeMessageBody_def decodeMessageBody_def DecodeString_EncodeToString length_EncodeToString)

definition plain :: message where
  "plain = \<lparr>Originator = [], Topic = ''t'', Action = ''a'', Payload = [], MessageId = ''id'', TimestampMs = 0,
            Metadata = Map.empty\<rparr>"

text \<open>
  C31. Publish sends the messages as consecutive batches of one to ten that together are exactly the
  messages, in order, and stops at the first batch that fails: the batches before it have been
  sent, so a Publish that reports an error may have published a prefix.
\<close>

theorem sqs_Publish_batches:
  assumes "map_of (queueURLs a) q = Some url"
  shows "sqs_Publish marshal a c q ms s = send_batches (publishBatch marshal a c url) (batches ms) s \<and>
    concat (batches ms) = ms \<and> list_all (\<lambda>b. b \<noteq> [] \<and> length b \<le> 10) (batches ms) \<and>
    (fst (sqs_Publish marshal a c q ms s) \<noteq> None \<longrightarrow>
       (\<exists>k s1. k < length (batches ms) \<and>
          send_batches (publishBatch marshal a c url) (take k (batches ms)) s = (None, s1) \<and>
          publishBatch marshal a c url (batches ms ! k) s1 = sqs_Publish marshal a c q ms s))"
proof -
  have eq: "sqs_Publish marshal a c q ms s = send_batches (publishBatch marshal a c url) (batches ms) s"
    using assms by (simp add: sqs_Publish_def publish_from_batches)
  have "\<exists>k s1. k < length (batches ms) \<and>
          send_batches (publishBatch marshal a c url) (take k (batches ms)) s = (None, s1) \<and>
          publishBatch marshal a c url (batches ms ! k) s1 = sqs_Publish marshal a c q ms s"
    if "fst (sqs_Publish marshal a c q ms s) \<noteq> None"
    using that send_batches_fail [of "publishBatch marshal a c url" "batches ms" s] unfolding eq by blast
  with eq batches_shape [of ms] show ?thesis by (simp add: list_all_iff)
qed

text \<open>A service that records the sizes of the batches it is sent and accepts only the first.\<close>

definition recorder :: "nat list sqsClient" where
  "recorder =
     \<lparr>SendMessageBatch = (\<lambda>_ _ es log. (if log = [] then Inr [] else Inl (Ext ''throttled''), log @ [length es])),
      ReceiveMessage = (\<lambda>_ _ _ log. (Inr [\<lparr>Body = Some ''aWQ='', ReceiptHandle = Some ''h1''\<rparr>,
                                          \<lparr>Body = None, ReceiptHandle = None\<rparr>], log)),
      DeleteMessage = (\<lambda>_ _ _ log. (None, log)), ChangeMessageVisibility = (\<lambda>_ _ _ _ log. (None, log))\<rparr>"

definition recording :: "nat list SqsAdapter" where
  "recording = \<lparr>client = recorder, queueURLs = [(''jobs'', ''https://sqs/jobs'')]\<rparr>"

lemma batches_12: "batches (replicate 12 m) = [replicate 10 m, replicate 2 m]"
  by (simp add: batches.simps [of "replicate 12 m"] batches.simps [of "replicate 2 m"])

lemma batch_entries_length:
  "batch_entries (\<lambda>m. Inr (MessageId m)) i ms = Inr (map (\<lambda>m. batch_entry m (EncodeToString (MessageId m))) ms)"
  by (induction ms arbitrary: i) (simp_all add: encodeMessageBody_def)

theorem sqs_Publish_batches_witness:
  "sqs_Publish (\<lambda>m. Inr (MessageId m)) recording None ''jobs'' (replicate 12 plain) [] =
     (Some (Wrap ''failed to send batch to SQS: '' (Ext ''throttled'') ''''), [10, 2])"
proof -
  have "map_of (queueURLs recording) ''jobs'' = Some ''https://sqs/jobs''" by (simp add: recording_def)
  from conjunct1 [OF sqs_Publish_batches [OF this, of "\<lambda>m. Inr (MessageId m)" None "replicate 12 plain" "[]"]]
  show ?thesis
    by (simp add: batches_12 publishBatch_def recording_def recorder_def batch_entries_length)
qed

text \<open>
  The outcome of Consume for an answer of the service: every message is decoded, in order and with
  its own receipt handle; a single body that does not decode fails the call, so that no message of
  that answer reaches the caller.
\<close>

lemma sqs_Consume_outcome:
  assumes "map_of (queueURLs a) q = Some url"
    and "ReceiveMessage (client a) c url (int32 (min n 10)) s = (Inr msgs, s')"
  shows "if list_all (\<lambda>m. \<not> isl (decodeMessageBody unmarshal (aws_ToString (Body m)))) msgs
    then sqs_Consume unmarshal a c q n s =
      (Inr (Some \<lparr>Items = map (\<lambda>m. \<lparr>Message = projr (decodeMessageBody unmarshal (aws_ToString (Body m))),
         Receipt = \<lparr>r_queueURL = url, r_receiptHandle = aws_ToString (ReceiptHandle m)\<rparr>\<rparr>) msgs\<rparr>), s')
    else (\<exists>e. sqs_Consume unmarshal a c q n s = (Inl e, s'))"
proof -
  have m: "(if n > 10 then 10 else n) = min n 10" by (simp add: min_def)
  have "\<not> isl x \<longleftrightarrow> (\<exists>y. x = Inr y)" for x :: "error + message" by (cases x) auto
  then have d: "list_all (\<lambda>m. \<not> isl (decodeMessageBody unmarshal (aws_ToString (Body m)))) msgs \<longleftrightarrow>
      (\<forall>m \<in> set msgs. \<exists>x. decodeMessageBody unmarshal (aws_ToString (Body m)) = Inr x)"
    by (simp add: list_all_iff)
  have c: "sqs_Consume unmarshal a c q n s = (case receive_items unmarshal url msgs of
      Inl err \<Rightarrow> (Inl err, s') | Inr items \<Rightarrow> (Inr (Some \<lparr>Items = items\<rparr>), s'))"
    using assms by (simp add: sqs_Consume_def m)
  show ?thesis
  proof (cases "\<forall>m \<in> set msgs. \<exists>x. decodeMessageBody unmarshal (aws_ToString (Body m)) = Inr x")
    case True
    with d c receive_items_ok [OF True, of url] show ?thesis by simp
  next
    case False
    with d have "\<not> list_all (\<lambda>m. \<not> isl (decodeMessageBody unmarshal (aws_ToString (Body m)))) msgs" by blast
    moreover obtain e where "receive_items unmarshal url msgs = Inl e" using receive_items_error [OF False] by blast
    ultimately show ?thesis using c by (simp only: if_False) simp
  qed
qed

text \<open>
  The producer's size limit does not keep a message within the limit of the service: whatever the
  codec, as long as the serialized message is at least as long as its payload, a payload of more
  than 196608 bytes that Send accepts makes a body longer than MaxMessageSize.
\<close>

lemma sqs_body_exceeds_limit:
  assumes "marshal m = Inr data" and "length (Payload m) \<le> length data" and "196608 < length (Payload m)"
  shows "\<exists>body. encodeMessageBody marshal m = Inr body \<and> MaxMessageSize < length body"
proof -
  from assms(2,3) have "196609 + 2 \<le> length data + 2" by simp
  then have "(196609 + 2) div 3 \<le> (length data + 2) div 3" by (rule div_le_mono)
  then have "65537 \<le> (length data + 2) div 3" by simp
  then show ?thesis using assms(1)
    by (simp add: encodeMessageBody_def length_EncodeToString MaxMessageSize_def)
qed

end
