(* ===== verification/WorkerSqs.thy ===== *)
theory WorkerSqs
  imports Worker SqsAdapter
begin

text \<open>
  The worker on the SQS adapter.

  What the adapter relies on is what the documentation of SQS says of the four calls, stated on three views of the
  service: \<open>stored s url\<close>, the messages of a queue, each an id and a body; \<open>lapsed s url\<close>, the messages the queue has had
  and that were taken out of it other than by a worker's acknowledgement, because their retention period was over,
  by a redrive to a dead-letter queue, by a purge, or by another user who deleted them; and \<open>handle s url h\<close>, the message a
  receipt handle was issued for.  A handle stays the handle of its message; a batch is never
  larger than asked for; sending adds the messages of a batch that is accepted in full; what a call makes disappear has
  lapsed, but for the message of the handle that a delete is given.
  Nothing is said of when a message becomes visible again, how often it is delivered, or when one lapses.

  The locale \<open>durable_queue\<close> has these laws for any adapter, and from them the worker's guarantee: a message leaves the
  queue only after a handler has succeeded on it, or it lapses.
\<close>

section \<open>Adapters that keep a message until it is acknowledged\<close>

text \<open>
  \<open>holds a\<close> are the messages in the custody of the queue, \<open>lapsed a\<close> those that have left it in another way than by an
  acknowledgement, \<open>issued a r\<close> the one a receipt was given out for, and \<open>reads x\<close> the
  message a worker gets to see of it.
\<close>

locale durable_queue =
  fixes consume :: "'o \<Rightarrow> string \<Rightarrow> int \<Rightarrow> 'a \<Rightarrow> (error + (message, 'r) ConsumeResult option) \<times> 'a"
    and ack :: "'r \<Rightarrow> ctx \<Rightarrow> 'a \<Rightarrow> error option \<times> 'a"
    and nack :: "'r \<Rightarrow> ctx \<Rightarrow> 'a \<Rightarrow> error option \<times> 'a"
    and holds :: "'a \<Rightarrow> 'x set"
    and lapsed :: "'a \<Rightarrow> 'x set"
    and issued :: "'a \<Rightarrow> 'r \<Rightarrow> 'x option"
    and reads :: "'x \<Rightarrow> message option"
  assumes consume_holds: "consume orc q n a = (res, a') \<Longrightarrow> holds a \<subseteq> holds a' \<union> lapsed a'"
    and consume_lapsed: "consume orc q n a = (res, a') \<Longrightarrow> lapsed a \<subseteq> lapsed a'"
    and consume_issued: "consume orc q n a = (res, a') \<Longrightarrow> issued a \<subseteq>\<^sub>m issued a'"
    and consume_reads:
      "consume orc q n a = (Inr (Some cr), a') \<Longrightarrow> it \<in> set (Items cr) \<Longrightarrow>
         \<exists>x. issued a' (Receipt it) = Some x \<and> reads x = Some (Message it)"
    and ack_holds: "ack r c a = (ret, a') \<Longrightarrow> x \<in> holds a \<Longrightarrow> x \<in> holds a' \<or> x \<in> lapsed a' \<or> issued a r = Some x"
    and ack_lapsed: "ack r c a = (ret, a') \<Longrightarrow> lapsed a \<subseteq> lapsed a'"
    and ack_issued: "ack r c a = (ret, a') \<Longrightarrow> issued a \<subseteq>\<^sub>m issued a'"
    and nack_holds: "nack r c a = (ret, a') \<Longrightarrow> holds a \<subseteq> holds a' \<union> lapsed a'"
    and nack_lapsed: "nack r c a = (ret, a') \<Longrightarrow> lapsed a \<subseteq> lapsed a'"
    and nack_issued: "nack r c a = (ret, a') \<Longrightarrow> issued a \<subseteq>\<^sub>m issued a'"
begin

definition items_issued :: "'r event list \<Rightarrow> 'a \<Rightarrow> bool" where
  "items_issued tr a \<longleftrightarrow>
     (\<forall>it \<in> set (taken tr). \<exists>x. issued a (Receipt it) = Some x \<and> reads x = Some (Message it))"

lemma items_issued_mono: "items_issued tr a \<Longrightarrow> issued a \<subseteq>\<^sub>m issued a' \<Longrightarrow> items_issued tr a'"
  unfolding items_issued_def by (metis domI map_le_def)

lemma settle_issued: "settle ack nack c it err a = (ret, a') \<Longrightarrow> issued a \<subseteq>\<^sub>m issued a'"
  by (auto simp: settle_def dest: ack_issued nack_issued split: option.splits)

lemma step_issued: "worker_step consume ack nack ev w w' \<Longrightarrow> issued (w_adapter w) \<subseteq>\<^sub>m issued (w_adapter w')"
  by (cases rule: worker_step.cases) (auto dest: consume_issued settle_issued)

lemma step_lapsed: "worker_step consume ack nack ev w w' \<Longrightarrow> lapsed (w_adapter w) \<subseteq> lapsed (w_adapter w')"
  by (cases rule: worker_step.cases)
    (auto simp: settle_def dest!: consume_lapsed ack_lapsed nack_lapsed split: option.splits)

lemma items_issued_step:
  assumes "worker_step consume ack nack ev w w'" and "items_issued tr (w_adapter w)"
  shows "items_issued (tr @ [ev]) (w_adapter w')"
proof -
  note kept = items_issued_mono [OF assms(2) step_issued [OF assms(1)]]
  from assms(1) show ?thesis
  proof cases
    case (consume_items orc cr a')
    with kept consume_reads [OF consume_items(4)] show ?thesis by (auto simp: items_issued_def)
  qed (use kept in \<open>auto simp: items_issued_def\<close>)
qed

lemma items_issued_run:
  assumes "worker_run consume ack nack others a0 tr w"
    and "\<forall>R a a'. others R a a' \<longrightarrow> issued a \<subseteq>\<^sub>m issued a'"
  shows "items_issued tr (w_adapter w)"
  using assms(1)
proof (induction rule: worker_run.induct)
  case (run_new c reg config app)
  then show ?case by (simp add: items_issued_def)
next
  case (run_step tr w ev w')
  then show ?case by (blast intro: items_issued_step)
next
  case (run_others tr w a')
  with assms(2) have "issued (w_adapter w) \<subseteq>\<^sub>m issued a'" by blast
  from items_issued_mono [OF run_others.IH this] show ?case by (simp add: items_issued_def)
qed

text \<open>The guarantee: a step of the worker after which a message is gone and has not lapsed settles it after its handler succeeded.\<close>

lemma books_removes:
  assumes "books_inv tr w" and "items_issued tr (w_adapter w)"
    and "worker_step consume ack nack ev w w'" and "x \<in> holds (w_adapter w)"
    and "x \<notin> holds (w_adapter w')" and "x \<notin> lapsed (w_adapter w')"
  shows "\<exists>it ret. ev = DidSettle it None ret \<and> (it, None) \<in> set (handler_runs tr) \<and> reads x = Some (Message it)"
  using assms(3)
proof cases
  case (go_settle i it err ret a')
  have "(it, err) \<in> set (handled (gos w))" using go_settle(3,4) handled_go(2) [of i "gos w" it err]
    by (metis set_mset_add_mset_insert set_mset_mset insertI1)
  with assms(1) have ran: "(it, err) \<in> set (handler_runs tr)" unfolding books_inv_def
    by (metis Un_iff set_mset_mset set_mset_union)
  have err: "err = None" using go_settle assms(4-6) by (cases err) (auto simp: settle_def dest: nack_holds)
  with go_settle have "ack (Receipt it) (s_ctx w) (w_adapter w) = (ret, a')" by (simp add: settle_def)
  from ack_holds [OF this assms(4)] go_settle assms(5,6) have "issued (w_adapter w) (Receipt it) = Some x" by simp
  moreover have "it \<in> set (taken tr)" using ran assms(1) unfolding books_inv_def
    by (metis Un_iff fst_conv image_eqI list.set_map set_append set_mset_mset set_mset_union)
  with assms(2) obtain x' where
    "issued (w_adapter w) (Receipt it) = Some x'" "reads x' = Some (Message it)" by (auto simp: items_issued_def)
  ultimately show ?thesis using go_settle(1) ran err by auto
qed (use assms(4-6) in \<open>auto dest: consume_holds\<close>)

lemma step_removes:
  assumes "worker_run consume ack nack others a0 tr w" and "\<forall>R a a'. others R a a' \<longrightarrow> issued a \<subseteq>\<^sub>m issued a'"
    and "worker_step consume ack nack ev w w'" and "x \<in> holds (w_adapter w)"
    and "x \<notin> holds (w_adapter w')" and "x \<notin> lapsed (w_adapter w')"
  shows "\<exists>it ret. ev = DidSettle it None ret \<and> (it, None) \<in> set (handler_runs tr) \<and> reads x = Some (Message it)"
  by (rule books_removes [OF books_inv_run [OF assms(1)] items_issued_run [OF assms(1,2)] assms(3-6)])

text \<open>What is in the custody of the queue stays there until it was handled or has lapsed.\<close>

lemma cont_removes:
  assumes "worker_cont consume ack nack others tr0 w0 ext w" and "worker_run consume ack nack others a0 tr0 w0"
    and "\<forall>R a a'. others R a a' \<longrightarrow> issued a \<subseteq>\<^sub>m issued a'"
    and "\<forall>R a a'. others R a a' \<longrightarrow> holds a \<subseteq> holds a' \<union> lapsed a' \<and> lapsed a \<subseteq> lapsed a'"
    and "x \<in> holds (w_adapter w0) \<union> lapsed (w_adapter w0)"
  shows "x \<in> holds (w_adapter w) \<union> lapsed (w_adapter w) \<or>
    (\<exists>it. (it, None) \<in> set (handler_runs (tr0 @ ext)) \<and> reads x = Some (Message it))"
  using assms(1,2,5)
proof (induction rule: worker_cont.induct)
  case (cont_step ext w ev w')
  note run = cont_run [OF cont_step.hyps(1) cont_step.prems(1)]
  have mono: "set (handler_runs (tr0 @ ext)) \<subseteq> set (handler_runs (tr0 @ ext @ [ev]))"
    by (auto simp: handler_runs_def)
  from cont_step.IH [OF cont_step.prems] step_removes [OF run assms(3) cont_step.hyps(2)] step_lapsed [OF cont_step.hyps(2)] mono
  show ?case by blast
next
  case (cont_others ext w a')
  have "set (handler_runs (tr0 @ ext)) \<subseteq> set (handler_runs (tr0 @ ext @ [External]))" by (auto simp: handler_runs_def)
  with cont_others.IH [OF cont_others.prems] assms(4) cont_others.hyps(2) show ?case by fastforce
qed simp

end

section \<open>What SQS documents\<close>

text \<open>What every call does but a delete: no handle loses its meaning, and what disappears has lapsed.\<close>

definition sqs_moves ::
  "('w \<Rightarrow> string \<Rightarrow> (string \<times> string) set) \<Rightarrow> ('w \<Rightarrow> string \<Rightarrow> string \<rightharpoonup> string \<times> string) \<Rightarrow>
   ('w \<Rightarrow> string \<Rightarrow> (string \<times> string) set) \<Rightarrow> 'w \<Rightarrow> 'w \<Rightarrow> bool" where
  "sqs_moves stored handle lapsed s s' \<longleftrightarrow>
     (\<forall>url. stored s url \<subseteq> stored s' url \<union> lapsed s' url) \<and> (\<forall>url. lapsed s url \<subseteq> lapsed s' url) \<and>
     (\<forall>url. handle s url \<subseteq>\<^sub>m handle s' url)"

definition doc_send where
  "doc_send cl stored handle lapsed \<longleftrightarrow>
     (\<forall>c url es s r s'. SendMessageBatch cl c url es s = (r, s') \<longrightarrow>
        sqs_moves stored handle lapsed s s' \<and> (r = Inr [] \<longrightarrow> (\<forall>e \<in> set es. \<exists>i. (i, MessageBody e) \<in> stored s' url)))"

definition doc_receive where
  "doc_receive cl stored handle lapsed \<longleftrightarrow>
     (\<forall>c url n s r s'. ReceiveMessage cl c url n s = (r, s') \<longrightarrow>
        sqs_moves stored handle lapsed s s' \<and>
        (\<forall>msgs. r = Inr msgs \<longrightarrow> length msgs \<le> nat n \<and>
           (\<forall>m \<in> set msgs. \<exists>i. handle s' url (aws_ToString (ReceiptHandle m)) = Some (i, aws_ToString (Body m)))))"

definition doc_delete where
  "doc_delete cl stored handle lapsed \<longleftrightarrow>
     (\<forall>c url h s r s'. DeleteMessage cl c url h s = (r, s') \<longrightarrow>
        (\<forall>url'. handle s url' \<subseteq>\<^sub>m handle s' url') \<and> (\<forall>url'. lapsed s url' \<subseteq> lapsed s' url') \<and>
        (\<forall>url' x. x \<in> stored s url' \<longrightarrow>
           x \<in> stored s' url' \<or> x \<in> lapsed s' url' \<or> url' = url \<and> handle s url h = Some x))"

definition doc_visibility where
  "doc_visibility cl stored handle lapsed \<longleftrightarrow>
     (\<forall>c url h t s r s'. ChangeMessageVisibility cl c url h t s = (r, s') \<longrightarrow> sqs_moves stored handle lapsed s s')"

definition sqs_contract ::
  "'w sqsClient \<Rightarrow> ('w \<Rightarrow> string \<Rightarrow> (string \<times> string) set) \<Rightarrow> ('w \<Rightarrow> string \<Rightarrow> string \<rightharpoonup> string \<times> string) \<Rightarrow>
   ('w \<Rightarrow> string \<Rightarrow> (string \<times> string) set) \<Rightarrow> bool" where
  "sqs_contract cl stored handle lapsed \<longleftrightarrow>
     doc_send cl stored handle lapsed \<and> doc_receive cl stored handle lapsed \<and> doc_delete cl stored handle lapsed \<and>
     doc_visibility cl stored handle lapsed"

text \<open>
  The contract on a queue without redrive while no message is past its retention period: then a call makes nothing
  lapse.  What messages lapse between two calls, and what others delete, are steps of the worker's environment.
\<close>

definition sqs_keeps ::
  "('w \<Rightarrow> string \<Rightarrow> (string \<times> string) set) \<Rightarrow> ('w \<Rightarrow> string \<Rightarrow> string \<rightharpoonup> string \<times> string) \<Rightarrow> 'w \<Rightarrow> 'w \<Rightarrow> bool" where
  "sqs_keeps stored handle s s' \<longleftrightarrow>
     (\<forall>url. stored s url \<subseteq> stored s' url) \<and> (\<forall>url. handle s url \<subseteq>\<^sub>m handle s' url)"

definition sqs_documented ::
  "'w sqsClient \<Rightarrow> ('w \<Rightarrow> string \<Rightarrow> (string \<times> string) set) \<Rightarrow> ('w \<Rightarrow> string \<Rightarrow> string \<rightharpoonup> string \<times> string) \<Rightarrow> bool" where
  "sqs_documented cl stored handle \<longleftrightarrow> sqs_contract cl stored handle (\<lambda>_ _. {})"

lemma sqs_moves_keeps: "sqs_moves stored handle (\<lambda>_ _. {}) = sqs_keeps stored handle"
  by (simp add: sqs_moves_def sqs_keeps_def fun_eq_iff)

lemma sqs_contractD:
  assumes "sqs_contract cl stored handle lapsed"
  shows "SendMessageBatch cl c url es s = (r, s') \<Longrightarrow> sqs_moves stored handle lapsed s s'"
    and "SendMessageBatch cl c url es s = (Inr [], s') \<Longrightarrow> e \<in> set es \<Longrightarrow> \<exists>i. (i, MessageBody e) \<in> stored s' url"
    and "ReceiveMessage cl c url n s = (rr, s') \<Longrightarrow> sqs_moves stored handle lapsed s s'"
    and "ReceiveMessage cl c url n s = (Inr msgs, s') \<Longrightarrow> length msgs \<le> nat n"
    and "ReceiveMessage cl c url n s = (Inr msgs, s') \<Longrightarrow> m \<in> set msgs \<Longrightarrow>
      \<exists>i. handle s' url (aws_ToString (ReceiptHandle m)) = Some (i, aws_ToString (Body m))"
    and "DeleteMessage cl c url h s = (ret, s') \<Longrightarrow> handle s url' \<subseteq>\<^sub>m handle s' url'"
    and "DeleteMessage cl c url h s = (ret, s') \<Longrightarrow> lapsed s url' \<subseteq> lapsed s' url'"
    and "DeleteMessage cl c url h s = (ret, s') \<Longrightarrow> x \<in> stored s url' \<Longrightarrow>
      x \<in> stored s' url' \<or> x \<in> lapsed s' url' \<or> url' = url \<and> handle s url h = Some x"
    and "ChangeMessageVisibility cl c url h t s = (ret, s') \<Longrightarrow> sqs_moves stored handle lapsed s s'"
proof -
  from assms have d: "doc_send cl stored handle lapsed" "doc_receive cl stored handle lapsed" "doc_delete cl stored handle lapsed"
    "doc_visibility cl stored handle lapsed" by (simp_all add: sqs_contract_def)
  show "SendMessageBatch cl c url es s = (r, s') \<Longrightarrow> sqs_moves stored handle lapsed s s'"
    "SendMessageBatch cl c url es s = (Inr [], s') \<Longrightarrow> e \<in> set es \<Longrightarrow> \<exists>i. (i, MessageBody e) \<in> stored s' url"
    using d(1) unfolding doc_send_def by metis+
  show "ReceiveMessage cl c url n s = (rr, s') \<Longrightarrow> sqs_moves stored handle lapsed s s'"
    "ReceiveMessage cl c url n s = (Inr msgs, s') \<Longrightarrow> length msgs \<le> nat n"
    "ReceiveMessage cl c url n s = (Inr msgs, s') \<Longrightarrow> m \<in> set msgs \<Longrightarrow>
      \<exists>i. handle s' url (aws_ToString (ReceiptHandle m)) = Some (i, aws_ToString (Body m))"
    using d(2) unfolding doc_receive_def by metis+
  show "DeleteMessage cl c url h s = (ret, s') \<Longrightarrow> handle s url' \<subseteq>\<^sub>m handle s' url'"
    "DeleteMessage cl c url h s = (ret, s') \<Longrightarrow> lapsed s url' \<subseteq> lapsed s' url'"
    "DeleteMessage cl c url h s = (ret, s') \<Longrightarrow> x \<in> stored s url' \<Longrightarrow>
      x \<in> stored s' url' \<or> x \<in> lapsed s' url' \<or> url' = url \<and> handle s url h = Some x"
    using d(3) unfolding doc_delete_def by metis+
  show "ChangeMessageVisibility cl c url h t s = (ret, s') \<Longrightarrow> sqs_moves stored handle lapsed s s'"
    using d(4) unfolding doc_visibility_def by metis
qed

lemma sqs_moves_refl [simp]: "sqs_moves stored handle lapsed s s"
  by (simp add: sqs_moves_def)

lemma sqs_moves_trans:
  assumes "sqs_moves stored handle lapsed s s'" and "sqs_moves stored handle lapsed s' s''"
  shows "sqs_moves stored handle lapsed s s''"
proof -
  have "stored s url \<subseteq> stored s'' url \<union> lapsed s'' url" for url using assms unfolding sqs_moves_def by blast
  moreover have "lapsed s url \<subseteq> lapsed s'' url" for url using assms unfolding sqs_moves_def by blast
  moreover have "handle s url \<subseteq>\<^sub>m handle s'' url" for url using assms unfolding sqs_moves_def by (blast intro: map_le_trans)
  ultimately show ?thesis by (simp add: sqs_moves_def)
qed

section \<open>The adapter on a documented service\<close>

text \<open>The views of \<open>durable_queue\<close>: messages with the queue they are in, and what the adapter reads from a body.\<close>

definition sqs_holds :: "('w \<Rightarrow> string \<Rightarrow> (string \<times> string) set) \<Rightarrow> 'w \<Rightarrow> (string \<times> string \<times> string) set" where
  "sqs_holds stored s = {(url, x). x \<in> stored s url}"

definition sqs_issued ::
  "('w \<Rightarrow> string \<Rightarrow> string \<rightharpoonup> string \<times> string) \<Rightarrow> 'w \<Rightarrow> sqsReceipt \<Rightarrow> (string \<times> string \<times> string) option" where
  "sqs_issued handle s r = map_option (Pair (r_queueURL r)) (handle s (r_queueURL r) (r_receiptHandle r))"

definition sqs_reads :: "(bytes \<Rightarrow> error + message) \<Rightarrow> string \<times> string \<times> string \<Rightarrow> message option" where
  "sqs_reads unmarshal x = (case decodeMessageBody unmarshal (snd (snd x)) of Inl _ \<Rightarrow> None | Inr m \<Rightarrow> Some m)"

lemma sqs_issued_mono:
  assumes "\<And>url. handle s url \<subseteq>\<^sub>m handle s' url" shows "sqs_issued handle s \<subseteq>\<^sub>m sqs_issued handle s'"
  unfolding map_le_def
proof
  fix r assume "r \<in> dom (sqs_issued handle s)"
  then obtain x where "handle s (r_queueURL r) (r_receiptHandle r) = Some x" by (auto simp: sqs_issued_def)
  with assms [of "r_queueURL r"] show "sqs_issued handle s r = sqs_issued handle s' r"
    by (auto simp: sqs_issued_def map_le_def dom_def)
qed

lemma sqs_moves_views:
  assumes "sqs_moves stored handle lapsed s s'"
  shows "sqs_holds stored s \<subseteq> sqs_holds stored s' \<union> sqs_holds lapsed s'" "sqs_holds lapsed s \<subseteq> sqs_holds lapsed s'"
    "sqs_issued handle s \<subseteq>\<^sub>m sqs_issued handle s'"
  using assms by (auto simp: sqs_moves_def sqs_holds_def intro: sqs_issued_mono)

text \<open>What a call of Consume asked the service, and what it made of the answer.\<close>

lemma sqs_Consume_cases:
  assumes "sqs_Consume unmarshal a c q n s = (res, s')"
  obtains (unconfigured) "s' = s" "isl res"
  | (asked) url rr where "map_of (queueURLs a) q = Some url"
      "ReceiveMessage (client a) c url (int32 (min n 10)) s = (rr, s')"
      "\<And>cr. res = Inr (Some cr) \<Longrightarrow> \<exists>msgs. rr = Inr msgs \<and> receive_items unmarshal url msgs = Inr (Items cr)"
proof (cases "map_of (queueURLs a) q")
  case None
  with assms that(1) show ?thesis by (auto simp: sqs_Consume_def)
next
  case (Some url)
  obtain rr s1 where r: "ReceiveMessage (client a) c url (int32 (min n 10)) s = (rr, s1)" by fastforce
  have "(if n > 10 then 10 else n) = min n 10" by (simp add: min_def)
  with assms Some r have "s1 = s'" "\<And>cr. res = Inr (Some cr) \<Longrightarrow> \<exists>msgs. rr = Inr msgs \<and> receive_items unmarshal url msgs = Inr (Items cr)"
    by (auto simp: sqs_Consume_def split: sum.splits)
  with that(2) Some r show ?thesis by blast
qed

lemma receive_items_Inr:
  "receive_items unmarshal url msgs = Inr items \<Longrightarrow>
   length items = length msgs \<and>
   (\<forall>it \<in> set items. \<exists>m \<in> set msgs. decodeMessageBody unmarshal (aws_ToString (Body m)) = Inr (Message it) \<and>
      Receipt it = \<lparr>r_queueURL = url, r_receiptHandle = aws_ToString (ReceiptHandle m)\<rparr>)"
  by (induction msgs arbitrary: items) (auto split: sum.splits)

lemma sqs_Consume_moves:
  assumes "sqs_contract (client a) stored handle lapsed" and "sqs_Consume unmarshal a c q n s = (res, s')"
  shows "sqs_moves stored handle lapsed s s'"
  using assms(2)
proof (cases rule: sqs_Consume_cases)
  case (asked url rr)
  from sqs_contractD(3) [OF assms(1) asked(2)] show ?thesis .
qed simp

lemma sqs_Consume_issues:
  assumes "sqs_contract (client a) stored handle lapsed" and "sqs_Consume unmarshal a c q n s = (Inr (Some cr), s')"
    and "it \<in> set (Items cr)"
  shows "\<exists>x. sqs_issued handle s' (Receipt it) = Some x \<and> sqs_reads unmarshal x = Some (Message it)"
  using assms(2)
proof (cases rule: sqs_Consume_cases)
  case (asked url rr)
  from asked(3) [OF refl] obtain msgs where msgs: "rr = Inr msgs" "receive_items unmarshal url msgs = Inr (Items cr)" by blast
  with receive_items_Inr [OF msgs(2)] assms(3) obtain m where
    m: "m \<in> set msgs" "decodeMessageBody unmarshal (aws_ToString (Body m)) = Inr (Message it)"
      "Receipt it = \<lparr>r_queueURL = url, r_receiptHandle = aws_ToString (ReceiptHandle m)\<rparr>" by blast
  from sqs_contractD(5) [OF assms(1) asked(2) [unfolded msgs(1)] m(1)] m(2,3) show ?thesis
    by (auto simp: sqs_issued_def sqs_reads_def)
qed simp

lemma sqs_Ack_calls: "sqs_Ack cl r c s = (ret, s') \<Longrightarrow> \<exists>e. DeleteMessage cl c (r_queueURL r) (r_receiptHandle r) s = (e, s')"
  by (auto simp: sqs_Ack_def split: prod.splits option.splits)

lemma sqs_Nack_calls:
  "sqs_Nack cl r c s = (ret, s') \<Longrightarrow> \<exists>e. ChangeMessageVisibility cl c (r_queueURL r) (r_receiptHandle r) 0 s = (e, s')"
  by (auto simp: sqs_Nack_def split: prod.splits option.splits)

lemma sqs_durable:
  assumes "sqs_contract (client a) stored handle lapsed"
  shows "durable_queue (sqs_Consume unmarshal a) (sqs_Ack (client a)) (sqs_Nack (client a))
    (sqs_holds stored) (sqs_holds lapsed) (sqs_issued handle) (sqs_reads unmarshal)"
proof
  note D = sqs_contractD [OF assms]
  fix c q n s s' r
  show "sqs_Consume unmarshal a c q n s = (res, s') \<Longrightarrow> sqs_holds stored s \<subseteq> sqs_holds stored s' \<union> sqs_holds lapsed s'" for res
    by (rule sqs_moves_views(1) [OF sqs_Consume_moves [OF assms]])
  show "sqs_Consume unmarshal a c q n s = (res, s') \<Longrightarrow> sqs_holds lapsed s \<subseteq> sqs_holds lapsed s'" for res
    by (rule sqs_moves_views(2) [OF sqs_Consume_moves [OF assms]])
  show "sqs_Consume unmarshal a c q n s = (res, s') \<Longrightarrow> sqs_issued handle s \<subseteq>\<^sub>m sqs_issued handle s'" for res
    by (rule sqs_moves_views(3) [OF sqs_Consume_moves [OF assms]])
  show "sqs_Consume unmarshal a c q n s = (Inr (Some cr), s') \<Longrightarrow> it \<in> set (Items cr) \<Longrightarrow>
      \<exists>x. sqs_issued handle s' (Receipt it) = Some x \<and> sqs_reads unmarshal x = Some (Message it)" for cr it
    by (rule sqs_Consume_issues [OF assms])
  show "sqs_Ack (client a) r c s = (ret, s') \<Longrightarrow> x \<in> sqs_holds stored s \<Longrightarrow>
      x \<in> sqs_holds stored s' \<or> x \<in> sqs_holds lapsed s' \<or> sqs_issued handle s r = Some x" for ret x
    using D(8) by (fastforce dest: sqs_Ack_calls simp: sqs_holds_def sqs_issued_def)
  show "sqs_Ack (client a) r c s = (ret, s') \<Longrightarrow> sqs_holds lapsed s \<subseteq> sqs_holds lapsed s'" for ret
    using D(7) by (fastforce dest: sqs_Ack_calls simp: sqs_holds_def)
  show "sqs_Ack (client a) r c s = (ret, s') \<Longrightarrow> sqs_issued handle s \<subseteq>\<^sub>m sqs_issued handle s'" for ret
    using D(6) by (auto dest!: sqs_Ack_calls intro: sqs_issued_mono)
  show "sqs_Nack (client a) r c s = (ret, s') \<Longrightarrow> sqs_holds stored s \<subseteq> sqs_holds stored s' \<union> sqs_holds lapsed s'" for ret
    using D(9) sqs_moves_views(1) by (metis sqs_Nack_calls)
  show "sqs_Nack (client a) r c s = (ret, s') \<Longrightarrow> sqs_holds lapsed s \<subseteq> sqs_holds lapsed s'" for ret
    using D(9) sqs_moves_views(2) by (metis sqs_Nack_calls)
  show "sqs_Nack (client a) r c s = (ret, s') \<Longrightarrow> sqs_issued handle s \<subseteq>\<^sub>m sqs_issued handle s'" for ret
    using D(9) sqs_moves_views(3) by (metis sqs_Nack_calls)
qed

lemma sqs_bounded:
  assumes "sqs_contract (client a) stored handle lapsed"
  shows "bounded_consumer (sqs_Consume unmarshal a) (sqs_Ack (client a)) (sqs_Nack (client a)) others (\<lambda>_. True)"
proof
  fix c q n s cr s'
  assume "0 < n" and "sqs_Consume unmarshal a c q n s = (Inr (Some cr), s')"
  from this(2) show "int (length (Items cr)) \<le> n"
  proof (cases rule: sqs_Consume_cases)
    case (asked url rr)
    from asked(3) [OF refl] obtain msgs where msgs: "rr = Inr msgs" "receive_items unmarshal url msgs = Inr (Items cr)" by blast
    have "int32 (min n 10) = min n 10" using \<open>0 < n\<close> by (intro int32_id) auto
    with sqs_contractD(4) [OF assms asked(2) [unfolded msgs(1)]] receive_items_Inr [OF msgs(2)] \<open>0 < n\<close> show ?thesis by auto
  qed simp
qed simp_all

section \<open>Publishing to a documented service\<close>

lemma batch_entries_cover:
  "batch_entries marshal i ms = Inr es \<Longrightarrow> m \<in> set ms \<Longrightarrow> \<exists>e \<in> set es. encodeMessageBody marshal m = Inr (MessageBody e)"
proof (induction ms arbitrary: i es)
  case (Cons m' ms)
  then show ?case by (auto simp: batch_entry_def split: sum.splits)
qed simp

text \<open>\<open>m\<close> is in the queue as the body Publish makes of it.\<close>

definition in_queue ::
  "(message \<Rightarrow> error + bytes) \<Rightarrow> ('w \<Rightarrow> string \<Rightarrow> (string \<times> string) set) \<Rightarrow> 'w \<Rightarrow> string \<Rightarrow> message \<Rightarrow> bool" where
  "in_queue marshal stored s url m \<longleftrightarrow> (\<exists>i body. encodeMessageBody marshal m = Inr body \<and> (i, body) \<in> stored s url)"

lemma publishBatch_stores:
  assumes "sqs_contract (client a) stored handle lapsed" and "publishBatch marshal a c url ms s = (ret, s')"
  shows "sqs_moves stored handle lapsed s s' \<and> (ret = None \<longrightarrow> (\<forall>m \<in> set ms. in_queue marshal stored s' url m))"
proof (cases "batch_entries marshal 0 ms")
  case (Inl err)
  with assms(2) show ?thesis by (auto simp: publishBatch_def)
next
  case (Inr es)
  obtain r s1 where r: "SendMessageBatch (client a) c url es s = (r, s1)" by fastforce
  with assms(2) Inr have s1: "s1 = s'" and ok: "ret = None \<longrightarrow> r = Inr []"
    by (auto simp: publishBatch_def split: sum.splits list.splits)
  have "in_queue marshal stored s' url m" if "r = Inr []" "m \<in> set ms" for m
  proof -
    from batch_entries_cover [OF Inr that(2)] obtain e where
      e: "e \<in> set es" "encodeMessageBody marshal m = Inr (MessageBody e)" by blast
    from sqs_contractD(2) [OF assms(1) r [unfolded that(1) s1] e(1)] e(2) show ?thesis by (auto simp: in_queue_def)
  qed
  with sqs_contractD(1) [OF assms(1) r] s1 ok show ?thesis by blast
qed

lemma send_batches_store:
  assumes "sqs_contract (client a) stored handle lapsed"
  shows "send_batches (publishBatch marshal a c url) bs s = (None, s') \<Longrightarrow>
    sqs_moves stored handle lapsed s s' \<and>
    (\<forall>m \<in> set (concat bs). in_queue marshal stored s' url m \<or> in_queue marshal lapsed s' url m)"
proof (induction bs arbitrary: s)
  case (Cons b bs)
  obtain s1 where b: "publishBatch marshal a c url b s = (None, s1)"
    and bs: "send_batches (publishBatch marshal a c url) bs s1 = (None, s')"
    using Cons.prems by (auto split: prod.splits option.splits)
  have k: "sqs_moves stored handle lapsed s s1" "\<forall>m \<in> set b. in_queue marshal stored s1 url m"
    using publishBatch_stores [OF assms b] by simp_all
  note IH = Cons.IH [OF bs]
  have "stored s1 url \<subseteq> stored s' url \<union> lapsed s' url" using IH by (simp add: sqs_moves_def)
  then have "\<forall>m \<in> set b. in_queue marshal stored s' url m \<or> in_queue marshal lapsed s' url m"
    using k(2) unfolding in_queue_def by blast
  with IH sqs_moves_trans [OF k(1)] show ?case by auto
qed simp

text \<open>
  After a successful Publish each message is in the custody of the service, in a body that the adapter can read, unless
  it has lapsed while the later batches were sent.
\<close>

lemma published_readable:
  assumes "sqs_contract (client a) stored handle lapsed" and "map_of (queueURLs a) q = Some url"
    and "sqs_Publish marshal a c q ms s = (None, s')"
    and "\<forall>m \<in> set ms. \<exists>d. marshal m = Inr d \<and> unmarshal d = Inr m" and "m \<in> set ms"
  shows "\<exists>i body. encodeMessageBody marshal m = Inr body \<and>
    (url, i, body) \<in> sqs_holds stored s' \<union> sqs_holds lapsed s' \<and> sqs_reads unmarshal (url, i, body) = Some m"
proof -
  have "send_batches (publishBatch marshal a c url) (batches ms) s = (None, s')"
    using assms(2,3) by (simp add: sqs_Publish_def publish_from_batches)
  from send_batches_store [OF assms(1) this] assms(5) have "in_queue marshal stored s' url m \<or> in_queue marshal lapsed s' url m"
    using batches_shape [of ms] by simp
  then obtain i body where b: "encodeMessageBody marshal m = Inr body" "(i, body) \<in> stored s' url \<union> lapsed s' url"
    by (auto simp: in_queue_def)
  from assms(4,5) obtain d where "marshal m = Inr d" "unmarshal d = Inr m" by blast
  from sqs_body_roundtrip [where marshal = marshal and m = m and unmarshal = unmarshal and data = d, OF this] b(1)
  have "decodeMessageBody unmarshal body = Inr m" by auto
  with b show ?thesis by (auto simp: sqs_holds_def sqs_reads_def)
qed

lemma sqs_env_views:
  assumes "\<forall>R s s'. others R s s' \<longrightarrow> sqs_moves stored handle lapsed s s'"
  shows "\<forall>R s s'. others R s s' \<longrightarrow> sqs_issued handle s \<subseteq>\<^sub>m sqs_issued handle s'"
    and "\<forall>R s s'. others R s s' \<longrightarrow>
      sqs_holds stored s \<subseteq> sqs_holds stored s' \<union> sqs_holds lapsed s' \<and> sqs_holds lapsed s \<subseteq> sqs_holds lapsed s'"
proof -
  from assms show "\<forall>R s s'. others R s s' \<longrightarrow> sqs_issued handle s \<subseteq>\<^sub>m sqs_issued handle s'"
    by (intro allI impI sqs_moves_views(3)) blast
  from assms show "\<forall>R s s'. others R s s' \<longrightarrow>
      sqs_holds stored s \<subseteq> sqs_holds stored s' \<union> sqs_holds lapsed s' \<and> sqs_holds lapsed s \<subseteq> sqs_holds lapsed s'"
    by (intro allI impI conjI sqs_moves_views(1,2)) blast+
qed

section \<open>Properties\<close>

text \<open>
  On SQS a worker deletes a message only after its handler has succeeded on that very message: if a step of the
  worker, at any moment of any interleaving, makes a stored message disappear, then the step is the
  acknowledgement of an item whose handler has returned nil, and the body of the message decodes to what the
  handler was given.  The service does what SQS documents; the other users of the queue may do
  anything, deleting messages and receiving them again included, as long as handles keep their meaning.
\<close>

lemma sqs_delete_after_success:
  assumes "sqs_documented (client a) stored handle"
    and "worker_on (sqs_QueueAdapter marshal unmarshal a) (sqs_Receipt a) others s0 tr w"
    and "\<forall>R s s'. others R s s' \<longrightarrow> (\<forall>url. handle s url \<subseteq>\<^sub>m handle s' url)"
    and "worker_step (sqs_Consume unmarshal a) (sqs_Ack (client a)) (sqs_Nack (client a)) ev w w'"
    and "(i, body) \<in> stored (w_adapter w) url" and "(i, body) \<notin> stored (w_adapter w') url"
  shows "\<exists>it ret. ev = DidSettle it None ret \<and> (it, None) \<in> set (handler_runs tr) \<and>
    decodeMessageBody unmarshal body = Inr (Message it)"
proof -
  note run = assms(2) [unfolded sqs_QueueAdapter_def sqs_Receipt_def, simplified]
  have env: "\<forall>R s s'. others R s s' \<longrightarrow> sqs_issued handle s \<subseteq>\<^sub>m sqs_issued handle s'"
    using assms(3) by (blast intro: sqs_issued_mono)
  have "(url, i, body) \<in> sqs_holds stored (w_adapter w)" "(url, i, body) \<notin> sqs_holds stored (w_adapter w')"
    using assms(5,6) by (simp_all add: sqs_holds_def)
  from durable_queue.step_removes [OF sqs_durable [OF assms(1) [unfolded sqs_documented_def]] run env assms(4) this] show ?thesis
    by (auto simp: sqs_reads_def sqs_holds_def split: sum.splits)
qed

text \<open>
  C9. At-least-once delivery on SQS: after a successful Publish, at every later moment of every run of a worker, each of the
  published messages is still in the queue, or a handler was run on it and returned nil, or it has lapsed: the
  service or another user has taken it out of the queue otherwise than in answer to this worker's acknowledgement.  The
  codec reads back what it writes.  Other users may do anything that leaves handles their meaning, deleting messages
  included; what they and the service remove counts as lapsed.
\<close>

theorem sqs_at_least_once:
  assumes "sqs_contract (client a) stored handle lapsed" and "map_of (queueURLs a) q = Some url"
    and "sqs_Publish marshal a c q ms s = (None, w_adapter w0)"
    and "\<forall>m \<in> set ms. \<exists>d. marshal m = Inr d \<and> unmarshal d = Inr m"
    and "worker_on (sqs_QueueAdapter marshal unmarshal a) (sqs_Receipt a) others s0 tr0 w0"
    and "\<forall>R s s'. others R s s' \<longrightarrow> sqs_moves stored handle lapsed s s'"
    and "worker_cont (sqs_Consume unmarshal a) (sqs_Ack (client a)) (sqs_Nack (client a)) others tr0 w0 ext w"
    and "m \<in> set ms"
  shows "in_queue marshal stored (w_adapter w) url m \<or> in_queue marshal lapsed (w_adapter w) url m \<or>
    (\<exists>it. (it, None) \<in> set (handler_runs (tr0 @ ext)) \<and> Message it = m)"
proof -
  note run = assms(5) [unfolded sqs_QueueAdapter_def sqs_Receipt_def, simplified]
  from published_readable [OF assms(1-4,8)] obtain i body where b: "encodeMessageBody marshal m = Inr body"
    "(url, i, body) \<in> sqs_holds stored (w_adapter w0) \<union> sqs_holds lapsed (w_adapter w0)"
    "sqs_reads unmarshal (url, i, body) = Some m" by blast
  from sqs_env_views [OF assms(6)] durable_queue.cont_removes [OF sqs_durable [OF assms(1)] assms(7) run _ _ b(2)] b(1,3) show ?thesis
    by (auto simp: in_queue_def sqs_holds_def)
qed

text \<open>
  Once told to stop, a worker on SQS makes at most a computed number of further steps, whatever the service
  answers and the other users do, and can step until Start has returned.
\<close>

lemma sqs_worker_stop_terminates:
  assumes "sqs_documented (client a) stored handle"
    and "worker_on (sqs_QueueAdapter marshal unmarshal a) (sqs_Receipt a) others s0 tr w" and "stopping w"
    and "worker_cont (sqs_Consume unmarshal a) (sqs_Ack (client a)) (sqs_Nack (client a)) others tr w ext w'"
  shows "length (filter own ext) \<le> work_left w \<and>
    (length (filter own ext) = work_left w \<longrightarrow> done_ch w') \<and>
    (\<not> done_ch w' \<longrightarrow> can_step (sqs_Consume unmarshal a) (sqs_Ack (client a)) (sqs_Nack (client a)) w')"
  using bounded_consumer.stop_terminates [OF sqs_bounded [OF assms(1) [unfolded sqs_documented_def]] assms(2) [unfolded sqs_QueueAdapter_def sqs_Receipt_def, simplified]
      TrueI assms(3,4)] .

text \<open>
  C33. A message that does not decode stops the worker: when the service answers Consume with a batch that has such a body and
  the context is live, the call fails, nothing of the batch is handled, and Start leaves its loop for good with the
  decoding error, while the messages stay in the queue for the next worker to fail on.
\<close>

theorem sqs_poison_stops_worker:
  assumes "sqs_documented (client a) stored handle" and "map_of (queueURLs a) (QueueName (w_config w)) = Some url"
    and "s_pc w = Consuming" and "s_ctx w = None"
    and "ReceiveMessage (client a) c url (int32 (min (MaxBatch (w_config w)) 10)) (w_adapter w) = (Inr msgs, s')"
    and "msg \<in> set msgs" and "isl (decodeMessageBody unmarshal (aws_ToString (Body msg)))"
  shows "\<exists>e. sqs_Consume unmarshal a c (QueueName (w_config w)) (MaxBatch (w_config w)) (w_adapter w) = (Inl e, s') \<and>
    worker_step (sqs_Consume unmarshal a) ack nack Tau w (w\<lparr>w_adapter := s', s_pc := ConsumeFailed e\<rparr>) \<and>
    worker_step (sqs_Consume unmarshal a) ack nack Tau (w\<lparr>w_adapter := s', s_pc := ConsumeFailed e\<rparr>)
      (fail_return e (w\<lparr>w_adapter := s', s_pc := ConsumeFailed e\<rparr>)) \<and>
    sqs_keeps stored handle (w_adapter w) s'"
proof -
  have "\<not> (\<exists>x. decodeMessageBody unmarshal (aws_ToString (Body msg)) = Inr x)" using assms(7) by (auto simp: isl_def)
  with assms(6) have bad: "\<not> (\<forall>m \<in> set msgs. \<exists>x. decodeMessageBody unmarshal (aws_ToString (Body m)) = Inr x)" by blast
  from receive_items_error [OF bad, of url] obtain e where e: "receive_items unmarshal url msgs = Inl e" by blast
  have m: "(if n > 10 then 10 else n) = min n 10" for n :: int by (simp add: min_def)
  have c: "sqs_Consume unmarshal a c (QueueName (w_config w)) (MaxBatch (w_config w)) (w_adapter w) = (Inl e, s')"
    using assms(2,5) e by (simp add: sqs_Consume_def m)
  have "worker_step (sqs_Consume unmarshal a) ack nack Tau (w\<lparr>w_adapter := s', s_pc := ConsumeFailed e\<rparr>)
      (fail_return e (w\<lparr>w_adapter := s', s_pc := ConsumeFailed e\<rparr>))"
    by (rule failed) (simp_all add: assms(4))
  moreover have "worker_step (sqs_Consume unmarshal a) ack nack Tau w (w\<lparr>w_adapter := s', s_pc := ConsumeFailed e\<rparr>)"
    by (rule consume_error [where orc = c]) (fact assms(3) c)+
  ultimately show ?thesis using c sqs_contractD(3) [OF assms(1) [unfolded sqs_documented_def] assms(5)]
    by (auto simp: sqs_moves_keeps)
qed

section \<open>A service that does what is documented\<close>

text \<open>
  A small queue service with visibility: messages with the queue they are in, the handles issued so far, the
  messages that are hidden because someone has received them, and those that have lapsed.  A new handle is longer than every earlier one.
\<close>

record sqs_state =
  sq_msgs :: "(string \<times> string \<times> string) list"
  sq_handles :: "((string \<times> string) \<times> string \<times> string) list"
  sq_hidden :: "(string \<times> string) list"
  sq_lapsed :: "(string \<times> string \<times> string) list"

definition fresh_handle :: "((string \<times> string) \<times> string \<times> string) list \<Rightarrow> string" where
  "fresh_handle hs = replicate (Suc (sum_list (map (\<lambda>h. length (snd (fst h))) hs))) CHR ''h''"

fun issue ::
  "string \<Rightarrow> (string \<times> string) list \<Rightarrow> ((string \<times> string) \<times> string \<times> string) list \<Rightarrow>
   sqsMessage list \<times> ((string \<times> string) \<times> string \<times> string) list" where
  "issue url [] hs = ([], hs)"
| "issue url (x # xs) hs =
     (let h = fresh_handle hs; (ms, hs') = issue url xs (hs @ [((url, h), x)])
      in (\<lparr>Body = Some (snd x), ReceiptHandle = Some h\<rparr> # ms, hs'))"

definition small_send :: "string \<Rightarrow> SendMessageBatchRequestEntry list \<Rightarrow> sqs_state \<Rightarrow> (error + string option list) \<times> sqs_state" where
  "small_send url es s =
     (Inr [], s\<lparr>sq_msgs := sq_msgs s @ map (\<lambda>e. (url, Id e, MessageBody e)) es\<rparr>)"

definition small_receive :: "string \<Rightarrow> int \<Rightarrow> sqs_state \<Rightarrow> (error + sqsMessage list) \<times> sqs_state" where
  "small_receive url n s =
     (let xs = take (nat n) (map snd (filter (\<lambda>(u, i, b). u = url \<and> (u, i) \<notin> set (sq_hidden s)) (sq_msgs s)));
          (ms, hs') = issue url xs (sq_handles s)
      in (Inr ms, s\<lparr>sq_handles := hs', sq_hidden := map (\<lambda>x. (url, fst x)) xs @ sq_hidden s\<rparr>))"

definition small_delete :: "string \<Rightarrow> string \<Rightarrow> sqs_state \<Rightarrow> error option \<times> sqs_state" where
  "small_delete url h s =
     (case map_of (sq_handles s) (url, h) of
        None \<Rightarrow> (Some (Ext ''ReceiptHandleIsInvalid''), s)
      | Some x \<Rightarrow> (None, s\<lparr>sq_msgs := filter (\<lambda>m. m \<noteq> (url, x)) (sq_msgs s)\<rparr>))"

definition small_visibility :: "string \<Rightarrow> string \<Rightarrow> int \<Rightarrow> sqs_state \<Rightarrow> error option \<times> sqs_state" where
  "small_visibility url h t s =
     (case map_of (sq_handles s) (url, h) of
        None \<Rightarrow> (Some (Ext ''ReceiptHandleIsInvalid''), s)
      | Some x \<Rightarrow> (None, if t = 0 then s\<lparr>sq_hidden := removeAll (url, fst x) (sq_hidden s)\<rparr> else s))"

definition small_sqs :: "sqs_state sqsClient" where
  "small_sqs = \<lparr>SendMessageBatch = (\<lambda>c. small_send), ReceiveMessage = (\<lambda>c. small_receive), DeleteMessage = (\<lambda>c. small_delete),
     ChangeMessageVisibility = (\<lambda>c. small_visibility)\<rparr>"

definition small_stored :: "sqs_state \<Rightarrow> string \<Rightarrow> (string \<times> string) set" where
  "small_stored s url = {x. (url, x) \<in> set (sq_msgs s)}"

definition small_lapsed :: "sqs_state \<Rightarrow> string \<Rightarrow> (string \<times> string) set" where
  "small_lapsed s url = {x. (url, x) \<in> set (sq_lapsed s)}"

text \<open>Its environment: at any time a message can lapse.\<close>

definition small_others :: "sqsReceipt set \<Rightarrow> sqs_state \<Rightarrow> sqs_state \<Rightarrow> bool" where
  "small_others R s s' \<longleftrightarrow>
     s' = s \<or> (\<exists>x \<in> set (sq_msgs s). s' = s\<lparr>sq_msgs := removeAll x (sq_msgs s), sq_lapsed := x # sq_lapsed s\<rparr>)"

definition small_handle :: "sqs_state \<Rightarrow> string \<Rightarrow> string \<rightharpoonup> string \<times> string" where
  "small_handle s url h = map_of (sq_handles s) (url, h)"

lemma fresh_handle_fresh: "map_of hs (url, fresh_handle hs) = None"
proof -
  have "length h < length (fresh_handle hs)" if "((u, h), x) \<in> set hs" for u h x
    using member_le_sum_list [of "length h" "map (\<lambda>h. length (snd (fst h))) hs"] that by (force simp: fresh_handle_def)
  then have "(url, fresh_handle hs) \<notin> fst ` set hs" by fastforce
  then show ?thesis by (simp add: map_of_eq_None_iff)
qed

lemma issue_handles:
  "issue url xs hs = (ms, hs') \<Longrightarrow> map_of hs \<subseteq>\<^sub>m map_of hs' \<and> length ms = length xs \<and>
   (\<forall>m \<in> set ms. \<exists>i. map_of hs' (url, aws_ToString (ReceiptHandle m)) = Some (i, aws_ToString (Body m)))"
proof (induction url xs hs arbitrary: ms rule: issue.induct)
  case (2 url x xs hs)
  let ?h = "fresh_handle hs" and ?hs1 = "hs @ [((url, fresh_handle hs), x)]"
  obtain ms1 where i: "issue url xs ?hs1 = (ms1, hs')" and ms: "ms = \<lparr>Body = Some (snd x), ReceiptHandle = Some ?h\<rparr> # ms1"
    using "2.prems" by (auto simp: Let_def split: prod.splits)
  note IH = "2.IH" [OF refl i]
  have "map_of hs \<subseteq>\<^sub>m map_of ?hs1" by (auto simp: map_le_def map_add_def dom_def split: option.splits)
  moreover have "map_of ?hs1 (url, ?h) = Some x" by (simp add: fresh_handle_fresh map_add_def)
  with IH have "map_of hs' (url, ?h) = Some x" by (metis domI map_le_def)
  ultimately have le: "map_of hs \<subseteq>\<^sub>m map_of hs'" and x: "map_of hs' (url, ?h) = Some (fst x, snd x)"
    using IH by (blast intro: map_le_trans, simp)
  have "\<exists>i. map_of hs' (url, aws_ToString (ReceiptHandle m)) = Some (i, aws_ToString (Body m))" if "m \<in> set ms" for m
  proof (cases "m \<in> set ms1")
    case False
    with that ms have "m = \<lparr>Body = Some (snd x), ReceiptHandle = Some ?h\<rparr>" by simp
    with x show ?thesis by (intro exI [of _ "fst x"]) (simp add: aws_ToString_def)
  qed (use IH in blast)
  with le IH ms show ?case by simp
qed simp

lemma small_handle_same [simp]:
  "small_handle (s\<lparr>sq_lapsed := ls\<rparr>) = small_handle s" "small_handle (s\<lparr>sq_msgs := ms\<rparr>) = small_handle s" "small_handle (s\<lparr>sq_hidden := hs\<rparr>) = small_handle s"
  by (simp_all add: fun_eq_iff small_handle_def)

text \<open>Its calls keep the contract for every view of lapsed messages that they only add to, be it their own or the empty one.\<close>

lemma small_sqs_lapses:
  assumes "\<And>s s'. sq_lapsed s' = sq_lapsed s \<Longrightarrow> lapsed s' = lapsed s"
  shows "sqs_contract small_sqs small_stored small_handle lapsed"
proof -
  have "doc_send small_sqs small_stored small_handle lapsed"
    unfolding doc_send_def
  proof (intro allI impI)
    fix c url es r and s s' :: sqs_state
    assume d: "SendMessageBatch small_sqs c url es s = (r, s')"
    then have "sq_lapsed s' = sq_lapsed s" by (auto simp: small_sqs_def small_send_def)
    from d assms [OF this]
    show "sqs_moves small_stored small_handle lapsed s s' \<and>
        (r = Inr [] \<longrightarrow> (\<forall>e \<in> set es. \<exists>i. (i, MessageBody e) \<in> small_stored s' url))"
      by (auto simp: small_sqs_def small_send_def sqs_moves_def small_stored_def image_iff) blast
  qed
  moreover have "doc_receive small_sqs small_stored small_handle lapsed"
    unfolding doc_receive_def
  proof (intro allI impI)
    fix c url n r and s s' :: sqs_state
    let ?xs = "take (nat n) (map snd (filter (\<lambda>(u, i, b). u = url \<and> (u, i) \<notin> set (sq_hidden s)) (sq_msgs s)))"
    assume "ReceiveMessage small_sqs c url n s = (r, s')"
    then obtain ms where i: "issue url ?xs (sq_handles s) = (ms, sq_handles s')" "r = Inr ms" "sq_msgs s' = sq_msgs s"
        "sq_lapsed s' = sq_lapsed s"
      by (auto simp: small_sqs_def small_receive_def Let_def split: prod.splits)
    from issue_handles [OF i(1)] i(2,3) assms [OF i(4)]
    show "sqs_moves small_stored small_handle lapsed s s' \<and>
        (\<forall>msgs. r = Inr msgs \<longrightarrow> length msgs \<le> nat n \<and>
           (\<forall>m \<in> set msgs. \<exists>i. small_handle s' url (aws_ToString (ReceiptHandle m)) = Some (i, aws_ToString (Body m))))"
      by (auto simp: sqs_moves_def small_stored_def small_handle_def map_le_def dom_def)
  qed
  moreover have "doc_delete small_sqs small_stored small_handle lapsed"
    unfolding doc_delete_def
  proof (intro allI impI)
    fix c url h r and s s' :: sqs_state
    assume d: "DeleteMessage small_sqs c url h s = (r, s')"
    then have "sq_lapsed s' = sq_lapsed s" by (auto simp: small_sqs_def small_delete_def split: option.splits)
    from d assms [OF this]
    show "(\<forall>url'. small_handle s url' \<subseteq>\<^sub>m small_handle s' url') \<and> (\<forall>url'. lapsed s url' \<subseteq> lapsed s' url') \<and>
        (\<forall>url' x. x \<in> small_stored s url' \<longrightarrow>
           x \<in> small_stored s' url' \<or> x \<in> lapsed s' url' \<or> url' = url \<and> small_handle s url h = Some x)"
      by (auto simp: small_sqs_def small_delete_def small_stored_def small_handle_def [symmetric] split: option.splits)
  qed
  moreover have "doc_visibility small_sqs small_stored small_handle lapsed"
    unfolding doc_visibility_def
  proof (intro allI impI)
    fix c url h t r and s s' :: sqs_state
    assume v: "ChangeMessageVisibility small_sqs c url h t s = (r, s')"
    then have "sq_lapsed s' = sq_lapsed s" by (auto simp: small_sqs_def small_visibility_def split: option.splits if_splits)
    from v assms [OF this] show "sqs_moves small_stored small_handle lapsed s s'"
      by (auto simp: small_sqs_def small_visibility_def sqs_moves_def small_stored_def split: option.splits if_splits)
  qed
  ultimately show ?thesis by (simp add: sqs_contract_def)
qed

lemma small_sqs_contract: "sqs_contract small_sqs small_stored small_handle small_lapsed"
  by (rule small_sqs_lapses) (simp add: small_lapsed_def fun_eq_iff)

lemma small_sqs_documented: "sqs_documented small_sqs small_stored small_handle"
  unfolding sqs_documented_def by (rule small_sqs_lapses) simp

lemma small_others_moves: "small_others R s s' \<Longrightarrow> sqs_moves small_stored small_handle small_lapsed s s'"
  by (auto simp: small_others_def sqs_moves_def small_stored_def small_lapsed_def)

interpretation small_queue: durable_queue
  "sqs_Consume unmarshal \<lparr>client = small_sqs, queueURLs = urls\<rparr>" "sqs_Ack small_sqs" "sqs_Nack small_sqs"
  "sqs_holds small_stored" "sqs_holds small_lapsed" "sqs_issued small_handle" "sqs_reads unmarshal" for unmarshal urls
  using sqs_durable [of "\<lparr>client = small_sqs, queueURLs = urls\<rparr>"] small_sqs_contract by simp

section \<open>A run on SQS\<close>

text \<open>One message is published to the small service, and a worker takes it, handles it and deletes it.\<close>

definition sq_url :: string where
  "sq_url = ''https://sqs/jobs''"

definition sq_adapter :: "sqs_state SqsAdapter" where
  "sq_adapter = \<lparr>client = small_sqs, queueURLs = [(''jobs'', sq_url)]\<rparr>"

definition sq_write :: "message \<Rightarrow> error + bytes" where
  "sq_write m = Inr (MessageId m)"

definition sq_read :: "bytes \<Rightarrow> error + message" where
  "sq_read d = Inr (plain\<lparr>MessageId := d\<rparr>)"

definition sq_body :: string where
  "sq_body = EncodeToString ''id''"

definition sq_loaded :: sqs_state where
  "sq_loaded = \<lparr>sq_msgs = [(sq_url, ''id'', sq_body)], sq_handles = [], sq_hidden = [], sq_lapsed = []\<rparr>"

definition sq_taken :: sqs_state where
  "sq_taken = sq_loaded\<lparr>sq_handles := [((sq_url, ''h''), ''id'', sq_body)], sq_hidden := [(sq_url, ''id'')]\<rparr>"

definition sq_item :: "sqsReceipt item" where
  "sq_item = \<lparr>Message = plain, Receipt = \<lparr>r_queueURL = sq_url, r_receiptHandle = ''h''\<rparr>\<rparr>"

definition sq_worker :: "(sqs_state, nat, sqsReceipt) Worker" where
  "sq_worker = NewWorker sq_loaded (Register ''t'' ''a'' (\<lambda>_ _ n. (None, n + 1)) NewRegistry) (DefaultWorkerConfig ''jobs'') 0 None"

lemma sq_publish: "sqs_Publish sq_write sq_adapter None ''jobs'' [plain] \<lparr>sq_msgs = [], sq_handles = [], sq_hidden = [], sq_lapsed = []\<rparr> = (None, sq_loaded)"
proof -
  have "batches [plain] = [[plain]]" by (simp add: batches.simps [of "[plain]"])
  moreover have "batch_entries sq_write 0 [plain] = Inr [batch_entry plain sq_body]"
    by (simp add: sq_write_def encodeMessageBody_def sq_body_def plain_def)
  ultimately show ?thesis
    by (simp add: sqs_Publish_def publish_from_batches sq_adapter_def publishBatch_def small_sqs_def small_send_def batch_entry_def
        sq_loaded_def plain_def)
qed

lemma sq_decode: "decodeMessageBody sq_read sq_body = Inr plain"
proof -
  have "DecodeString sq_body = Inr ''id''" unfolding sq_body_def by (rule DecodeString_EncodeToString)
  then show ?thesis by (simp add: decodeMessageBody_def sq_read_def plain_def)
qed

lemma sq_consume: "sqs_Consume sq_read sq_adapter c ''jobs'' 10 sq_loaded = (Inr (Some \<lparr>Items = [sq_item]\<rparr>), sq_taken)"
  by (simp add: sqs_Consume_def sq_adapter_def small_sqs_def small_receive_def sq_loaded_def sq_taken_def sq_item_def
      fresh_handle_def aws_ToString_def sq_decode int32_id Let_def)

lemma sq_first: "first_item (sqs_Consume sq_read sq_adapter) (DefaultWorkerConfig ''jobs'') sq_loaded sq_item sq_taken"
  unfolding first_item_def by (rule exI [of _ None]) (simp add: worker_config_def DefaultWorkerConfig_def sq_consume)

lemma sq_ack:
  "sqs_Ack small_sqs (Receipt sq_item) None sq_taken = (None, sq_taken\<lparr>sq_msgs := []\<rparr>)"
  by (simp add: sqs_Ack_def small_sqs_def small_delete_def sq_taken_def sq_loaded_def sq_item_def)

abbreviation sq_run :: "sqsReceipt event list \<Rightarrow> (sqs_state, nat, sqsReceipt) Worker \<Rightarrow> bool" where
  "sq_run \<equiv> worker_on (sqs_QueueAdapter sq_write sq_read sq_adapter) (sqs_Receipt sq_adapter) small_others sq_loaded"

lemma sq_run_unfold:
  "sq_run = worker_run (sqs_Consume sq_read sq_adapter) (sqs_Ack small_sqs) (sqs_Nack small_sqs) small_others sq_loaded"
  by (simp add: sqs_QueueAdapter_def sqs_Receipt_def sq_adapter_def)

definition sq_handled :: "(sqs_state, nat, sqsReceipt) Worker" where
  "sq_handled = (started sq_worker sq_item sq_taken)\<lparr>w_app := 1, gos := [(sq_item, Handled None)]\<rparr>"

definition sq_trace :: "sqsReceipt event list" where
  "sq_trace = [Tau, Tau, Took [sq_item], Began sq_item, Tau, Ran sq_item None]"

lemma sq_run_handled: "sq_run sq_trace sq_handled"
proof -
  have "Handle (w_registry (started sq_worker sq_item sq_taken)) (s_ctx (started sq_worker sq_item sq_taken)) (Message sq_item)
      (w_app (started sq_worker sq_item sq_taken)) = (None, 1)"
    by (simp add: started_def sq_worker_def NewWorker_def Handle_def Register_def NewRegistry_def sq_item_def plain_def)
  from run_handled [OF run_started [OF sq_worker_def sq_first] _ this, of "sqs_Ack small_sqs" "sqs_Nack small_sqs" small_others]
  show ?thesis by (simp add: sq_run_unfold sq_trace_def sq_handled_def started_def)
qed

lemma sq_handled_fields [simp]:
  "w_adapter sq_handled = sq_taken" "gos sq_handled = [(sq_item, Handled None)]" "s_ctx sq_handled = None"
  by (simp_all add: sq_handled_def started_def sq_worker_def NewWorker_def)

lemma sq_settle_step:
  "worker_step (sqs_Consume sq_read sq_adapter) (sqs_Ack small_sqs) (sqs_Nack small_sqs) (DidSettle sq_item None None) sq_handled
     (sq_handled\<lparr>w_adapter := sq_taken\<lparr>sq_msgs := []\<rparr>, gos := [(sq_item, Settled)]\<rparr>)"
  using go_settle [of 0 sq_handled sq_item None "sqs_Ack small_sqs" "sqs_Nack small_sqs" None "sq_taken\<lparr>sq_msgs := []\<rparr>"
      "sqs_Consume sq_read sq_adapter"]
  by (simp add: settle_def sq_ack)

lemma sq_client [simp]: "client sq_adapter = small_sqs" "queueURLs sq_adapter = [(''jobs'', sq_url)]"
  by (simp_all add: sq_adapter_def)

lemma sq_cont:
  "worker_cont (sqs_Consume sq_read sq_adapter) (sqs_Ack small_sqs) (sqs_Nack small_sqs) small_others sq_trace sq_handled
     [DidSettle sq_item None None] (sq_handled\<lparr>w_adapter := sq_taken\<lparr>sq_msgs := []\<rparr>, gos := [(sq_item, Settled)]\<rparr>)"
  using cont_step [OF cont_refl sq_settle_step] by simp

theorem sqs_at_least_once_witness:
  "\<exists>it. (it, None) \<in> set (handler_runs (sq_trace @ [DidSettle sq_item None None])) \<and> Message it = plain"
proof -
  let ?w' = "sq_handled\<lparr>w_adapter := sq_taken\<lparr>sq_msgs := []\<rparr>, gos := [(sq_item, Settled)]\<rparr>"
  have doc: "sqs_contract (client sq_adapter) small_stored small_handle small_lapsed" by (simp add: small_sqs_contract)
  have q: "map_of (queueURLs sq_adapter) ''jobs'' = Some sq_url" by simp
  have codec: "\<forall>m \<in> set [plain]. \<exists>d. sq_write m = Inr d \<and> sq_read d = Inr m" by (simp add: sq_write_def sq_read_def plain_def)
  have env: "\<forall>R s s'. small_others R s s' \<longrightarrow> sqs_moves small_stored small_handle small_lapsed s s'" by (simp add: small_others_moves)
  have "sq_run (sq_trace @ [DidSettle sq_item None None]) ?w'"
    using cont_run [OF sq_cont] sq_run_handled unfolding sq_run_unfold by blast
  from run_cont [OF this] obtain w0 where
    w0: "sq_run [] w0" "w_adapter w0 = sq_loaded"
      "worker_cont (sqs_Consume sq_read sq_adapter) (sqs_Ack (client sq_adapter)) (sqs_Nack (client sq_adapter)) small_others [] w0
        (sq_trace @ [DidSettle sq_item None None]) ?w'"
    by (auto simp: sqs_QueueAdapter_def sqs_Receipt_def)
  note pub = sq_publish [folded w0(2)]
  have "\<not> in_queue sq_write small_stored (w_adapter ?w') sq_url plain" "\<not> in_queue sq_write small_lapsed (w_adapter ?w') sq_url plain"
    by (simp_all add: in_queue_def small_stored_def small_lapsed_def sq_taken_def sq_loaded_def)
  with sqs_at_least_once [OF doc q pub codec w0(1) env w0(3), of plain] show ?thesis by simp
qed

text \<open>A queue with one body that is no message.\<close>

definition sq_poisoned :: sqs_state where
  "sq_poisoned = \<lparr>sq_msgs = [(sq_url, ''id'', ''?'')], sq_handles = [], sq_hidden = [], sq_lapsed = []\<rparr>"

theorem sqs_poison_stops_worker_witness:
  "\<exists>e s'. sqs_Consume (\<lambda>_. Inl (Ext ''proto'')) sq_adapter None ''jobs'' 10 sq_poisoned = (Inl e, s') \<and>
     (''id'', ''?'') \<in> small_stored s' sq_url"
proof -
  let ?w = "(NewWorker sq_poisoned (NewRegistry :: nat Registry) (DefaultWorkerConfig ''jobs'') 0 None :: (sqs_state, nat, sqsReceipt) Worker)
    \<lparr>s_pc := Consuming\<rparr>"
  let ?m = "\<lparr>Body = Some ''?'', ReceiptHandle = Some ''h''\<rparr>"
  let ?u = "\<lambda>_ :: bytes. Inl (Ext ''proto'') :: error + message"
  have doc: "sqs_documented (client sq_adapter) small_stored small_handle" by (simp add: small_sqs_documented)
  have cfg: "w_config ?w = DefaultWorkerConfig ''jobs''" "w_adapter ?w = sq_poisoned"
    by (simp_all add: NewWorker_def worker_config_def DefaultWorkerConfig_def)
  have q: "map_of (queueURLs sq_adapter) (QueueName (w_config ?w)) = Some sq_url" unfolding cfg by (simp add: DefaultWorkerConfig_def)
  have r: "ReceiveMessage (client sq_adapter) None sq_url (int32 (min (MaxBatch (w_config ?w)) 10)) (w_adapter ?w) =
      (Inr [?m], snd (small_receive sq_url 10 sq_poisoned))"
    unfolding cfg by (simp add: DefaultWorkerConfig_def small_sqs_def small_receive_def sq_poisoned_def fresh_handle_def int32_id Let_def)
  have bad: "isl (decodeMessageBody ?u (aws_ToString (Body ?m)))"
    by (simp add: decodeMessageBody_def Let_def split: sum.split)
  have pc: "s_pc ?w = Consuming" "s_ctx ?w = None" by (simp_all add: NewWorker_def)
  from sqs_poison_stops_worker [OF doc q pc r _ bad, where ack = "sqs_Ack small_sqs" and nack = "sqs_Nack small_sqs"] obtain e where
    e: "sqs_Consume ?u sq_adapter None (QueueName (w_config ?w)) (MaxBatch (w_config ?w)) (w_adapter ?w) =
        (Inl e, snd (small_receive sq_url 10 sq_poisoned))"
      "sqs_keeps small_stored small_handle (w_adapter ?w) (snd (small_receive sq_url 10 sq_poisoned))" by auto
  have "(''id'', ''?'') \<in> small_stored sq_poisoned sq_url" by (simp add: small_stored_def sq_poisoned_def)
  with e(2) have "(''id'', ''?'') \<in> small_stored (snd (small_receive sq_url 10 sq_poisoned)) sq_url"
    unfolding cfg sqs_keeps_def by blast
  with e(1) show ?thesis unfolding cfg by (auto simp: DefaultWorkerConfig_def)
qed

end
