(* ===== verification/PoolSqs.thy ===== *)
theory PoolSqs
  imports WorkerPool WorkerSqs
begin

text \<open>
  The worker pool of \<open>go/core/worker.go\<close> on the SQS adapter: what \<open>WorkerSqs\<close> shows of one worker holds of
  several workers that receive from and settle on the same service.
\<close>

section \<open>A pool on a durable queue\<close>

text \<open>The books of a worker of a pool.\<close>

lemma books_inv_visible: "books_inv (visible tr) w = books_inv tr w"
  by (simp add: books_inv_def visible_reads)

lemma pool_books:
  assumes "pool_run consume ack nack others a0 trs p" and "i < length (p_workers p)"
  shows "books_inv (trs ! i) (view p i)"
proof -
  from simulated_run [OF assms] obtain tr where
    "worker_run consume ack nack any_others a0 tr (view p i)" "visible tr = trs ! i" by (auto simp: simulated_def)
  with books_inv_run [OF this(1)] books_inv_visible [of tr "view p i"] show ?thesis by simp
qed

lemma view_adapter [simp]: "w_adapter (view p i) = p_adapter p"
  by (simp add: view_def)

text \<open>The trace of a worker only grows.\<close>

lemma log_step_grows:
  assumes "tr \<in> set trs" shows "\<exists>tr' \<in> set (log_step lab trs). set (handler_runs tr) \<subseteq> set (handler_runs tr')"
proof (cases lab)
  case (Some l)
  obtain i ev where l: "l = (i, ev)" by fastforce
  from assms obtain j where j: "j < length trs" "tr = trs ! j" by (auto simp: in_set_conv_nth)
  have "set (handler_runs (trs ! i)) \<subseteq> set (handler_runs (trs ! i @ [ev]))" by (simp add: handler_runs_def)
  with Some l j have "set (handler_runs tr) \<subseteq> set (handler_runs (log_step lab trs ! j))" by (cases "j = i") simp_all
  moreover from Some l j have "log_step lab trs ! j \<in> set (log_step lab trs)" by (intro nth_mem) simp
  ultimately show ?thesis by blast
qed (use assms in auto)

context durable_queue
begin

lemma pool_items_issued:
  assumes "pool_run consume ack nack others a0 trs p" and "\<forall>R a a'. others R a a' \<longrightarrow> issued a \<subseteq>\<^sub>m issued a'"
    and "j < length trs"
  shows "items_issued (trs ! j) (p_adapter p)"
  using assms(1,3)
proof (induction arbitrary: j rule: pool_run.induct)
  case (pool_new c reg config n app p)
  then show ?case by (simp add: items_issued_def)
next
  case (pool_steps trs p lab p')
  from pool_steps.hyps(2) pool_shape_run [OF pool_steps.hyps(1)] show ?case
  proof (cases rule: pool_step_elim)
    case other
    with pool_steps show ?thesis by simp
  next
    case (worker i ev w')
    then have j: "j < length trs" using pool_steps.prems by simp
    have "items_issued (trs ! j) (w_adapter w')"
      using items_issued_mono [OF pool_steps.IH [OF j]] step_issued [OF worker(2)] by simp
    moreover have "items_issued (trs ! i @ [ev]) (w_adapter w')" if "i = j"
      using items_issued_step [OF worker(2)] pool_steps.IH [OF j] that by simp
    ultimately show ?thesis using worker(1,7) j by (cases "i = j") simp_all
  qed
next
  case (pool_envs trs p p')
  from pool_envs.hyps(2) have "p_adapter p' = p_adapter p" by cases auto
  with pool_envs show ?case by simp
next
  case (pool_others trs p a')
  with assms(2) have "issued (p_adapter p) \<subseteq>\<^sub>m issued a'" by blast
  from items_issued_mono [OF pool_others.IH [OF pool_others.prems] this] show ?case by simp
qed

lemma pool_removes:
  assumes "pool_run consume ack nack others a0 trs p" and "\<forall>R a a'. others R a a' \<longrightarrow> issued a \<subseteq>\<^sub>m issued a'"
    and "pool_step consume ack nack lab p p'" and "x \<in> holds (p_adapter p)"
    and "x \<notin> holds (p_adapter p')" and "x \<notin> lapsed (p_adapter p')"
  shows "\<exists>i it ret. lab = Some (i, DidSettle it None ret) \<and> (it, None) \<in> set (handler_runs (trs ! i)) \<and> reads x = Some (Message it)"
  using assms(3) pool_shape_run [OF assms(1)]
proof (cases rule: pool_step_elim)
  case other
  with assms(4,5) show ?thesis by simp
next
  case (worker i ev w')
  have "items_issued (trs ! i) (w_adapter (view p i))" using pool_items_issued [OF assms(1,2) worker(5)] by simp
  from books_removes [OF pool_books [OF assms(1) worker(4)] this worker(2), of x] assms(4-6) worker(1,7) show ?thesis by auto
qed

end

context durable_queue
begin

lemma pool_lapsed:
  assumes "pool_step consume ack nack lab p p'" and "pool_shape trs p"
  shows "lapsed (p_adapter p) \<subseteq> lapsed (p_adapter p')"
  using assms
proof (cases rule: pool_step_elim)
  case (worker i ev w')
  with step_lapsed [OF worker(2)] show ?thesis by simp
qed simp

text \<open>What the queue holds when the pool is made stays there until some worker of the pool has handled it, or it lapses.\<close>

lemma pool_keeps:
  assumes "pool_run consume ack nack others a0 trs p" and "\<forall>R a a'. others R a a' \<longrightarrow> issued a \<subseteq>\<^sub>m issued a'"
    and "\<forall>R a a'. others R a a' \<longrightarrow> holds a \<subseteq> holds a' \<union> lapsed a' \<and> lapsed a \<subseteq> lapsed a'"
    and "x \<in> holds a0 \<union> lapsed a0"
  shows "x \<in> holds (p_adapter p) \<union> lapsed (p_adapter p) \<or>
    (\<exists>tr \<in> set trs. \<exists>it. (it, None) \<in> set (handler_runs tr) \<and> reads x = Some (Message it))"
  using assms(1)
proof (induction rule: pool_run.induct)
  case (pool_new c reg config n app p)
  with assms(4) show ?case by (auto simp: NewWorkerPool_def split: if_splits)
next
  case (pool_steps trs p lab p')
  note shape = pool_shape_run [OF pool_steps.hyps(1)]
  have run: "\<exists>tr \<in> set trs. (it, None) \<in> set (handler_runs tr)"
    if "lab = Some (i, DidSettle it None ret)" "(it, None) \<in> set (handler_runs (trs ! i))" for i it ret
    using pool_steps.hyps(2) shape
    by (cases rule: pool_step_elim) (use that nth_mem in auto)
  have "x \<in> holds (p_adapter p') \<union> lapsed (p_adapter p') \<or>
      (\<exists>tr \<in> set trs. \<exists>it. (it, None) \<in> set (handler_runs tr) \<and> reads x = Some (Message it))"
  proof (cases "x \<in> holds (p_adapter p) \<and> x \<notin> holds (p_adapter p') \<and> x \<notin> lapsed (p_adapter p')")
    case True
    then obtain i it ret where "lab = Some (i, DidSettle it None ret)" "(it, None) \<in> set (handler_runs (trs ! i))"
      "reads x = Some (Message it)" using pool_removes [OF pool_steps.hyps(1) assms(2) pool_steps.hyps(2)] by blast
    with run [of i it ret] show ?thesis by blast
  qed (use pool_steps.IH pool_lapsed [OF pool_steps.hyps(2) shape] in blast)
  then show ?case
  proof (elim disjE bexE exE conjE)
    fix tr it
    assume "tr \<in> set trs" "(it, None) \<in> set (handler_runs tr)" "reads x = Some (Message it)"
    with log_step_grows [of tr trs lab] show ?thesis by blast
  qed simp
next
  case (pool_envs trs p p')
  from pool_envs.hyps(2) have "p_adapter p' = p_adapter p" by cases auto
  with pool_envs.IH show ?case by simp
next
  case (pool_others trs p a')
  with assms(3) show ?case by fastforce
qed

end

section \<open>Properties\<close>

text \<open>A pool on an adapter that is given as an interface value.\<close>

abbreviation pool_on ::
  "('a, message, 'r, 'o) QueueAdapter \<Rightarrow> ('a, 'r) Receipt_methods \<Rightarrow> ('r set \<Rightarrow> 'a \<Rightarrow> 'a \<Rightarrow> bool) \<Rightarrow> 'a \<Rightarrow>
   'r event list list \<Rightarrow> ('a, 's, 'r) WorkerPool \<Rightarrow> bool" where
  "pool_on I R \<equiv> pool_run (ad_Consume I) (rc_Ack R) (rc_Nack R)"

text \<open>
  C10. On SQS no worker of a pool deletes a message but after a handler of its own succeeded on it: if a step of the pool, in
  any interleaving of its workers, makes a stored message disappear, then it is one worker's acknowledgement of an
  item whose handler that worker has run and that returned nil, and the body of the message decodes to what the
  handler was given.  Other users of the queue may do anything that leaves handles their meaning.
\<close>

theorem sqs_pool_delete_after_success:
  assumes "sqs_documented (client a) stored handle"
    and "pool_on (sqs_QueueAdapter marshal unmarshal a) (sqs_Receipt a) others s0 trs p"
    and "\<forall>R s s'. others R s s' \<longrightarrow> (\<forall>url. handle s url \<subseteq>\<^sub>m handle s' url)"
    and "pool_step (sqs_Consume unmarshal a) (sqs_Ack (client a)) (sqs_Nack (client a)) lab p p'"
    and "(i, body) \<in> stored (p_adapter p) url" and "(i, body) \<notin> stored (p_adapter p') url"
  shows "\<exists>k it ret. lab = Some (k, DidSettle it None ret) \<and> (it, None) \<in> set (handler_runs (trs ! k)) \<and>
    decodeMessageBody unmarshal body = Inr (Message it)"
proof -
  note run = assms(2) [unfolded sqs_QueueAdapter_def sqs_Receipt_def, simplified]
  have env: "\<forall>R s s'. others R s s' \<longrightarrow> sqs_issued handle s \<subseteq>\<^sub>m sqs_issued handle s'"
    using assms(3) by (blast intro: sqs_issued_mono)
  have "(url, i, body) \<in> sqs_holds stored (p_adapter p)" "(url, i, body) \<notin> sqs_holds stored (p_adapter p')"
    using assms(5,6) by (simp_all add: sqs_holds_def)
  from durable_queue.pool_removes [OF sqs_durable [OF assms(1) [unfolded sqs_documented_def]] run env assms(4) this] show ?thesis
    by (auto simp: sqs_reads_def sqs_holds_def split: sum.splits)
qed

text \<open>
  C32. At-least-once delivery to a pool on SQS: of the messages of a successful Publish, each is, at every moment of
  every run of a pool that is made afterwards, still in the queue, or some worker of the pool has run a handler on it
  that returned nil, or it has lapsed: the service or another user has taken it out of the queue otherwise than in answer to
  an acknowledgement of the pool.  The codec reads back what it writes.  Other users may do anything that leaves handles their
  meaning; what they and the service remove counts as lapsed.
\<close>

theorem sqs_pool_at_least_once:
  assumes "sqs_contract (client a) stored handle lapsed" and "map_of (queueURLs a) q = Some url"
    and "sqs_Publish marshal a c q ms s = (None, s0)"
    and "\<forall>m \<in> set ms. \<exists>d. marshal m = Inr d \<and> unmarshal d = Inr m"
    and "pool_on (sqs_QueueAdapter marshal unmarshal a) (sqs_Receipt a) others s0 trs p"
    and "\<forall>R s s'. others R s s' \<longrightarrow> sqs_moves stored handle lapsed s s'" and "m \<in> set ms"
  shows "in_queue marshal stored (p_adapter p) url m \<or> in_queue marshal lapsed (p_adapter p) url m \<or>
    (\<exists>tr \<in> set trs. \<exists>it. (it, None) \<in> set (handler_runs tr) \<and> Message it = m)"
proof -
  note run = assms(5) [unfolded sqs_QueueAdapter_def sqs_Receipt_def, simplified]
  from published_readable [OF assms(1-4,7)] obtain i body where b: "encodeMessageBody marshal m = Inr body"
    "(url, i, body) \<in> sqs_holds stored s0 \<union> sqs_holds lapsed s0" "sqs_reads unmarshal (url, i, body) = Some m" by blast
  from sqs_env_views [OF assms(6)] durable_queue.pool_keeps [OF sqs_durable [OF assms(1)] run _ _ b(2)] b(1,3) show ?thesis
    by (fastforce simp: in_queue_def sqs_holds_def)
qed

section \<open>A pool of one\<close>

text \<open>The run of \<open>WorkerSqs\<close> as a run of a pool, up to the settlement and with it.\<close>

abbreviation sq_pool :: "sqsReceipt event list list \<Rightarrow> (sqs_state, nat, sqsReceipt) WorkerPool \<Rightarrow> bool" where
  "sq_pool \<equiv> pool_on (sqs_QueueAdapter sq_write sq_read sq_adapter) (sqs_Receipt sq_adapter) small_others sq_loaded"

lemma sq_pool_settles:
  obtains p p' where "sq_pool [sq_trace] p" "p_adapter p = sq_taken" "p_adapter p' = sq_taken\<lparr>sq_msgs := []\<rparr>"
    "pool_step (sqs_Consume sq_read sq_adapter) (sqs_Ack (client sq_adapter)) (sqs_Nack (client sq_adapter))
       (Some (0, DidSettle sq_item None None)) p p'" "sq_pool [sq_trace @ [DidSettle sq_item None None]] p'"
proof -
  have "list_all own sq_trace" by (simp add: sq_trace_def)
  from lone_pool_follows [OF sq_run_handled this sq_handled_fields(3)] obtain p v where
    p: "sq_pool [sq_trace] p" "p_gos p = [PgRun]" "p_workers p = [v]" "view p 0 = sq_handled" by blast
  from p(4) have a: "p_adapter p = sq_taken" using sq_handled_fields(1) view_adapter [of p 0] by simp
  let ?w' = "sq_handled\<lparr>w_adapter := sq_taken\<lparr>sq_msgs := []\<rparr>, gos := [(sq_item, Settled)]\<rparr>"
  let ?p' = "p\<lparr>p_workers := (p_workers p)[0 := ?w'], p_adapter := w_adapter ?w', p_app := w_app ?w'\<rparr>"
  have "pool_step (sqs_Consume sq_read sq_adapter) (sqs_Ack (client sq_adapter)) (sqs_Nack (client sq_adapter))
      (Some (0, DidSettle sq_item None None)) p ?p'"
    by (rule pool_worker) (use p sq_settle_step in simp_all)
  note st = this
  have "sq_pool [sq_trace @ [DidSettle sq_item None None]] ?p'"
    using pool_steps [where others = small_others, OF _ st, of sq_loaded "[sq_trace]"] p(1)
    by (simp add: sqs_QueueAdapter_def sqs_Receipt_def)
  with p(1) a st show thesis by (intro that [of p ?p']) simp_all
qed

theorem sqs_pool_delete_after_success_witness:
  "\<exists>p. sq_pool [sq_trace] p \<and> (''id'', sq_body) \<in> small_stored (p_adapter p) sq_url \<and>
     (sq_item, None) \<in> set (handler_runs sq_trace) \<and> decodeMessageBody sq_read sq_body = Inr (Message sq_item)"
proof -
  obtain p p' where p: "sq_pool [sq_trace] p" "p_adapter p = sq_taken" "p_adapter p' = sq_taken\<lparr>sq_msgs := []\<rparr>"
    "pool_step (sqs_Consume sq_read sq_adapter) (sqs_Ack (client sq_adapter)) (sqs_Nack (client sq_adapter))
       (Some (0, DidSettle sq_item None None)) p p'" by (rule sq_pool_settles)
  have doc: "sqs_documented (client sq_adapter) small_stored small_handle" by (simp add: small_sqs_documented)
  have "\<forall>url. small_handle s url \<subseteq>\<^sub>m small_handle s' url" if "small_others R s s'" for R s s'
    using small_others_moves [OF that] by (simp add: sqs_moves_def)
  then have env: "\<forall>R s s'. small_others R s s' \<longrightarrow> (\<forall>url. small_handle s url \<subseteq>\<^sub>m small_handle s' url)" by blast
  have m: "(''id'', sq_body) \<in> small_stored (p_adapter p) sq_url" "(''id'', sq_body) \<notin> small_stored (p_adapter p') sq_url"
    by (simp_all add: p(2,3) small_stored_def sq_taken_def sq_loaded_def)
  from sqs_pool_delete_after_success [OF doc p(1) env p(4) m] p(1) m(1) show ?thesis by auto
qed

theorem sqs_pool_at_least_once_witness:
  "\<exists>p it. sq_pool [sq_trace @ [DidSettle sq_item None None]] p \<and>
     (it, None) \<in> set (handler_runs (sq_trace @ [DidSettle sq_item None None])) \<and> Message it = plain"
proof -
  obtain p where p: "sq_pool [sq_trace @ [DidSettle sq_item None None]] p" "p_adapter p = sq_taken\<lparr>sq_msgs := []\<rparr>"
    by (rule sq_pool_settles)
  have doc: "sqs_contract (client sq_adapter) small_stored small_handle small_lapsed" by (simp add: small_sqs_contract)
  have q: "map_of (queueURLs sq_adapter) ''jobs'' = Some sq_url" by simp
  have codec: "\<forall>m \<in> set [plain]. \<exists>d. sq_write m = Inr d \<and> sq_read d = Inr m" by (simp add: sq_write_def sq_read_def plain_def)
  have env: "\<forall>R s s'. small_others R s s' \<longrightarrow> sqs_moves small_stored small_handle small_lapsed s s'" by (simp add: small_others_moves)
  have "\<not> in_queue sq_write small_stored (p_adapter p) sq_url plain" "\<not> in_queue sq_write small_lapsed (p_adapter p) sq_url plain"
    by (simp_all add: p(2) in_queue_def small_stored_def small_lapsed_def sq_taken_def sq_loaded_def)
  with sqs_pool_at_least_once [OF doc q sq_publish codec p(1) env, of plain] p(1) show ?thesis by auto
qed

end
