(* ===== verification/CommandLine.thy ===== *)
theory CommandLine
  imports DemoProgram
begin

text \<open>
  The command line of \<open>go/examples/userservice/main.go\<close>: its three flags, Go's \<open>flag.Parse\<close> as far as string flags
  need it, and \<open>main\<close> up to the mode it runs.
\<close>

section \<open>The flags\<close>

record flags =
  fl_mode :: string
  fl_queue_listen :: string
  fl_queue_endpoint :: string

definition default_flags :: flags where
  "default_flags =
     \<lparr>fl_mode = ''demo'', fl_queue_listen = ''127.0.0.1:8081'', fl_queue_endpoint = ''http://127.0.0.1:8081''\<rparr>"

text \<open>Setting a flag by its name; \<open>None\<close> when no flag of that name is defined.\<close>

definition set_flag :: "string \<Rightarrow> string \<Rightarrow> flags \<Rightarrow> flags option" where
  "set_flag name value f =
     (if name = ''mode'' then Some (f\<lparr>fl_mode := value\<rparr>)
      else if name = ''queue_listen'' then Some (f\<lparr>fl_queue_listen := value\<rparr>)
      else if name = ''queue_endpoint'' then Some (f\<lparr>fl_queue_endpoint := value\<rparr>)
      else None)"

section \<open>flag.Parse\<close>

text \<open>What ends the process: a request for help with status 0, and an error with status 2, both after the usage message.\<close>

datatype flag_exit = Help | FlagError string

datatype flag_arg = NotAFlag | Terminator | BadSyntax | Flag string "string option"

definition split_value :: "string \<Rightarrow> string \<times> string option" where
  "split_value name =
     (let key = hd name # takeWhile (\<lambda>ch. ch \<noteq> CHR ''='') (tl name)
      in (key, if length key < length name then Some (drop (length key + 1) name) else None))"

definition read_arg :: "string \<Rightarrow> flag_arg" where
  "read_arg s =
     (if length s < 2 \<or> hd s \<noteq> CHR ''-'' then NotAFlag
      else if s = ''--'' then Terminator
      else let name = drop (if s ! 1 = CHR ''-'' then 2 else 1) s in
        if name = [] \<or> hd name = CHR ''-'' \<or> hd name = CHR ''='' then BadSyntax
        else (case split_value name of (key, v) \<Rightarrow> Flag key v))"

text \<open>The loop of \<open>Parse\<close>; a flag without \<open>=\<close> takes the next argument, whatever it looks like.\<close>

fun flag_parse :: "string list \<Rightarrow> flags \<Rightarrow> flag_exit + flags \<times> string list" where
  "flag_parse [] f = Inr (f, [])"
| "flag_parse (s # args) f =
     (case read_arg s of
        NotAFlag \<Rightarrow> Inr (f, s # args)
      | Terminator \<Rightarrow> Inr (f, args)
      | BadSyntax \<Rightarrow> Inl (FlagError (''bad flag syntax: '' @ s))
      | Flag name v \<Rightarrow>
          if set_flag name [] f = None
          then Inl (if name = ''help'' \<or> name = ''h'' then Help else FlagError (''flag provided but not defined: -'' @ name))
          else (case v of
                  Some value \<Rightarrow> flag_parse args (the (set_flag name value f))
                | None \<Rightarrow>
                    (case args of
                       [] \<Rightarrow> Inl (FlagError (''flag needs an argument: -'' @ name))
                     | value # rest \<Rightarrow> flag_parse rest (the (set_flag name value f)))))"

text \<open>\<open>main\<close>, called with the arguments after the program's name: it ends, or it runs a mode with these flags.\<close>

definition main_start :: "string list \<Rightarrow> flag_exit + (effect list \<times> exit) + (effect list \<times> run_mode \<times> flags)" where
  "main_start args =
     (case flag_parse args default_flags of
        Inl e \<Rightarrow> Inl e
      | Inr (f, rest) \<Rightarrow> Inr (map_sum id (\<lambda>(es, m). (es, m, f)) (main_mode (fl_mode f))))"

section \<open>Arguments that set a flag\<close>

definition flag_named :: "string \<Rightarrow> bool" where
  "flag_named name \<longleftrightarrow> name \<in> {''mode'', ''queue_listen'', ''queue_endpoint''}"

lemma set_flag_defined: "flag_named name \<longleftrightarrow> set_flag name value f \<noteq> None"
  by (simp add: flag_named_def set_flag_def)

lemma takeWhile_no_eq: "CHR ''='' \<notin> set xs \<Longrightarrow> takeWhile (\<lambda>ch. ch \<noteq> CHR ''='') (xs @ CHR ''='' # ys) = xs"
  by (induction xs) auto

lemma split_value_key:
  assumes "name \<noteq> []" and "CHR ''='' \<notin> set (tl name)"
  shows "split_value (name @ CHR ''='' # value) = (name, Some value)" and "split_value name = (name, None)"
proof -
  from assms(1) obtain c cs where n: "name = c # cs" by (cases name) auto
  with assms(2) have k: "CHR ''='' \<notin> set cs" by simp
  then have "takeWhile (\<lambda>ch. ch \<noteq> CHR ''='') cs = cs" by (induction cs) auto
  with takeWhile_no_eq [OF k] have "takeWhile (\<lambda>ch. ch \<noteq> CHR ''='') (cs @ CHR ''='' # value) = cs"
    "takeWhile (\<lambda>ch. ch \<noteq> CHR ''='') cs = cs" by (simp_all del: takeWhile_eq_all_conv)
  with n show "split_value (name @ CHR ''='' # value) = (name, Some value)" "split_value name = (name, None)"
    by (simp_all add: split_value_def Let_def del: takeWhile_eq_all_conv)
qed

text \<open>The three ways to spell a flag, with one minus sign or two.\<close>

lemma read_flag:
  assumes "flag_named name" and "dashes \<in> {''-'', ''--''}"
  shows "read_arg (dashes @ name @ CHR ''='' # value) = Flag name (Some value)" and "read_arg (dashes @ name) = Flag name None"
proof -
  from assms(1) have n: "name \<noteq> []" "CHR ''='' \<notin> set (tl name)" "hd name \<noteq> CHR ''-''" "hd name \<noteq> CHR ''=''"
    by (auto simp: flag_named_def)
  note s = split_value_key [OF n(1,2)]
  from n obtain c cs where c: "name = c # cs" "c \<noteq> CHR ''-''" "c \<noteq> CHR ''=''" by (cases name) auto
  from assms(2) show "read_arg (dashes @ name @ CHR ''='' # value) = Flag name (Some value)" "read_arg (dashes @ name) = Flag name None"
    using c s by (auto simp: read_arg_def Let_def)
qed

lemma parse_flag:
  assumes "flag_named name" and "dashes \<in> {''-'', ''--''}"
  shows "flag_parse ((dashes @ name @ CHR ''='' # value) # args) f = flag_parse args (the (set_flag name value f))"
    and "flag_parse ((dashes @ name) # value # args) f = flag_parse args (the (set_flag name value f))"
    and "flag_parse [dashes @ name] f = Inl (FlagError (''flag needs an argument: -'' @ name))"
proof -
  from assms(1) set_flag_defined obtain g where g: "set_flag name [] f = Some g" by blast
  note r = read_flag [OF assms]
  from r(1) g show "flag_parse ((dashes @ name @ CHR ''='' # value) # args) f = flag_parse args (the (set_flag name value f))"
    by simp
  from r(2) g show "flag_parse ((dashes @ name) # value # args) f = flag_parse args (the (set_flag name value f))"
    "flag_parse [dashes @ name] f = Inl (FlagError (''flag needs an argument: -'' @ name))" by simp_all
qed

text \<open>A way to set a flag: the minus signs, whether the value follows an equals sign, the name and the value.\<close>

type_synonym setting = "string \<times> bool \<times> string \<times> string"

definition well_spelled :: "setting \<Rightarrow> bool" where
  "well_spelled x = (case x of (dashes, joined, name, value) \<Rightarrow> flag_named name \<and> dashes \<in> {''-'', ''--''})"

definition flag_args :: "setting \<Rightarrow> string list" where
  "flag_args x =
     (case x of (dashes, joined, name, value) \<Rightarrow>
        if joined then [dashes @ name @ CHR ''='' # value] else [dashes @ name, value])"

definition apply_setting :: "setting \<Rightarrow> flags \<Rightarrow> flags" where
  "apply_setting x f = (case x of (dashes, joined, name, value) \<Rightarrow> the (set_flag name value f))"

text \<open>The value a flag has after some settings: the last one's, or the one it had.\<close>

fun last_given :: "string \<Rightarrow> setting list \<Rightarrow> string \<Rightarrow> string" where
  "last_given name [] d = d"
| "last_given name ((dashes, joined, n, value) # xs) d = last_given name xs (if n = name then value else d)"

lemma parse_settings:
  assumes "list_all well_spelled xs" and "rest = [] \<or> read_arg (hd rest) = NotAFlag"
  shows "flag_parse (concat (map flag_args xs) @ rest) f = Inr (fold apply_setting xs f, rest)"
  using assms(1)
proof (induction xs arbitrary: f)
  case Nil
  show ?case using assms(2) by (cases rest) auto
next
  case (Cons x xs)
  obtain dashes joined name v where x: "x = (dashes, joined, name, v)" by (metis prod_cases4)
  with Cons.prems have "flag_named name" "dashes \<in> {''-'', ''--''}" by (simp_all add: well_spelled_def)
  with parse_flag(1,2) Cons x show ?case by (cases joined) (simp_all add: flag_args_def apply_setting_def)
qed

lemma fold_settings:
  "list_all well_spelled xs \<Longrightarrow>
   fold apply_setting xs f =
     \<lparr>fl_mode = last_given ''mode'' xs (fl_mode f), fl_queue_listen = last_given ''queue_listen'' xs (fl_queue_listen f),
      fl_queue_endpoint = last_given ''queue_endpoint'' xs (fl_queue_endpoint f)\<rparr>"
proof (induction xs arbitrary: f)
  case (Cons x xs)
  obtain dashes joined name v where x: "x = (dashes, joined, name, v)" by (metis prod_cases4)
  with Cons.prems have "flag_named name" by (simp add: well_spelled_def)
  with Cons x show ?case by (auto simp: apply_setting_def set_flag_def flag_named_def)
qed simp

section \<open>Properties\<close>

text \<open>
  C36. The command line reaches the modes: for any sequence of settings of the three flags, spelled with one minus
  sign or two and with the value after an equals sign or in the next argument, and any further arguments, main logs the
  start of the mode that was given last, demo if none was, and runs that one, with the addresses that were given last or
  their defaults, whatever the values look like; with any other name as its mode it runs nothing and ends fatally with
  that name in its message.
\<close>

theorem command_line_roundtrip:
  assumes "list_all well_spelled xs" and "rest = [] \<or> read_arg (hd rest) = NotAFlag"
    and "mode = last_given ''mode'' xs ''demo''"
    and "f = \<lparr>fl_mode = mode, fl_queue_listen = last_given ''queue_listen'' xs ''127.0.0.1:8081'',
              fl_queue_endpoint = last_given ''queue_endpoint'' xs ''http://127.0.0.1:8081''\<rparr>"
    and "start = main_start (concat (map flag_args xs) @ rest)"
  shows "(mode = ''sync-server'' \<longrightarrow>
            start = Inr (Inr ([Log ''Starting in SYNC SERVER mode (traditional gRPC)''], SyncServer, f))) \<and>
    (mode = ''sync-client'' \<longrightarrow>
            start = Inr (Inr ([Log ''Starting in SYNC CLIENT mode (traditional gRPC)''], SyncClient, f))) \<and>
    (mode = ''async-server'' \<longrightarrow>
            start = Inr (Inr ([Log ''Starting in ASYNC SERVER mode (grpcq)''], AsyncServer, f))) \<and>
    (mode = ''async-client'' \<longrightarrow>
            start = Inr (Inr ([Log ''Starting in ASYNC CLIENT mode (grpcq)''], AsyncClient, f))) \<and>
    (mode = ''demo'' \<longrightarrow>
            start = Inr (Inr ([Log ''Starting in DEMO mode (async server + client)''], Demo, f))) \<and>
    (mode \<notin> {''sync-server'', ''sync-client'', ''async-server'', ''async-client'', ''demo''} \<longrightarrow>
            start = Inr (Inl (Fatalf (''Unknown mode: '' @ mode))))"
proof -
  have "flag_parse (concat (map flag_args xs) @ rest) default_flags = Inr (f, rest)" and "fl_mode f = mode"
    using parse_settings [OF assms(1,2), of default_flags] fold_settings [OF assms(1), of default_flags] assms(3,4)
    by (simp_all add: default_flags_def)
  then have start: "start = Inr (map_sum id (\<lambda>(es, m). (es, m, f)) (main_mode mode))" by (simp add: assms(5) main_start_def)
  show ?thesis unfolding start by (intro conjI impI) (simp_all add: main_mode_def)
qed

theorem command_line_roundtrip_witness:
  "main_start [''-mode=sync-client'', ''--queue_listen'', ''--mode'', ''-mode'', ''async-server'', ''extra''] =
     Inr (Inr ([Log ''Starting in ASYNC SERVER mode (grpcq)''], AsyncServer,
       \<lparr>fl_mode = ''async-server'', fl_queue_listen = ''--mode'', fl_queue_endpoint = ''http://127.0.0.1:8081''\<rparr>))"
proof -
  let ?xs = "[(''-'', True, ''mode'', ''sync-client''), (''--'', False, ''queue_listen'', ''--mode''), (''-'', False, ''mode'', ''async-server'')]"
  have "list_all well_spelled ?xs" by (simp add: well_spelled_def flag_named_def)
  moreover have "[''extra''] = [] \<or> read_arg (hd [''extra'']) = NotAFlag" by (simp add: read_arg_def)
  ultimately show ?thesis using command_line_roundtrip [of ?xs "[''extra'']", OF _ _ refl refl refl] by (simp add: flag_args_def)
qed

end
