(* ===== verification/GrpcBridge.thy ===== *)
theory GrpcBridge
  imports Producer Registry
begin

text \<open>
  \<open>go/grpc/client.go\<close> and \<open>go/grpc/server.go\<close>: generated gRPC stubs on top of a queue.

  On the client side a method path is split into service and method and the request is sent through the
  producer.  On the server side a method is wrapped into a handler that unmarshals the payload
  and calls it, with its signature checked by reflection.

  Protobuf is a parameter (\<open>marshal\<close>, \<open>unmarshal\<close>, the latter on the empty request it fills), and so are
  the relations of Go's type system that the reflective calls ask about: \<open>assignable\<close> between
  types, \<open>implements_error\<close> of a type, and \<open>type_of\<close> a request.  Types are known by name.
\<close>

section \<open>Client\<close>

text \<open>The loop that looks for the last slash below position \<open>n\<close>.\<close>

fun last_slash :: "string \<Rightarrow> nat \<Rightarrow> nat option" where
  "last_slash s 0 = None"
| "last_slash s (Suc i) = (if s ! i = CHR ''/'' then Some i else last_slash s i)"

definition parseMethodName :: "string \<Rightarrow> error + string \<times> string" where
  "parseMethodName fullMethod =
     (if fullMethod = [] \<or> hd fullMethod \<noteq> CHR ''/''
      then Inl (Msg (''invalid method name: '' @ fullMethod))
      else let rest = tl fullMethod in
           case last_slash rest (length rest) of
             None \<Rightarrow> Inl (Msg (''invalid method name format: '' @ rest))
           | Some i \<Rightarrow> Inr (take i rest, drop (i + 1) rest))"

definition extractMetadata :: "'opt list \<Rightarrow> str_map" where
  "extractMetadata opts = []"

record AsyncClientConn =
  conn_producer :: Producer
  conn_queueName :: string

definition NewAsyncClientConn :: "Producer \<Rightarrow> string \<Rightarrow> AsyncClientConn" where
  "NewAsyncClientConn producer queueName = \<lparr>conn_producer = producer, conn_queueName = queueName\<rparr>"

text \<open>\<open>args\<close> is the request if it is a \<open>proto.Message\<close>.  The reply is never written.\<close>

definition conn_Invoke ::
  "('p \<Rightarrow> error + bytes) \<Rightarrow> (ctx \<Rightarrow> string \<Rightarrow> message list \<Rightarrow> 'a \<Rightarrow> error option \<times> 'a) \<Rightarrow> string \<Rightarrow> int \<Rightarrow>
   AsyncClientConn \<Rightarrow> ctx \<Rightarrow> string \<Rightarrow> 'p option \<Rightarrow> 'opt list \<Rightarrow> 'a \<Rightarrow> error option \<times> 'a" where
  "conn_Invoke marshal publish uuid now conn c fullMethod args opts a =
     (case parseMethodName fullMethod of
        Inl err \<Rightarrow> (Some err, a)
      | Inr (serviceName, methodName) \<Rightarrow>
          (case args of
             None \<Rightarrow> (Some (Msg ''args must be a proto.Message''), a)
           | Some req \<Rightarrow>
               (case Send marshal publish uuid now (conn_producer conn) c (conn_queueName conn) serviceName methodName
                       req (extractMetadata opts) a of
                  (Some err, a') \<Rightarrow> (Some (Wrap ''failed to publish message: '' err ''''), a')
                | (None, a') \<Rightarrow> (None, a'))))"

definition NewStream :: "AsyncClientConn \<Rightarrow> ctx \<Rightarrow> string \<Rightarrow> 'opt list \<Rightarrow> error + unit" where
  "NewStream conn c fullMethod opts = Inl (Msg ''streaming RPCs are not supported in async queue mode'')"

record ClientAdapter =
  ca_producer :: Producer
  ca_queueName :: string

definition NewClientAdapter :: "Producer \<Rightarrow> string \<Rightarrow> ClientAdapter" where
  "NewClientAdapter producer queueName = \<lparr>ca_producer = producer, ca_queueName = queueName\<rparr>"

definition Conn :: "ClientAdapter \<Rightarrow> AsyncClientConn" where
  "Conn c = NewAsyncClientConn (ca_producer c) (ca_queueName c)"

section \<open>Reflective calls\<close>

text \<open>
  A result of a call, as \<open>valueAsError\<close> sees it: nil of a nilable kind, a value that is an error, or
  another value.
\<close>

datatype goResult = NilResult | ErrResult error | OtherResult

text \<open>A function value: parameter and result types, and its body; a nil function has none.\<close>

record ('p, 's) goFunc =
  fn_In :: "string list"
  fn_Out :: "string list"
  fn_body :: "(ctx \<Rightarrow> 'p \<Rightarrow> 's \<Rightarrow> goResult list \<times> 's) option"

record goTypes =
  assignable :: "string \<Rightarrow> string \<Rightarrow> bool"
  implements_error :: "string \<Rightarrow> bool"

definition contextType :: string where
  "contextType = ''context.Context''"

definition valueAsError :: "goResult \<Rightarrow> error option" where
  "valueAsError v =
     (case v of
        NilResult \<Rightarrow> None
      | ErrResult err \<Rightarrow> Some err
      | OtherResult \<Rightarrow> Some (Msg ''method returned non-error type''))"

definition check_results :: "goTypes \<Rightarrow> string list \<Rightarrow> error option" where
  "check_results ty outs =
     (case outs of
        [t] \<Rightarrow> if implements_error ty t then None else Some (Msg ''unsupported method return signature'')
      | [_, t] \<Rightarrow> if implements_error ty t then None else Some (Msg ''second return value must implement error'')
      | _ \<Rightarrow> Some (Msg ''unsupported method return signature''))"

definition invokeUnaryMethod ::
  "goTypes \<Rightarrow> ('p \<Rightarrow> string) \<Rightarrow> ('p, 's) goFunc option \<Rightarrow> ctx \<Rightarrow> 'p option \<Rightarrow> 's \<Rightarrow> error option \<times> 's" where
  "invokeUnaryMethod ty type_of methodFunc c req s =
     (case methodFunc of
        None \<Rightarrow> (Some (Msg ''methodFunc must be a function''), s)
      | Some fn \<Rightarrow>
          if length (fn_In fn) \<noteq> 2 \<or> \<not> assignable ty contextType (fn_In fn ! 0)
          then (Some (Msg ''unsupported method signature''), s)
          else
     (case req of
        None \<Rightarrow> (Some (Msg ''request cannot be nil''), s)
      | Some r \<Rightarrow>
          if \<not> assignable ty (type_of r) (fn_In fn ! 1)
          then (Some (Msg (''unsupported request type: got '' @ type_of r @ '', want '' @ fn_In fn ! 1)), s)
          else
     (case check_results ty (fn_Out fn) of
        Some err \<Rightarrow> (Some err, s)
      | None \<Rightarrow>
     (case fn_body fn of
        None \<Rightarrow> (Some (Panic ''reflect: call of nil function''), s)
      | Some body \<Rightarrow>
          (let (results, s') = body c r s in (valueAsError (results ! (length results - 1)), s'))))))"

section \<open>Server\<close>

record 's MethodHandler =
  mh_ServiceName :: string
  mh_MethodName :: string
  mh_Handler :: "'s Handler"

definition unmarshal_request :: "('p \<Rightarrow> bytes \<Rightarrow> error + 'p) \<Rightarrow> 'p \<Rightarrow> message \<Rightarrow> error + 'p" where
  "unmarshal_request unmarshal newRequest msg =
     (case unmarshal newRequest (Payload msg) of
        Inl err \<Rightarrow> Inl (Wrap ''failed to unmarshal request: '' err '''')
      | Inr req \<Rightarrow> Inr req)"

definition UnaryServerAdapter ::
  "goTypes \<Rightarrow> ('p \<Rightarrow> string) \<Rightarrow> ('p \<Rightarrow> bytes \<Rightarrow> error + 'p) \<Rightarrow>
   string \<Rightarrow> string \<Rightarrow> ('p, 's) goFunc option \<Rightarrow> 'p \<Rightarrow> 's MethodHandler" where
  "UnaryServerAdapter ty type_of unmarshal serviceName methodName methodFunc newRequest =
     \<lparr>mh_ServiceName = serviceName, mh_MethodName = methodName,
      mh_Handler = (\<lambda>c msg s.
        case unmarshal_request unmarshal newRequest msg of
          Inl err \<Rightarrow> (Some err, s)
        | Inr req \<Rightarrow>
            (case invokeUnaryMethod ty type_of methodFunc c (Some req) s of
               (Some err, s') \<Rightarrow> (Some (Wrap (''method '' @ methodName @ '' failed: '') err ''''), s')
             | (None, s') \<Rightarrow> (None, s')))\<rparr>"

record 's ServerAdapter =
  sa_serviceName :: string
  sa_handlers :: "'s MethodHandler list"

definition NewServerAdapter :: "string \<Rightarrow> 's ServerAdapter" where
  "NewServerAdapter serviceName = \<lparr>sa_serviceName = serviceName, sa_handlers = []\<rparr>"

definition sa_RegisterMethod :: "string \<Rightarrow> 's Handler \<Rightarrow> 's ServerAdapter \<Rightarrow> 's ServerAdapter" where
  "sa_RegisterMethod methodName handler sa =
     sa\<lparr>sa_handlers := sa_handlers sa @
        [\<lparr>mh_ServiceName = sa_serviceName sa, mh_MethodName = methodName, mh_Handler = handler\<rparr>]\<rparr>"

text \<open>A method with the static signature \<open>func(ctx, req) (resp, error)\<close>: its error and its effect.\<close>

type_synonym ('p, 's) unary_method = "ctx \<Rightarrow> 'p \<Rightarrow> 's \<Rightarrow> error option \<times> 's"

definition RegisterUnary ::
  "('p \<Rightarrow> bytes \<Rightarrow> error + 'p) \<Rightarrow> string \<Rightarrow> ('p, 's) unary_method \<Rightarrow> 'p \<Rightarrow> 's ServerAdapter \<Rightarrow> 's ServerAdapter" where
  "RegisterUnary unmarshal methodName methodFunc newRequest sa =
     sa_RegisterMethod methodName
       (\<lambda>c msg s.
          case unmarshal_request unmarshal newRequest msg of
            Inl err \<Rightarrow> (Some err, s)
          | Inr req \<Rightarrow>
              (case methodFunc c req s of
                 (Some err, s') \<Rightarrow> (Some (Wrap (''method '' @ methodName @ '' failed: '') err ''''), s')
               | (None, s') \<Rightarrow> (None, s'))) sa"

definition GetHandlers :: "'s ServerAdapter \<Rightarrow> 's MethodHandler list" where
  "GetHandlers sa = sa_handlers sa"

definition WrapUnaryMethod :: "('p \<Rightarrow> bytes \<Rightarrow> error + 'p) \<Rightarrow> ('p, 's) unary_method \<Rightarrow> 'p \<Rightarrow> 's Handler" where
  "WrapUnaryMethod unmarshal methodFunc newRequest =
     (\<lambda>c msg s.
        case unmarshal_request unmarshal newRequest msg of
          Inl err \<Rightarrow> (Some err, s)
        | Inr req \<Rightarrow> methodFunc c req s)"

section \<open>Facts\<close>

lemma last_slash_Some:
  "last_slash s n = Some i \<longleftrightarrow> i < n \<and> s ! i = CHR ''/'' \<and> (\<forall>j. i < j \<and> j < n \<longrightarrow> s ! j \<noteq> CHR ''/'')"
proof (induction n)
  case (Suc n)
  show ?case
  proof (cases "s ! n = CHR ''/''")
    case True
    have "i = n" if "i < Suc n" "\<forall>j. i < j \<and> j < Suc n \<longrightarrow> s ! j \<noteq> CHR ''/''"
      using that True by (metis less_Suc_eq)
    with True show ?thesis by auto
  next
    case False
    with Suc show ?thesis by (auto simp: less_Suc_eq)
  qed
qed simp

lemma last_slash_split:
  "last_slash s (length s) = Some i \<longleftrightarrow>
   i < length s \<and> s = take i s @ CHR ''/'' # drop (Suc i) s \<and> CHR ''/'' \<notin> set (drop (Suc i) s)"
proof -
  have "CHR ''/'' \<notin> set (drop (Suc i) s) \<longleftrightarrow> (\<forall>j. i < j \<and> j < length s \<longrightarrow> s ! j \<noteq> CHR ''/'')"
  proof -
    have "(\<exists>k < length s - Suc i. drop (Suc i) s ! k = CHR ''/'') \<longleftrightarrow> (\<exists>j. i < j \<and> j < length s \<and> s ! j = CHR ''/'')"
    proof
      assume "\<exists>k < length s - Suc i. drop (Suc i) s ! k = CHR ''/''"
      then obtain k where k: "k < length s - Suc i" "drop (Suc i) s ! k = CHR ''/''" by blast
      then have "s ! (Suc i + k) = CHR ''/''" by simp
      with k(1) show "\<exists>j. i < j \<and> j < length s \<and> s ! j = CHR ''/''" by (intro exI [of _ "Suc i + k"]) auto
    next
      assume "\<exists>j. i < j \<and> j < length s \<and> s ! j = CHR ''/''"
      then obtain j where j: "i < j" "j < length s" "s ! j = CHR ''/''" by blast
      then have "drop (Suc i) s ! (j - Suc i) = CHR ''/''" by simp
      with j show "\<exists>k < length s - Suc i. drop (Suc i) s ! k = CHR ''/''" by (intro exI [of _ "j - Suc i"]) auto
    qed
    then show ?thesis by (auto simp: in_set_conv_nth)
  qed
  moreover have "i < length s \<Longrightarrow> s ! i = CHR ''/'' \<longleftrightarrow> s = take i s @ CHR ''/'' # drop (Suc i) s"
    by (metis append_eq_append_conv id_take_nth_drop list.inject)
  ultimately show ?thesis by (auto simp: last_slash_Some)
qed

lemma last_slash_found:
  assumes "CHR ''/'' \<notin> set m"
  shows "last_slash (s @ CHR ''/'' # m) (length (s @ CHR ''/'' # m)) = Some (length s)"
  using assms unfolding last_slash_split by simp

lemma parseMethodName_path:
  "CHR ''/'' \<notin> set m \<Longrightarrow> parseMethodName (CHR ''/'' # s @ CHR ''/'' # m) = Inr (s, m)"
  using last_slash_found [of m s] by (simp add: parseMethodName_def Let_def)

section \<open>Properties\<close>

text \<open>
  parseMethodName accepts exactly the paths of the form /service/method and returns their two
  parts: the method is what follows the last slash, and the service, which may itself contain
  slashes, is what stands between.
\<close>

lemma parseMethodName_exact:
  "parseMethodName f = Inr (s, m) \<longleftrightarrow> f = CHR ''/'' # s @ CHR ''/'' # m \<and> CHR ''/'' \<notin> set m"
proof
  assume p: "parseMethodName f = Inr (s, m)"
  then obtain rest i where f: "f = CHR ''/'' # rest" "last_slash rest (length rest) = Some i"
    "s = take i rest" "m = drop (i + 1) rest"
    by (cases f) (auto simp: parseMethodName_def Let_def split: if_splits option.splits)
  from f(2) [unfolded last_slash_split] f(1,3,4) show "f = CHR ''/'' # s @ CHR ''/'' # m \<and> CHR ''/'' \<notin> set m" by simp
next
  assume "f = CHR ''/'' # s @ CHR ''/'' # m \<and> CHR ''/'' \<notin> set m"
  then show "parseMethodName f = Inr (s, m)"
    by (simp add: parseMethodName_path)
qed

text \<open>
  The reflective and the static way of wrapping a method agree: for a function whose signature
  passes the checks, the handler UnaryServerAdapter builds is the one RegisterUnary registers for
  the method that returns the error of the function's last result.
\<close>

lemma UnaryServerAdapter_agrees:
  assumes "fn_In fn = [t0, t1]" and "assignable ty contextType t0" and "\<And>r. assignable ty (type_of r) t1"
    and "check_results ty (fn_Out fn) = None" and "fn_body fn = Some body"
  shows "GetHandlers (RegisterUnary unmarshal methodName
      (\<lambda>c r s. (valueAsError (fst (body c r s) ! (length (fst (body c r s)) - 1)), snd (body c r s)))
      newRequest (NewServerAdapter serviceName)) =
    [UnaryServerAdapter ty type_of unmarshal serviceName methodName (Some fn) newRequest]"
  using assms
  by (auto simp: GetHandlers_def RegisterUnary_def sa_RegisterMethod_def NewServerAdapter_def UnaryServerAdapter_def
      invokeUnaryMethod_def fun_eq_iff case_prod_beta Let_def split: sum.split option.split)

text \<open>
  A method is called only when its signature fits: if invokeUnaryMethod changes the application
  state at all, the function takes a context and the request's type, returns an error last, and
  the change is that of one call.
\<close>

lemma invokeUnaryMethod_calls:
  assumes "invokeUnaryMethod ty type_of methodFunc c req s = (ret, s')" and "s' \<noteq> s"
  shows "\<exists>fn r body. methodFunc = Some fn \<and> req = Some r \<and> fn_body fn = Some body \<and>
    length (fn_In fn) = 2 \<and> assignable ty contextType (fn_In fn ! 0) \<and> assignable ty (type_of r) (fn_In fn ! 1) \<and>
    check_results ty (fn_Out fn) = None \<and> s' = snd (body c r s) \<and>
    ret = valueAsError (fst (body c r s) ! (length (fst (body c r s)) - 1))"
  using assms by (auto simp: invokeUnaryMethod_def Let_def case_prod_beta split: option.splits if_splits)

end
