(* ===== verification/UserGrpc.thy ===== *)
theory UserGrpc
  imports UserService GrpcBridge
begin

text \<open>
  \<open>go/examples/userservice/proto/user_grpc.pb.go\<close>: the plain gRPC client and server of the example service, and
  what ties them to the queue: the same service behind both servers, and the gRPC client on the
  connection of \<open>go/grpc/client.go\<close>.

  The gRPC library is outside the repository.  A connection is its \<open>Invoke\<close>, at the type of the reply: it gets the
  empty reply and returns it, filled or not.  A registrar is the function \<open>RegisterService\<close> on its
  state.  \<open>dec\<close>, which a server hands to a method handler, decodes the request into the empty one it is given.
  A service is a record of its methods on a state \<open>'s\<close>.
\<close>

section \<open>Client\<close>

definition UserService_CreateUser_FullMethodName :: string where
  "UserService_CreateUser_FullMethodName = ''/userservice.UserService/CreateUser''"

definition UserService_GetUser_FullMethodName :: string where
  "UserService_GetUser_FullMethodName = ''/userservice.UserService/GetUser''"

datatype 'opt grpc_option = StaticMethod | CallOption 'opt

type_synonym ('opt, 'reply, 'w) conn_call =
  "ctx \<Rightarrow> string \<Rightarrow> request \<Rightarrow> 'reply \<Rightarrow> 'opt grpc_option list \<Rightarrow> 'w \<Rightarrow> error option \<times> 'reply \<times> 'w"

definition new_CreateUserResponse :: CreateUserResponse where
  "new_CreateUserResponse = \<lparr>cr_UserId = [], cr_Name = [], cr_Email = []\<rparr>"

definition new_GetUserResponse :: GetUserResponse where
  "new_GetUserResponse = \<lparr>gr_UserId = [], gr_Name = [], gr_Email = []\<rparr>"

definition stub_CreateUser ::
  "('opt, CreateUserResponse, 'w) conn_call \<Rightarrow> ctx \<Rightarrow> CreateUserRequest \<Rightarrow> 'opt list \<Rightarrow> 'w \<Rightarrow>
   (error + CreateUserResponse) \<times> 'w" where
  "stub_CreateUser cc_Invoke c req opts w =
     (let cOpts = [StaticMethod] @ map CallOption opts in
      case cc_Invoke c UserService_CreateUser_FullMethodName (ReqCreate req) new_CreateUserResponse cOpts w of
        (Some err, out, w') \<Rightarrow> (Inl err, w')
      | (None, out, w') \<Rightarrow> (Inr out, w'))"

definition stub_GetUser ::
  "('opt, GetUserResponse, 'w) conn_call \<Rightarrow> ctx \<Rightarrow> GetUserRequest \<Rightarrow> 'opt list \<Rightarrow> 'w \<Rightarrow>
   (error + GetUserResponse) \<times> 'w" where
  "stub_GetUser cc_Invoke c req opts w =
     (let cOpts = [StaticMethod] @ map CallOption opts in
      case cc_Invoke c UserService_GetUser_FullMethodName (ReqGet req) new_GetUserResponse cOpts w of
        (Some err, out, w') \<Rightarrow> (Inl err, w')
      | (None, out, w') \<Rightarrow> (Inr out, w'))"

section \<open>Server\<close>

record 's UserServiceServer =
  uss_CreateUser :: "ctx \<Rightarrow> CreateUserRequest \<Rightarrow> 's \<Rightarrow> (error + CreateUserResponse) \<times> 's"
  uss_GetUser :: "ctx \<Rightarrow> GetUserRequest \<Rightarrow> 's \<Rightarrow> (error + GetUserResponse) \<times> 's"

definition UnimplementedUserServiceServer :: "(string \<Rightarrow> string \<Rightarrow> error) \<Rightarrow> 's UserServiceServer" where
  "UnimplementedUserServiceServer status_Error =
     \<lparr>uss_CreateUser = (\<lambda>c req s. (Inl (status_Error ''Unimplemented'' ''method CreateUser not implemented''), s)),
      uss_GetUser = (\<lambda>c req s. (Inl (status_Error ''Unimplemented'' ''method GetUser not implemented''), s))\<rparr>"

text \<open>The service of \<open>service.go\<close> embeds the unimplemented one and overrides both of its methods.\<close>

definition user_service :: "(string \<Rightarrow> string \<Rightarrow> error) \<Rightarrow> UserService UserServiceServer" where
  "user_service status_Error =
     (UnimplementedUserServiceServer status_Error)
       \<lparr>uss_CreateUser := CreateUser status_Error, uss_GetUser := GetUser status_Error\<rparr>"

text \<open>
  A handler passes on the request, directly or through an interceptor, which gets the request, the path of the
  method and the call to make.  The call asserts the type of the request it is given.
\<close>

type_synonym 's unary_call = "ctx \<Rightarrow> request \<Rightarrow> 's \<Rightarrow> (error + response) \<times> 's"

type_synonym 's interceptor = "ctx \<Rightarrow> request \<Rightarrow> string \<Rightarrow> 's unary_call \<Rightarrow> 's \<Rightarrow> (error + response) \<times> 's"

type_synonym 's method_handler =
  "'s UserServiceServer \<Rightarrow> ctx \<Rightarrow> (request \<Rightarrow> error + request) \<Rightarrow> 's interceptor option \<Rightarrow> 's \<Rightarrow> (error + response) \<times> 's"

definition call_CreateUser :: "'s UserServiceServer \<Rightarrow> 's unary_call" where
  "call_CreateUser srv c req s =
     (case req of
        ReqCreate r \<Rightarrow> map_prod (map_sum id RespCreate) id (uss_CreateUser srv c r s)
      | ReqGet _ \<Rightarrow> (Inl (Panic ''interface conversion''), s))"

definition call_GetUser :: "'s UserServiceServer \<Rightarrow> 's unary_call" where
  "call_GetUser srv c req s =
     (case req of
        ReqGet r \<Rightarrow> map_prod (map_sum id RespGet) id (uss_GetUser srv c r s)
      | ReqCreate _ \<Rightarrow> (Inl (Panic ''interface conversion''), s))"

definition UserService_CreateUser_Handler :: "'s method_handler" where
  "UserService_CreateUser_Handler srv c dec interceptor s =
     (case dec (ReqCreate \<lparr>cu_Name = [], cu_Email = []\<rparr>) of
        Inl err \<Rightarrow> (Inl err, s)
      | Inr req \<Rightarrow>
          (case interceptor of
             None \<Rightarrow> call_CreateUser srv c req s
           | Some icept \<Rightarrow> icept c req UserService_CreateUser_FullMethodName (call_CreateUser srv) s))"

definition UserService_GetUser_Handler :: "'s method_handler" where
  "UserService_GetUser_Handler srv c dec interceptor s =
     (case dec (ReqGet \<lparr>gu_UserId = []\<rparr>) of
        Inl err \<Rightarrow> (Inl err, s)
      | Inr req \<Rightarrow>
          (case interceptor of
             None \<Rightarrow> call_GetUser srv c req s
           | Some icept \<Rightarrow> icept c req UserService_GetUser_FullMethodName (call_GetUser srv) s))"

record 's ServiceDesc =
  sd_ServiceName :: string
  sd_Methods :: "(string \<times> 's method_handler) list"
  sd_Metadata :: string

definition UserService_ServiceDesc :: "'s ServiceDesc" where
  "UserService_ServiceDesc =
     \<lparr>sd_ServiceName = ''userservice.UserService'',
      sd_Methods = [(''CreateUser'', UserService_CreateUser_Handler), (''GetUser'', UserService_GetUser_Handler)],
      sd_Metadata = ''user.proto''\<rparr>"

text \<open>
  How a service embeds \<open>UnimplementedUserServiceServer\<close>: a method promoted from an embedded nil pointer
  panics when it is called.
\<close>

datatype embedding = NotEmbedded | ByValue | NilPointer

definition RegisterUserServiceServer ::
  "('s ServiceDesc \<Rightarrow> 's UserServiceServer \<Rightarrow> 'g \<Rightarrow> 'g) \<Rightarrow> embedding \<Rightarrow> 's UserServiceServer \<Rightarrow> 'g \<Rightarrow> error + 'g" where
  "RegisterUserServiceServer register_service emb srv g =
     (if emb = NilPointer then Inl (Panic ''nil pointer dereference'')
      else Inr (register_service UserService_ServiceDesc srv g))"

section \<open>The connection to a queue\<close>

text \<open>\<open>AsyncClientConn\<close> as a gRPC connection: a request is a \<open>proto.Message\<close>, the reply is not written.\<close>

definition async_conn ::
  "(request \<Rightarrow> error + bytes) \<Rightarrow> (ctx \<Rightarrow> string \<Rightarrow> message list \<Rightarrow> 'a \<Rightarrow> error option \<times> 'a) \<Rightarrow> string \<Rightarrow> int \<Rightarrow>
   AsyncClientConn \<Rightarrow> ('opt, 'reply, 'a) conn_call" where
  "async_conn marshal publish uuid now conn c fullMethod args reply opts a =
     (case conn_Invoke marshal publish uuid now conn c fullMethod (Some args) opts a of (err, a') \<Rightarrow> (err, reply, a'))"

section \<open>Facts\<close>

lemma full_method_names:
  "parseMethodName UserService_CreateUser_FullMethodName = Inr (service_name, ''CreateUser'')"
  "parseMethodName UserService_GetUser_FullMethodName = Inr (service_name, ''GetUser'')"
  using parseMethodName_path [of "''CreateUser''" service_name] parseMethodName_path [of "''GetUser''" service_name]
  by (simp_all add: UserService_CreateUser_FullMethodName_def UserService_GetUser_FullMethodName_def service_name_def)

lemma closures_are_calls:
  "create_closure st = call_CreateUser (user_service st)" "get_closure st = call_GetUser (user_service st)"
  by (simp_all add: fun_eq_iff create_closure_def get_closure_def call_CreateUser_def call_GetUser_def user_service_def
      split: request.split)

lemma plain_handlers:
  "UserService_CreateUser_Handler srv c dec None s =
     (case dec (ReqCreate \<lparr>cu_Name = [], cu_Email = []\<rparr>) of Inl err \<Rightarrow> (Inl err, s) | Inr req \<Rightarrow> call_CreateUser srv c req s)"
  "UserService_GetUser_Handler srv c dec None s =
     (case dec (ReqGet \<lparr>gu_UserId = []\<rparr>) of Inl err \<Rightarrow> (Inl err, s) | Inr req \<Rightarrow> call_GetUser srv c req s)"
  by (simp_all add: UserService_CreateUser_Handler_def UserService_GetUser_Handler_def split: sum.split)

lemma desc_methods:
  "(mth, h) \<in> set (sd_Methods UserService_ServiceDesc) \<longleftrightarrow>
     (mth = ''CreateUser'' \<and> h = UserService_CreateUser_Handler) \<or> (mth = ''GetUser'' \<and> h = UserService_GetUser_Handler)"
  by (auto simp: UserService_ServiceDesc_def)

text \<open>
  What the two handlers of a method have in common: \<open>r\<close> is the result of the gRPC one, \<open>async\<close> that of the
  queue's, and \<open>decodes\<close> says that the payload is a request.
\<close>

definition same_outcome :: "bool \<Rightarrow> (error + 'q) \<Rightarrow> error option \<Rightarrow> bool" where
  "same_outcome decodes r async \<longleftrightarrow>
     (async = None \<longleftrightarrow> \<not> isl r) \<and>
     (decodes \<longrightarrow> async = (case r of Inl err \<Rightarrow> Some err | Inr resp \<Rightarrow> None))"

lemma wrapped_same_outcome:
  assumes "unmarshal new = Some (um new)"
    and "(case um new (Payload msg) of Inl err \<Rightarrow> (Inl err, s) | Inr req \<Rightarrow> call c req s) = (r, s1)"
  shows "\<exists>async. wrappedHandler unmarshal call new c msg s = (async, s1) \<and>
    same_outcome (\<forall>v. \<not> isl (um v (Payload msg))) r async"
proof (cases "um new (Payload msg)")
  case (Inl err)
  then have "isl (um new (Payload msg))" by simp
  then have "\<not> (\<forall>v. \<not> isl (um v (Payload msg)))" by blast
  with Inl assms show ?thesis by (auto simp: wrappedHandler_def same_outcome_def)
next
  case (Inr req)
  with assms show ?thesis by (auto simp: wrappedHandler_def same_outcome_def split: sum.split)
qed

section \<open>Properties\<close>

text \<open>
  C11. One service, two servers: the methods of the gRPC service descriptor are exactly those the queue consumer
  registers, under the same service name; and for every message, payload and state of the service the two
  handlers of a method leave the same state behind, the queue handler reports no error exactly
  when the gRPC handler returns a response, and for a payload that decodes both report the same error.
\<close>

theorem sync_async_agree:
  assumes "\<And>v. unmarshal v = Some (um v)"
    and "(mth, h) \<in> set (sd_Methods UserService_ServiceDesc)"
    and "Topic msg = sd_ServiceName UserService_ServiceDesc" and "Action msg = mth"
    and "h (user_service st) c (\<lambda>v. um v (Payload msg)) None s = (sync, s1)"
  shows "(reg_lookup (srv_registry (RegisterUserServiceConsumer st unmarshal opts)) (svc, act) \<noteq> None \<longleftrightarrow>
      svc = sd_ServiceName UserService_ServiceDesc \<and> act \<in> fst ` set (sd_Methods UserService_ServiceDesc)) \<and>
    (\<exists>async. Handle (srv_registry (RegisterUserServiceConsumer st unmarshal opts)) c msg s = (async, s1) \<and>
       same_outcome (\<forall>v. \<not> isl (um v (Payload msg))) sync async)"
  (is "_ \<and> (\<exists>async. Handle ?reg c msg s = _ \<and> _)")
proof
  show "reg_lookup (srv_registry (RegisterUserServiceConsumer st unmarshal opts)) (svc, act) \<noteq> None \<longleftrightarrow>
      svc = sd_ServiceName UserService_ServiceDesc \<and> act \<in> fst ` set (sd_Methods UserService_ServiceDesc)"
    by (auto simp: consumer_methods UserService_ServiceDesc_def service_name_def)
  have topic: "Topic msg = service_name" using assms(3) by (simp add: UserService_ServiceDesc_def service_name_def)
  from assms(2) consider "mth = ''CreateUser''" "h = UserService_CreateUser_Handler" |
    "mth = ''GetUser''" "h = UserService_GetUser_Handler" unfolding desc_methods by blast
  then show "\<exists>async. Handle ?reg c msg s = (async, s1) \<and>
       same_outcome (\<forall>v. \<not> isl (um v (Payload msg))) sync async"
  proof cases
    case 1
    let ?new = "ReqCreate \<lparr>cu_Name = [], cu_Email = []\<rparr>"
    have "Handle ?reg c msg s =
        wrappedHandler unmarshal (create_closure st) ?new c msg s"
      by (rule Handle_found) (use topic assms(4) 1 in \<open>simp add: consumer_methods\<close>)
    with wrapped_same_outcome [of unmarshal ?new um s "call_CreateUser (user_service st)" c msg sync s1] assms(1,5) 1 show ?thesis
      by (simp add: plain_handlers closures_are_calls)
  next
    case 2
    let ?new = "ReqGet \<lparr>gu_UserId = []\<rparr>"
    have "Handle ?reg c msg s =
        wrappedHandler unmarshal (get_closure st) ?new c msg s"
      by (rule Handle_found) (use topic assms(4) 2 in \<open>simp add: consumer_methods\<close>)
    with wrapped_same_outcome [of unmarshal ?new um s "call_GetUser (user_service st)" c msg sync s1] assms(1,5) 2 show ?thesis
      by (simp add: plain_handlers closures_are_calls)
  qed
qed

theorem sync_async_agree_witness:
  "Handle (srv_registry (RegisterUserServiceConsumer (\<lambda>_. Ext) (\<lambda>_. Some (\<lambda>_. Inr (ReqCreate ann))) []))
      None (envelope (NewProducer ''svc'') ''userservice.UserService'' ''CreateUser'' ''x'' ''id'' 5 []) (NewUserService 7) =
    (None, snd (CreateUser (\<lambda>_. Ext) None ann (NewUserService 7)))"
proof -
  let ?msg = "envelope (NewProducer ''svc'') ''userservice.UserService'' ''CreateUser'' ''x'' ''id'' 5 []"
  let ?s1 = "snd (CreateUser (\<lambda>_. Ext) None ann (NewUserService 7))"
  let ?sync = "Inr (RespCreate (projr (fst (CreateUser (\<lambda>_. Ext) None ann (NewUserService 7)))))"
  have "UserService_CreateUser_Handler (user_service (\<lambda>_. Ext)) None (\<lambda>v. Inr (ReqCreate ann)) None (NewUserService 7) = (?sync, ?s1)"
    by (simp add: plain_handlers call_CreateUser_def user_service_def CreateUser_def ann_def Let_def)
  from conjunct2 [OF sync_async_agree [of "\<lambda>_. Some (\<lambda>_. Inr (ReqCreate ann))" "\<lambda>_ _. Inr (ReqCreate ann)" "''CreateUser''"
        UserService_CreateUser_Handler ?msg, OF refl _ _ _ this]]
  show ?thesis by (auto simp: UserService_ServiceDesc_def same_outcome_def envelope_def)
qed

text \<open>
  C27. A gRPC client over the queue: the generated CreateUser of a client whose connection is a ClientAdapter's either
  fails and leaves the in-memory adapter's queues as they were, or puts exactly one message at the back of the
  adapter's queue, on which the consumer of the service runs CreateUser with the very request of the call; the
  response it returns is empty, since no reply ever comes.
\<close>

theorem stub_over_queue:
  assumes "mem_inv a" and "unmarshal (ReqCreate \<lparr>cu_Name = [], cu_Email = []\<rparr>) = Some um"
    and "\<And>payload. marshal (ReqCreate req) = Inr payload \<Longrightarrow> um payload = Inr (ReqCreate req)"
    and "stub_CreateUser (async_conn marshal Publish uuid now (Conn (NewClientAdapter p q))) c req opts a = (r, a')"
  shows "case r of
      Inl err \<Rightarrow> pending a' = pending a
    | Inr resp \<Rightarrow> resp = new_CreateUserResponse \<and>
        (\<exists>msg. pending a' = (pending a)(q := pending a q @ [msg]) \<and> Originator msg = originator p \<and> MessageId msg = uuid \<and>
          Handle (srv_registry (RegisterUserServiceConsumer st unmarshal sopts)) c' msg s =
            (case CreateUser st c' req s of (Inl err, s') \<Rightarrow> (Some err, s') | (Inr created, s') \<Rightarrow> (None, s')))"
  (is "case r of Inl err \<Rightarrow> _ | Inr resp \<Rightarrow> _ \<and> (\<exists>msg. _ \<and> _ \<and> _ \<and> Handle ?reg c' msg s = _)")
proof -
  let ?send = "Send marshal Publish uuid now p c q service_name ''CreateUser'' (ReqCreate req) [] a"
  have stub: "(r, a') = (case ?send of
      (Some err, a') \<Rightarrow> (Inl (Wrap ''failed to publish message: '' err ''''), a') | (None, a') \<Rightarrow> (Inr new_CreateUserResponse, a'))"
    using assms(4) by (simp add: stub_CreateUser_def async_conn_def conn_Invoke_def full_method_names Conn_def NewClientAdapter_def
        NewAsyncClientConn_def extractMetadata_def split: prod.splits option.splits)
  show ?thesis
  proof (cases "fst ?send")
    case None
    then obtain a1 where s: "?send = (None, a1)" by (metis prod.collapse)
    from mem_messages.send_ok [OF assms(1) s] obtain payload where
      p: "marshal (ReqCreate req) = Inr payload"
        "pending a1 = (pending a)(q := pending a q @ [envelope p service_name ''CreateUser'' payload uuid now []])"
      by (auto simp: send_accepts_def)
    let ?msg = "envelope p service_name ''CreateUser'' payload uuid now []"
    have "Handle ?reg c' ?msg s =
        wrappedHandler unmarshal (create_closure st) (ReqCreate \<lparr>cu_Name = [], cu_Email = []\<rparr>) c' ?msg s"
      by (rule consumer_create) (simp_all add: envelope_def)
    also have "\<dots> = (case CreateUser st c' req s of (Inl err, s') \<Rightarrow> (Some err, s') | (Inr created, s') \<Rightarrow> (None, s'))"
      using assms(2,3) p(1) by (auto simp: wrappedHandler_def envelope_def create_closure_def split: prod.split sum.split)
    finally show ?thesis using stub s p(2) by (auto simp: envelope_def intro!: exI [of _ ?msg])
  next
    case (Some err)
    then obtain a1 where s: "?send = (Some err, a1)" by (metis prod.collapse)
    from mem_messages.send_error [OF assms(1) s] stub s show ?thesis by auto
  qed
qed

lemma stub_call_accepted:
  "\<not> isl (fst (stub_CreateUser (async_conn (\<lambda>_. Inr ''x'') Publish ''id'' 5 (Conn (NewClientAdapter (NewProducer ''svc'') ''users'')))
     None ann ([] :: string list) (NewAdapter 3)))"
proof -
  have "validateQueueName ''users'' = None" by (rule validateQueueName_ok) (simp_all add: queue_char_def)
  moreover have "validateTopicAction service_name ''CreateUser'' = None"
    by (rule validateTopicAction_ok) (simp_all add: service_name_def IsSpace_def)
  ultimately show ?thesis
    by (simp add: stub_CreateUser_def async_conn_def conn_Invoke_def full_method_names Conn_def NewClientAdapter_def
        NewAsyncClientConn_def Send_def MaxMessageSize_def Publish_def NewAdapter_def ensure_queue_def make_queue_def
        chan_cap_def chan_len_def)
qed

theorem stub_over_queue_witness:
  "\<exists>a' msg. stub_CreateUser (async_conn (\<lambda>_. Inr ''x'') Publish ''id'' 5 (Conn (NewClientAdapter (NewProducer ''svc'') ''users'')))
      None ann ([] :: string list) (NewAdapter 3) = (Inr new_CreateUserResponse, a') \<and>
    pending a' ''users'' = [msg] \<and>
    Handle (srv_registry (RegisterUserServiceConsumer (\<lambda>_. Ext) (\<lambda>_. Some (\<lambda>_. Inr (ReqCreate ann))) [] :: (message MemAdapter, UserService, nat) Server)) None msg (NewUserService 7) =
      (None, snd (CreateUser (\<lambda>_. Ext) None ann (NewUserService 7)))"
proof -
  let ?stub = "stub_CreateUser (async_conn (\<lambda>_. Inr ''x'') Publish ''id'' 5 (Conn (NewClientAdapter (NewProducer ''svc'') ''users'')))
    None ann ([] :: string list) (NewAdapter 3)"
  obtain resp a' where r: "?stub = (Inr resp, a')" using stub_call_accepted by (cases ?stub; cases "fst ?stub") auto
  note c = stub_over_queue [where unmarshal = "\<lambda>_. Some (\<lambda>_. Inr (ReqCreate ann))" and um = "\<lambda>_. Inr (ReqCreate ann)" and
      st = "\<lambda>_. Ext" and sopts = "[]" and c' = None and s = "NewUserService 7", OF mem_inv_New refl refl r]
  then obtain msg where "resp = new_CreateUserResponse" "pending a' ''users'' = [msg]"
    "Handle (srv_registry (RegisterUserServiceConsumer (\<lambda>_. Ext) (\<lambda>_. Some (\<lambda>_. Inr (ReqCreate ann))) [] :: (message MemAdapter, UserService, nat) Server)) None msg (NewUserService 7) =
      (None, snd (CreateUser (\<lambda>_. Ext) None ann (NewUserService 7)))"
    by (auto simp: pending_New CreateUser_def ann_def Let_def)
  with r show ?thesis by blast
qed

end
