(* ===== verification/Generator.thy ===== *)
theory Generator
  imports Types
begin

text \<open>
  \<open>cmd/protoc-gen-grpcq/main.go\<close>: the plugin that generates consumers and producers from service
  descriptors.

  The descriptors are what the plugin reads of protogen's: names, full names and the identifiers
  of the request and response types.  A generated file is the list of the lines \<open>g.P\<close> prints;
  protogen's own post-processing (the import block and \<open>gofmt\<close>) is outside the repository, and so is the way it qualifies an
  identifier with the name of its package: \<open>qual\<close>, a parameter, from an import path and a name.
\<close>

section \<open>Descriptors\<close>

record GoIdent =
  gi_GoName :: string
  gi_GoImportPath :: string

record Method =
  m_GoName :: string
  m_Name :: string
  m_Input :: GoIdent
  m_Output :: GoIdent

record Service =
  s_GoName :: string
  s_FullName :: string
  s_Methods :: "Method list"

record ProtoFile =
  f_Generate :: bool
  f_GeneratedFilenamePrefix :: string
  f_Path :: string
  f_GoPackageName :: string
  f_Services :: "Service list"

type_synonym qualifier = "string \<Rightarrow> string \<Rightarrow> string"

section \<open>Names\<close>

text \<open>\<open>string(r)\<close> of a slice of runes.\<close>

definition runes_string :: "nat list \<Rightarrow> string" where
  "runes_string rs = concat (map fmt_c rs)"

definition unexport :: "string \<Rightarrow> string" where
  "unexport s =
     (if s = [] then []
      else let r = runes s;
               r0 = (if 65 \<le> hd r \<and> hd r \<le> 90 then hd r + 32 else hd r)
           in runes_string (r0 # tl r))"

section \<open>Printing\<close>

definition tab :: string where
  "tab = [CHR 0x09]"

definition dq :: string where
  "dq = [CHR 0x22]"

definition g_P :: "string list \<Rightarrow> string" where
  "g_P vs = concat vs"

definition grpcq_path :: string where
  "grpcq_path = ''github.com/pbdeuchler/grpcq/go/grpcq''"

abbreviation ctx_ident :: "qualifier \<Rightarrow> string" where
  "ctx_ident qual \<equiv> qual ''context'' ''Context''"

abbreviation ident :: "qualifier \<Rightarrow> GoIdent \<Rightarrow> string" where
  "ident qual i \<equiv> qual (gi_GoImportPath i) (gi_GoName i)"

section \<open>The generator\<close>

definition generateFileHeader :: "ProtoFile \<Rightarrow> string list" where
  "generateFileHeader file =
     [g_P [''// Code generated by protoc-gen-grpcq. DO NOT EDIT.''],
      g_P [''// versions:''],
      g_P [''// - protoc-gen-grpcq v0.1.0''],
      g_P [''// source: '', f_Path file],
      g_P [],
      g_P [''package '', f_GoPackageName file],
      g_P []]"

definition generateServerInterface :: "qualifier \<Rightarrow> Service \<Rightarrow> string \<Rightarrow> string list" where
  "generateServerInterface qual service serviceName =
     [g_P [''// '', serviceName, ''Consumer is the server API for '', serviceName, '' service with grpcq.''],
      g_P [''// This interface is compatible with the gRPC '', serviceName, ''Server interface.''],
      g_P [''// Implementations should embed the gRPC Unimplemented server for compatibility.''],
      g_P [''type '', serviceName, ''Consumer interface {'']]
     @ map (\<lambda>method. g_P [tab, m_GoName method, ''('', ctx_ident qual, '', *'', ident qual (m_Input method), '') (*'',
                        ident qual (m_Output method), '', error)'']) (s_Methods service)
     @ [g_P [''}'']]"

definition registration :: "qualifier \<Rightarrow> Service \<Rightarrow> Method \<Rightarrow> string list" where
  "registration qual service method =
     [g_P [tab, ''s.RegisterMethod('', dq, s_FullName service, dq, '', '', dq, m_Name method, dq, '', func(ctx '',
         ctx_ident qual, '', req interface{}) (interface{}, error) {''],
      g_P [tab, tab, ''return srv.'', m_GoName method, ''(ctx, req.(*'', ident qual (m_Input method), ''))''],
      g_P [tab, ''}, func() interface{} { return &'', ident qual (m_Input method), ''{} })'']]"

definition generateServerRegistration :: "qualifier \<Rightarrow> Service \<Rightarrow> string \<Rightarrow> string list" where
  "generateServerRegistration qual service serviceName =
     [g_P [''// Register'', serviceName, ''Consumer registers the '', serviceName, '' consumer implementation''],
      g_P [''// with the provided queue adapter and configuration.''],
      g_P [''func Register'', serviceName, ''Consumer(adapter '', qual grpcq_path ''QueueAdapter'', '', srv '', serviceName,
         ''Consumer, opts ...'', qual grpcq_path ''ServerOption'', '') *'', qual grpcq_path ''Server'', '' {''],
      g_P [tab, ''// Create server with options - options are applied inside NewServer''],
      g_P [tab, ''s := '', qual grpcq_path ''NewServer'', ''(adapter, opts...)''],
      g_P []]
     @ concat (map (registration qual service) (s_Methods service))
     @ [g_P [], g_P [tab, ''return s''], g_P [''}'']]"

definition generateClientInterface :: "qualifier \<Rightarrow> Service \<Rightarrow> string \<Rightarrow> string list" where
  "generateClientInterface qual service serviceName =
     [g_P [''// '', serviceName, ''Producer is the client API for '', serviceName, '' service with grpcq.''],
      g_P [''type '', serviceName, ''Producer interface {'']]
     @ map (\<lambda>method. g_P [tab, m_GoName method, ''(ctx '', ctx_ident qual, '', in *'', ident qual (m_Input method),
                        '', opts ...'', qual grpcq_path ''CallOption'', '') error'']) (s_Methods service)
     @ [g_P [''}'']]"

definition client_method :: "qualifier \<Rightarrow> Service \<Rightarrow> string \<Rightarrow> Method \<Rightarrow> string list" where
  "client_method qual service clientStructName method =
     [g_P [''func (c *'', clientStructName, '') '', m_GoName method, ''(ctx '', ctx_ident qual, '', in *'',
         ident qual (m_Input method), '', opts ...'', qual grpcq_path ''CallOption'', '') error {''],
      g_P [tab, ''return c.cc.Invoke(ctx, '', dq, s_FullName service, dq, '', '', dq, m_Name method, dq, '', in, opts...)''],
      g_P [''}''],
      g_P []]"

definition generateClientImpl :: "qualifier \<Rightarrow> Service \<Rightarrow> string \<Rightarrow> string list" where
  "generateClientImpl qual service serviceName =
     (let clientStructName = unexport serviceName @ ''Producer'' in
      [g_P [''type '', clientStructName, '' struct {''],
       g_P [tab, ''cc *'', qual grpcq_path ''Client''],
       g_P [''}''],
       g_P [],
       g_P [''// New'', serviceName, ''Producer creates a new '', serviceName, '' producer for grpcq.''],
       g_P [''func New'', serviceName, ''Producer(adapter '', qual grpcq_path ''QueueAdapter'', '', opts ...'',
          qual grpcq_path ''ClientOption'', '') '', serviceName, ''Producer {''],
       g_P [tab, ''return &'', clientStructName, ''{''],
       g_P [tab, tab, ''cc: '', qual grpcq_path ''NewClient'', ''(adapter, opts...),''],
       g_P [tab, ''}''],
       g_P [''}''],
       g_P []]
      @ concat (map (client_method qual service clientStructName) (s_Methods service)))"

definition generateService :: "qualifier \<Rightarrow> Service \<Rightarrow> string list" where
  "generateService qual service =
     (let serviceName = s_GoName service in
      generateServerInterface qual service serviceName @ [g_P []]
      @ generateServerRegistration qual service serviceName @ [g_P []]
      @ generateClientInterface qual service serviceName @ [g_P []]
      @ generateClientImpl qual service serviceName @ [g_P []])"

definition generateFileContent :: "qualifier \<Rightarrow> ProtoFile \<Rightarrow> string list" where
  "generateFileContent qual file = concat (map (generateService qual) (f_Services file))"

definition generateFile :: "qualifier \<Rightarrow> ProtoFile \<Rightarrow> (string \<times> string list) option" where
  "generateFile qual file =
     (if f_Services file = [] then None
      else Some (f_GeneratedFilenamePrefix file @ ''_grpcq.pb.go'',
                 generateFileHeader file @ generateFileContent qual file))"

text \<open>
  \<open>flags.Set\<close> of the only flag, on the value of \<open>requireUnimplemented\<close>; the strings are those
  \<open>strconv.ParseBool\<close> accepts.
\<close>

definition flags_Set :: "string \<Rightarrow> string \<Rightarrow> bool \<Rightarrow> error + bool" where
  "flags_Set name val requireUnimplemented =
     (if name \<noteq> ''require_unimplemented_servers'' then Inl (Msg (''no such flag -'' @ name))
      else if val \<in> {''1'', ''t'', ''T'', ''true'', ''TRUE'', ''True''} then Inr True
      else if val \<in> {''0'', ''f'', ''F'', ''false'', ''FALSE'', ''False''} then Inr False
      else Inl (Msg ''parse error''))"

fun set_params :: "(string \<times> string) list \<Rightarrow> bool \<Rightarrow> error + bool" where
  "set_params [] b = Inr b"
| "set_params ((name, val) # ps) b =
     (case flags_Set name val b of Inl err \<Rightarrow> Inl err | Inr b' \<Rightarrow> set_params ps b')"

text \<open>The plugin: the files it generates, given the parameters protogen passes on and the files of the request.\<close>

definition plugin_main ::
  "(ProtoFile \<Rightarrow> qualifier) \<Rightarrow> (string \<times> string) list \<Rightarrow> ProtoFile list \<Rightarrow> error + (string \<times> string list) list" where
  "plugin_main qual params files =
     (case set_params params True of
        Inl err \<Rightarrow> Inl err
      | Inr requireUnimplemented \<Rightarrow>
          Inr (List.map_filter (\<lambda>f. if f_Generate f then generateFile (qual f) f else None) files))"

section \<open>Names\<close>

lemma runes_string_ascii: "is_ascii s \<Longrightarrow> runes_string (runes s) = s"
  by (induction s) (auto simp: is_ascii_def runes_string_def ascii_simps fmt_c_def)

lemma unexport_ascii:
  assumes "is_ascii (c # s)"
  shows "unexport (c # s) = (if 65 \<le> byte c \<and> byte c \<le> 90 then char_of (byte c + 32) else c) # s"
proof -
  have a: "byte c < 128" "is_ascii s" using assms by (simp_all add: is_ascii_def)
  then have "unexport (c # s) = fmt_c (if 65 \<le> byte c \<and> byte c \<le> 90 then byte c + 32 else byte c) @ s"
    using runes_string_ascii [OF a(2)] by (simp add: unexport_def ascii_simps Let_def runes_string_def)
  then show ?thesis using a(1) by (auto simp: fmt_c_def)
qed

text \<open>The producer's structure never has the name of its interface, if the service's Go name is exported.\<close>

lemma struct_name_distinct:
  assumes "is_ascii (c # s)" and "65 \<le> byte c" and "byte c \<le> 90"
  shows "unexport (c # s) @ ''Producer'' \<noteq> (c # s) @ ''Producer''"
proof -
  define d :: char where "d = char_of (byte c + 32)"
  have "byte d = byte c + 32" using assms by (simp add: d_def)
  then have "char_of (byte c + 32) \<noteq> c" unfolding d_def [symmetric] by auto
  then show ?thesis using assms by (simp add: unexport_ascii)
qed

section \<open>The calls in a generated file\<close>

text \<open>
  The first two string arguments of the calls a file makes: \<open>prefix\<close> is the text of a line up to and
  with the quote that opens the first.
\<close>

definition call_args :: "string \<Rightarrow> string \<Rightarrow> (string \<times> string) option" where
  "call_args prefix line =
     (if HasPrefix line prefix then
        (let r = drop (length prefix) line;
             a = takeWhile (\<lambda>c. c \<noteq> CHR 0x22) r;
             b = takeWhile (\<lambda>c. c \<noteq> CHR 0x22) (drop (length a + 4) r)
         in Some (a, b))
      else None)"

definition calls :: "string \<Rightarrow> string list \<Rightarrow> (string \<times> string) list" where
  "calls prefix lines = List.map_filter (call_args prefix) lines"

definition reg_call :: string where
  "reg_call = tab @ ''s.RegisterMethod('' @ dq"

definition invoke_call :: string where
  "invoke_call = tab @ ''return c.cc.Invoke(ctx, '' @ dq"

text \<open>Names as protoc makes them: no quote in a full name, and letters, digits and underscores in Go names.\<close>

definition go_name :: "string \<Rightarrow> bool" where
  "go_name s \<longleftrightarrow> CHR ''.'' \<notin> set s \<and> CHR '' '' \<notin> set s"

definition named_method :: "Method \<Rightarrow> bool" where
  "named_method m \<longleftrightarrow> go_name (m_GoName m) \<and> CHR 0x22 \<notin> set (m_Name m)"

definition named_service :: "Service \<Rightarrow> bool" where
  "named_service s \<longleftrightarrow> CHR 0x22 \<notin> set (s_FullName s) \<and> list_all named_method (s_Methods s)"

definition service_methods :: "Service \<Rightarrow> (string \<times> string) list" where
  "service_methods s = map (\<lambda>m. (s_FullName s, m_Name m)) (s_Methods s)"

lemma HasPrefix_simps [simp]:
  "HasPrefix s []" "\<not> HasPrefix [] (p # ps)" "HasPrefix (c # s) (p # ps) \<longleftrightarrow> c = p \<and> HasPrefix s ps"
  by (auto simp: HasPrefix_def)

lemma calls_simps [simp]:
  "calls prefix [] = []" "calls prefix (l # l' # ls) = calls prefix [l] @ calls prefix (l' # ls)"
  "calls prefix (xs @ ys) = calls prefix xs @ calls prefix ys"
  by (simp_all add: calls_def List.map_filter_def)

lemma calls_Cons: "calls prefix (l # ls) = calls prefix [l] @ calls prefix ls"
  by (simp add: calls_def List.map_filter_def)

lemma calls_other: "\<not> HasPrefix l prefix \<Longrightarrow> calls prefix [l] = []"
  by (simp add: calls_def call_args_def map_filter_simps)

lemma calls_here:
  assumes "CHR 0x22 \<notin> set a" and "CHR 0x22 \<notin> set b"
  shows "calls prefix [prefix @ a @ dq @ '', '' @ dq @ b @ dq @ rest] = [(a, b)]"
proof -
  have tw: "takeWhile (\<lambda>c. c \<noteq> CHR 0x22) (x @ CHR 0x22 # y) = x" if "CHR 0x22 \<notin> set x" for x y
    using that by (induction x) auto
  show ?thesis using assms tw by (simp add: calls_def call_args_def map_filter_simps dq_def Let_def)
qed

lemma calls_concat: "calls prefix (concat (map f xs)) = concat (map (\<lambda>x. calls prefix (f x)) xs)"
  by (induction xs) simp_all

lemma calls_map_other:
  "list_all (\<lambda>x. \<not> HasPrefix (f x) prefix) xs \<Longrightarrow> calls prefix (map f xs) = []"
proof (induction xs)
  case (Cons x xs)
  then show ?case by (simp add: calls_Cons [of _ "f x" "map f xs"] calls_other)
qed simp

text \<open>A line that opens with an identifier and another character is no call of a longer name.\<close>

lemma name_no_prefix:
  "x \<notin> set name \<Longrightarrow> x \<noteq> y \<Longrightarrow> y \<notin> set p \<Longrightarrow> \<not> HasPrefix (name @ y # rest) (p @ x # ps)"
proof (induction p arbitrary: name)
  case Nil
  then show ?case by (cases name) auto
next
  case (Cons a p)
  then show ?case by (cases name) auto
qed

lemma method_line:
  assumes "go_name n"
  shows "\<not> HasPrefix (tab @ n @ CHR ''('' # rest) reg_call" "\<not> HasPrefix (tab @ n @ CHR ''('' # rest) invoke_call"
  using assms name_no_prefix [of "CHR ''.''" n "CHR ''(''" "''s''" rest "''RegisterMethod('' @ dq"]
    name_no_prefix [of "CHR '' ''" n "CHR ''(''" "''return''" rest "''c.cc.Invoke(ctx, '' @ dq"]
  by (simp_all add: go_name_def reg_call_def invoke_call_def tab_def)

lemmas line_defs = g_P_def tab_def dq_def calls_other reg_call_def invoke_call_def

lemma calls_ServerInterface:
  assumes "named_service s"
  shows "calls reg_call (generateServerInterface qual s n) = []" "calls invoke_call (generateServerInterface qual s n) = []"
proof -
  let ?f = "\<lambda>method. g_P [tab, m_GoName method, ''('', ctx_ident qual, '', *'', ident qual (m_Input method), '') (*'',
                        ident qual (m_Output method), '', error)'']"
  have "list_all (\<lambda>m. \<not> HasPrefix (?f m) reg_call \<and> \<not> HasPrefix (?f m) invoke_call) (s_Methods s)"
    using assms method_line by (auto simp: named_service_def named_method_def list_all_iff g_P_def)
  then have "calls reg_call (map ?f (s_Methods s)) = []" "calls invoke_call (map ?f (s_Methods s)) = []"
    by (auto intro!: calls_map_other simp: list_all_iff)
  then show "calls reg_call (generateServerInterface qual s n) = []" "calls invoke_call (generateServerInterface qual s n) = []"
    unfolding generateServerInterface_def calls_simps by (simp_all add: line_defs)
qed

lemma calls_ClientInterface:
  assumes "named_service s"
  shows "calls reg_call (generateClientInterface qual s n) = []" "calls invoke_call (generateClientInterface qual s n) = []"
proof -
  let ?f = "\<lambda>method. g_P [tab, m_GoName method, ''(ctx '', ctx_ident qual, '', in *'', ident qual (m_Input method),
                        '', opts ...'', qual grpcq_path ''CallOption'', '') error'']"
  have "list_all (\<lambda>m. \<not> HasPrefix (?f m) reg_call \<and> \<not> HasPrefix (?f m) invoke_call) (s_Methods s)"
    using assms method_line by (auto simp: named_service_def named_method_def list_all_iff g_P_def)
  then have "calls reg_call (map ?f (s_Methods s)) = []" "calls invoke_call (map ?f (s_Methods s)) = []"
    by (auto intro!: calls_map_other simp: list_all_iff)
  then show "calls reg_call (generateClientInterface qual s n) = []" "calls invoke_call (generateClientInterface qual s n) = []"
    unfolding generateClientInterface_def calls_simps by (simp_all add: line_defs)
qed

lemma calls_registration:
  assumes "named_service s" and "m \<in> set (s_Methods s)"
  shows "calls reg_call (registration qual s m) = [(s_FullName s, m_Name m)]" "calls invoke_call (registration qual s m) = []"
proof -
  have n: "CHR 0x22 \<notin> set (s_FullName s)" "CHR 0x22 \<notin> set (m_Name m)"
    using assms by (auto simp: named_service_def named_method_def list_all_iff)
  have "calls reg_call [g_P [tab, ''s.RegisterMethod('', dq, s_FullName s, dq, '', '', dq, m_Name m, dq, '', func(ctx '',
         ctx_ident qual, '', req interface{}) (interface{}, error) {'']] = [(s_FullName s, m_Name m)]"
    using calls_here [OF n, of reg_call] by (simp add: g_P_def reg_call_def tab_def dq_def)
  then show "calls reg_call (registration qual s m) = [(s_FullName s, m_Name m)]"
    unfolding registration_def calls_simps by (simp add: line_defs)
  show "calls invoke_call (registration qual s m) = []"
    unfolding registration_def calls_simps by (simp add: line_defs)
qed

lemma calls_client_method:
  assumes "named_service s" and "m \<in> set (s_Methods s)"
  shows "calls invoke_call (client_method qual s n m) = [(s_FullName s, m_Name m)]" "calls reg_call (client_method qual s n m) = []"
proof -
  have n: "CHR 0x22 \<notin> set (s_FullName s)" "CHR 0x22 \<notin> set (m_Name m)"
    using assms by (auto simp: named_service_def named_method_def list_all_iff)
  have "calls invoke_call [g_P [tab, ''return c.cc.Invoke(ctx, '', dq, s_FullName s, dq, '', '', dq, m_Name m, dq,
         '', in, opts...)'']] = [(s_FullName s, m_Name m)]"
    using calls_here [OF n, of invoke_call] by (simp add: g_P_def invoke_call_def tab_def dq_def)
  then show "calls invoke_call (client_method qual s n m) = [(s_FullName s, m_Name m)]"
    unfolding client_method_def calls_simps by (simp add: line_defs)
  show "calls reg_call (client_method qual s n m) = []"
    unfolding client_method_def calls_simps by (simp add: line_defs)
qed

lemma concat_singletons: "\<forall>x \<in> set xs. f x = [g x] \<Longrightarrow> concat (map f xs) = map g xs"
  by (induction xs) auto

lemma concat_empties: "\<forall>x \<in> set xs. f x = [] \<Longrightarrow> concat (map f xs) = []"
  by simp

lemma calls_ServerRegistration:
  assumes "named_service s"
  shows "calls reg_call (generateServerRegistration qual s n) = service_methods s"
    "calls invoke_call (generateServerRegistration qual s n) = []"
proof -
  have "calls reg_call (concat (map (registration qual s) (s_Methods s))) = service_methods s"
    "calls invoke_call (concat (map (registration qual s) (s_Methods s))) = []"
    using calls_registration [OF assms]
    unfolding calls_concat service_methods_def by (intro concat_singletons concat_empties; simp)+
  then show "calls reg_call (generateServerRegistration qual s n) = service_methods s"
    "calls invoke_call (generateServerRegistration qual s n) = []"
    unfolding generateServerRegistration_def calls_simps by (simp_all add: line_defs)
qed

lemma calls_ClientImpl:
  assumes "named_service s"
  shows "calls invoke_call (generateClientImpl qual s n) = service_methods s"
    "calls reg_call (generateClientImpl qual s n) = []"
proof -
  let ?c = "unexport n @ ''Producer''"
  have "calls invoke_call (concat (map (client_method qual s ?c) (s_Methods s))) = service_methods s"
    "calls reg_call (concat (map (client_method qual s ?c) (s_Methods s))) = []"
    using calls_client_method [OF assms]
    unfolding calls_concat service_methods_def by (intro concat_singletons concat_empties; simp)+
  then show "calls invoke_call (generateClientImpl qual s n) = service_methods s"
    "calls reg_call (generateClientImpl qual s n) = []"
    unfolding generateClientImpl_def Let_def calls_simps by (simp_all add: line_defs)
qed

lemma calls_Service:
  assumes "named_service s"
  shows "calls reg_call (generateService qual s) = service_methods s"
    "calls invoke_call (generateService qual s) = service_methods s"
  unfolding generateService_def Let_def calls_simps
  by (simp_all add: calls_ServerInterface [OF assms] calls_ClientInterface [OF assms]
      calls_ServerRegistration [OF assms] calls_ClientImpl [OF assms])
    (simp_all add: line_defs)

lemma calls_FileContent:
  assumes "list_all named_service (f_Services file)"
  shows "calls reg_call (generateFileContent qual file) = concat (map service_methods (f_Services file))"
    "calls invoke_call (generateFileContent qual file) = concat (map service_methods (f_Services file))"
  using assms calls_Service unfolding generateFileContent_def calls_concat
  by (simp_all add: list_all_iff cong: map_cong)

lemma calls_FileHeader:
  "calls reg_call (generateFileHeader file) = []" "calls invoke_call (generateFileHeader file) = []"
  unfolding generateFileHeader_def by (simp_all add: line_defs)

section \<open>Properties\<close>

text \<open>
  C29. Generated producers call exactly what generated consumers serve: in every file the plugin
  generates, the sequence of service and method names in the calls of Invoke is the sequence in the calls of
  RegisterMethod, and both list every method of every service of the file once, in order.
\<close>

theorem generated_calls_agree:
  assumes "generateFile qual file = Some (filename, lines)" and "list_all named_service (f_Services file)"
  shows "calls reg_call lines = concat (map service_methods (f_Services file)) \<and>
    calls invoke_call lines = calls reg_call lines"
proof -
  from assms(1) have "lines = generateFileHeader file @ generateFileContent qual file"
    by (auto simp: generateFile_def split: if_splits)
  then show ?thesis
    by (simp add: calls_FileHeader calls_FileContent [OF assms(2)] del: calls_simps(2))
qed

definition user_method :: "string \<Rightarrow> Method" where
  "user_method name =
     \<lparr>m_GoName = name, m_Name = name, m_Input = \<lparr>gi_GoName = name @ ''Request'', gi_GoImportPath = []\<rparr>,
      m_Output = \<lparr>gi_GoName = name @ ''Response'', gi_GoImportPath = []\<rparr>\<rparr>"

text \<open>The descriptor of \<open>user.proto\<close>, and the package names protogen gives to the two imports of its file.\<close>

definition user_file :: ProtoFile where
  "user_file =
     \<lparr>f_Generate = True, f_GeneratedFilenamePrefix = ''user'', f_Path = ''user.proto'', f_GoPackageName = ''proto'',
      f_Services = [\<lparr>s_GoName = ''UserService'', s_FullName = ''userservice.UserService'',
                      s_Methods = [user_method ''CreateUser'', user_method ''GetUser'']\<rparr>]\<rparr>"

definition user_qual :: qualifier where
  "user_qual path name =
     (if path = ''context'' then ''context.'' @ name else if path = grpcq_path then ''grpcq.'' @ name else name)"

text \<open>The lines of \<open>go/examples/userservice/proto/user_grpcq.pb.go\<close>, without its import block.\<close>

definition user_grpcq_lines :: "string list" where
  "user_grpcq_lines =
     [''// Code generated by protoc-gen-grpcq. DO NOT EDIT.'',
      ''// versions:'',
      ''// - protoc-gen-grpcq v0.1.0'',
      ''// source: user.proto'',
      [],
      ''package proto'',
      [],
      ''// UserServiceConsumer is the server API for UserService service with grpcq.'',
      ''// This interface is compatible with the gRPC UserServiceServer interface.'',
      ''// Implementations should embed the gRPC Unimplemented server for compatibility.'',
      ''type UserServiceConsumer interface {'',
      tab @ ''CreateUser(context.Context, *CreateUserRequest) (*CreateUserResponse, error)'',
      tab @ ''GetUser(context.Context, *GetUserRequest) (*GetUserResponse, error)'',
      ''}'',
      [],
      ''// RegisterUserServiceConsumer registers the UserService consumer implementation'',
      ''// with the provided queue adapter and configuration.'',
      ''func RegisterUserServiceConsumer(adapter grpcq.QueueAdapter, srv UserServiceConsumer, opts ...grpcq.ServerOption) *grpcq.Server {'',
      tab @ ''// Create server with options - options are applied inside NewServer'',
      tab @ ''s := grpcq.NewServer(adapter, opts...)'',
      [],
      tab @ ''s.RegisterMethod(\"userservice.UserService\", \"CreateUser\", func(ctx context.Context, req interface{}) (interface{}, error) {'',
      tab @ tab @ ''return srv.CreateUser(ctx, req.(*CreateUserRequest))'',
      tab @ ''}, func() interface{} { return &CreateUserRequest{} })'',
      tab @ ''s.RegisterMethod(\"userservice.UserService\", \"GetUser\", func(ctx context.Context, req interface{}) (interface{}, error) {'',
      tab @ tab @ ''return srv.GetUser(ctx, req.(*GetUserRequest))'',
      tab @ ''}, func() interface{} { return &GetUserRequest{} })'',
      [],
      tab @ ''return s'',
      ''}'',
      [],
      ''// UserServiceProducer is the client API for UserService service with grpcq.'',
      ''type UserServiceProducer interface {'',
      tab @ ''CreateUser(ctx context.Context, in *CreateUserRequest, opts ...grpcq.CallOption) error'',
      tab @ ''GetUser(ctx context.Context, in *GetUserRequest, opts ...grpcq.CallOption) error'',
      ''}'',
      [],
      ''type userServiceProducer struct {'',
      tab @ ''cc *grpcq.Client'',
      ''}'',
      [],
      ''// NewUserServiceProducer creates a new UserService producer for grpcq.'',
      ''func NewUserServiceProducer(adapter grpcq.QueueAdapter, opts ...grpcq.ClientOption) UserServiceProducer {'',
      tab @ ''return &userServiceProducer{'',
      tab @ tab @ ''cc: grpcq.NewClient(adapter, opts...),'',
      tab @ ''}'',
      ''}'',
      [],
      ''func (c *userServiceProducer) CreateUser(ctx context.Context, in *CreateUserRequest, opts ...grpcq.CallOption) error {'',
      tab @ ''return c.cc.Invoke(ctx, \"userservice.UserService\", \"CreateUser\", in, opts...)'',
      ''}'',
      [],
      ''func (c *userServiceProducer) GetUser(ctx context.Context, in *GetUserRequest, opts ...grpcq.CallOption) error {'',
      tab @ ''return c.cc.Invoke(ctx, \"userservice.UserService\", \"GetUser\", in, opts...)'',
      ''}'']"

theorem generated_calls_agree_witness:
  "calls invoke_call (generateFileHeader user_file @ generateFileContent user_qual user_file) =
     [(''userservice.UserService'', ''CreateUser''), (''userservice.UserService'', ''GetUser'')]"
proof -
  have "generateFile user_qual user_file =
      Some (''user_grpcq.pb.go'', generateFileHeader user_file @ generateFileContent user_qual user_file)"
    by (simp add: generateFile_def user_file_def)
  from generated_calls_agree [OF this] show ?thesis
    by (simp add: user_file_def named_service_def named_method_def go_name_def user_method_def service_methods_def
        del: calls_simps)
qed

text \<open>
  The plugin reproduces the code the example is built with: for the descriptor of user.proto it
  generates the file user_grpcq.pb.go of the repository line by line, but for the import block, which
  protogen adds, and two blank lines at the end, which gofmt removes.
\<close>

lemma generated_user_file:
  "generateFile user_qual user_file = Some (''user_grpcq.pb.go'', user_grpcq_lines @ [[], []])"
proof -
  have "char_of (117 :: nat) = CHR ''u''" by code_simp
  then have "unexport ''UserService'' = ''userService''" by (simp add: unexport_ascii is_ascii_def)
  then show ?thesis
    by (simp add: generateFile_def user_file_def generateFileHeader_def generateFileContent_def generateService_def
        generateServerInterface_def generateServerRegistration_def registration_def generateClientInterface_def
        generateClientImpl_def client_method_def user_method_def user_qual_def grpcq_path_def g_P_def tab_def dq_def
        user_grpcq_lines_def)
qed

end
