(* ===== verification/MemoryRaces.thy ===== *)
theory MemoryRaces
  imports Prelude
begin

text \<open>
  The in-memory adapter of \<open>go/adapters/memory/adapter.go\<close> below the granularity of its methods: the threads
  that use one queue, step by step.  \<open>Publish\<close>, \<open>Clear\<close> and the beginning of \<open>Consume\<close> take the
  adapter's mutex; the receive loop of \<open>Consume\<close> and the requeue closure of \<open>Nack\<close> use the channel
  without it.

  A thread is at one of the points where others can see it: at the start of its call, waiting for the mutex, at a
  channel operation, or finished.  The channel is its buffer and its capacity; the system follows one
  channel, up to the point where \<open>Clear\<close> puts another in its place.  Batch sizes are those of a worker, never negative.
\<close>

section \<open>Threads\<close>

text \<open>
  A call that reads its context carries the flag that says whether the context is done.  \<open>PubDone\<close> has the outcome of
  \<open>Publish\<close>, \<open>ConDone\<close> the messages a \<open>Consume\<close> returns, and \<open>ConFailed\<close> those it had received when it
  returned \<open>ctx.Err()\<close> instead.
\<close>

datatype 'm thread =
    PubCall bool "'m list"
  | PubLock "'m list"
  | PubSend "'m list"
  | PubDone bool
  | ConLock bool nat
  | ConRecv bool nat "'m list"
  | ConDone "'m list"
  | ConFailed "'m list"
  | NackSend 'm
  | NackDone bool
  | ClrLock
  | ClrCheck
  | ClrRecv
  | ClrDone

record 'm shared =
  sh_cap :: nat
  sh_buf :: "'m list"
  sh_locked :: bool

text \<open>Which case a \<open>select\<close> takes: that of \<open>ctx.Done()\<close>, or else the receive, or its default when no case is ready.\<close>

datatype pick = TakeCtx | TakeOther

text \<open>
  One step of a thread on the shared state; no result when it is held up, or when its \<open>select\<close> cannot take that case.
  The order of the cases is the order of the statements in each method.
\<close>

primrec thread_step :: "'m thread \<Rightarrow> pick \<Rightarrow> 'm shared \<Rightarrow> ('m thread \<times> 'm shared) option" where
  "thread_step (PubCall c ms) pk s =
     Some (if ms = [] then PubDone True else if c then PubDone False else PubLock ms, s)"
| "thread_step (PubLock ms) pk s =
     (if sh_locked s then None
      else if length ms > sh_cap s - length (sh_buf s) then Some (PubDone False, s)
      else Some (PubSend ms, s\<lparr>sh_locked := True\<rparr>))"
| "thread_step (PubSend ms) pk s =
     (case ms of
        [] \<Rightarrow> Some (PubDone True, s\<lparr>sh_locked := False\<rparr>)
      | m # rest \<Rightarrow>
          if length (sh_buf s) < sh_cap s then Some (PubSend rest, s\<lparr>sh_buf := sh_buf s @ [m]\<rparr>) else None)"
| "thread_step (PubDone ok) pk s = None"
| "thread_step (ConLock c n) pk s = (if sh_locked s then None else Some (ConRecv c n [], s))"
| "thread_step (ConRecv c n items) pk s =
     (case n of
        0 \<Rightarrow> Some (ConDone items, s)
      | Suc k \<Rightarrow>
          (case pk of
             TakeCtx \<Rightarrow> if c then Some (ConFailed items, s) else None
           | TakeOther \<Rightarrow>
               (case sh_buf s of
                  [] \<Rightarrow> if c then None else Some (ConDone items, s)
                | m # rest \<Rightarrow> Some (ConRecv c k (items @ [m]), s\<lparr>sh_buf := rest\<rparr>))))"
| "thread_step (ConDone items) pk s = None"
| "thread_step (ConFailed items) pk s = None"
| "thread_step (NackSend m) pk s =
     (if length (sh_buf s) < sh_cap s then Some (NackDone True, s\<lparr>sh_buf := sh_buf s @ [m]\<rparr>)
      else Some (NackDone False, s))"
| "thread_step (NackDone ok) pk s = None"
| "thread_step ClrLock pk s = (if sh_locked s then None else Some (ClrCheck, s\<lparr>sh_locked := True\<rparr>))"
| "thread_step ClrCheck pk s =
     (if sh_buf s = [] then Some (ClrDone, s\<lparr>sh_locked := False\<rparr>) else Some (ClrRecv, s))"
| "thread_step ClrRecv pk s = (case sh_buf s of [] \<Rightarrow> None | m # rest \<Rightarrow> Some (ClrCheck, s\<lparr>sh_buf := rest\<rparr>))"
| "thread_step ClrDone pk s = None"

definition finished :: "'m thread \<Rightarrow> bool" where
  "finished t \<longleftrightarrow>
     (case t of
        PubDone ok \<Rightarrow> True
      | ConDone items \<Rightarrow> True
      | ConFailed items \<Rightarrow> True
      | NackDone ok \<Rightarrow> True
      | ClrDone \<Rightarrow> True
      | _ \<Rightarrow> False)"

text \<open>The context of a call ends, while the call waits or between two of its steps.\<close>

definition end_ctx :: "'m thread \<Rightarrow> 'm thread" where
  "end_ctx t =
     (case t of
        PubCall c ms \<Rightarrow> PubCall True ms
      | ConLock c n \<Rightarrow> ConLock True n
      | ConRecv c n items \<Rightarrow> ConRecv True n items
      | _ \<Rightarrow> t)"

inductive sys_step :: "'m thread list \<times> 'm shared \<Rightarrow> 'm thread list \<times> 'm shared \<Rightarrow> bool" where
  thread_moves:
    "i < length ts \<Longrightarrow> thread_step (ts ! i) pk s = Some (t', s') \<Longrightarrow> sys_step (ts, s) (ts[i := t'], s')"
| ctx_ends:
    "i < length ts \<Longrightarrow> sys_step (ts, s) (ts[i := end_ctx (ts ! i)], s)"

inductive_cases sys_stepE: "sys_step (ts, s) cfg"

text \<open>No thread can move although some thread is not finished; contexts may still end, but that frees no one.\<close>

definition deadlocked :: "'m thread list \<times> 'm shared \<Rightarrow> bool" where
  "deadlocked cfg \<longleftrightarrow>
     (\<exists>t \<in> set (fst cfg). \<not> finished t) \<and> (\<forall>t \<in> set (fst cfg). \<forall>pk. thread_step t pk (snd cfg) = None)"

lemma end_ctx_simps [simp]:
  "end_ctx (PubCall c ms) = PubCall True ms" "end_ctx (PubLock ms) = PubLock ms" "end_ctx (PubSend ms) = PubSend ms"
  "end_ctx (PubDone ok) = PubDone ok" "end_ctx (ConLock c n) = ConLock True n"
  "end_ctx (ConRecv c n items) = ConRecv True n items" "end_ctx (ConDone items) = ConDone items"
  "end_ctx (ConFailed items) = ConFailed items" "end_ctx (NackSend m) = NackSend m" "end_ctx (NackDone ok) = NackDone ok"
  "end_ctx ClrLock = ClrLock" "end_ctx ClrCheck = ClrCheck" "end_ctx ClrRecv = ClrRecv" "end_ctx ClrDone = ClrDone"
  by (simp_all add: end_ctx_def)

lemma all_picks: "(\<forall>pk. P pk) \<longleftrightarrow> P TakeCtx \<and> P TakeOther"
  by (metis pick.exhaust)

lemma blocked_end_ctx: "\<forall>pk. thread_step t pk s = None \<Longrightarrow> thread_step (end_ctx t) pk s = None"
  by (cases t) (auto simp: all_picks split: if_splits nat.splits list.splits pick.splits)

lemma finished_end_ctx [simp]: "finished (end_ctx t) = finished t"
  by (cases t) (simp_all add: finished_def)

lemma deadlocked_stable:
  assumes "deadlocked cfg" and "sys_step cfg cfg'" shows "deadlocked cfg'"
  using assms(2)
proof cases
  case (thread_moves i ts pk s t' s')
  with assms(1) have "thread_step (ts ! i) pk s = None" by (simp add: deadlocked_def)
  with thread_moves show ?thesis by simp
next
  case (ctx_ends i ts s)
  have "\<exists>t \<in> set (ts[i := end_ctx (ts ! i)]). \<not> finished t"
  proof -
    from assms(1) ctx_ends obtain j where "j < length ts" "\<not> finished (ts ! j)" by (auto simp: deadlocked_def in_set_conv_nth)
    then have "\<not> finished (ts[i := end_ctx (ts ! i)] ! j)" "j < length (ts[i := end_ctx (ts ! i)])"
      by (cases "j = i"; simp)+
    then show ?thesis using nth_mem by blast
  qed
  moreover have "thread_step t pk s = None" if "t \<in> set (ts[i := end_ctx (ts ! i)])" for t pk
    using that assms(1) ctx_ends blocked_end_ctx set_update_subset_insert [of ts i "end_ctx (ts ! i)"]
    by (fastforce simp: deadlocked_def)
  ultimately show ?thesis using ctx_ends by (simp add: deadlocked_def)
qed

section \<open>Publishers and consumers\<close>

text \<open>A Publish or a Consume that is about to begin.\<close>

definition is_call :: "'m thread \<Rightarrow> bool" where
  "is_call t \<longleftrightarrow> (case t of PubCall c ms \<Rightarrow> True | ConLock c n \<Rightarrow> True | _ \<Rightarrow> False)"

lemma is_call_cases:
  assumes "is_call t" obtains (publish) c ms where "t = PubCall c ms" | (consume) c n where "t = ConLock c n"
  using assms by (cases t) (auto simp: is_call_def)

text \<open>
  With publishers and consumers only, the mutex is held exactly when some publisher is in its send
  loop, by one publisher, and there is room for all it has left to send.
\<close>

primrec pub_or_con :: "'m thread \<Rightarrow> bool" where
  "pub_or_con (PubCall c ms) \<longleftrightarrow> True"
| "pub_or_con (PubLock ms) \<longleftrightarrow> True"
| "pub_or_con (PubSend ms) \<longleftrightarrow> True"
| "pub_or_con (PubDone ok) \<longleftrightarrow> True"
| "pub_or_con (ConLock c n) \<longleftrightarrow> True"
| "pub_or_con (ConRecv c n items) \<longleftrightarrow> True"
| "pub_or_con (ConDone items) \<longleftrightarrow> True"
| "pub_or_con (ConFailed items) \<longleftrightarrow> True"
| "pub_or_con (NackSend m) \<longleftrightarrow> False"
| "pub_or_con (NackDone ok) \<longleftrightarrow> False"
| "pub_or_con ClrLock \<longleftrightarrow> False"
| "pub_or_con ClrCheck \<longleftrightarrow> False"
| "pub_or_con ClrRecv \<longleftrightarrow> False"
| "pub_or_con ClrDone \<longleftrightarrow> False"

definition in_send :: "'m thread \<Rightarrow> 'm list list" where
  "in_send t = (case t of PubSend ms \<Rightarrow> [ms] | _ \<Rightarrow> [])"

definition room_inv :: "'m thread list \<times> 'm shared \<Rightarrow> bool" where
  "room_inv cfg \<longleftrightarrow>
     (\<forall>t \<in> set (fst cfg). pub_or_con t) \<and>
     length (sh_buf (snd cfg)) \<le> sh_cap (snd cfg) \<and>
     (if sh_locked (snd cfg)
      then \<exists>ms. mset (concat (map in_send (fst cfg))) = {#ms#} \<and> length (sh_buf (snd cfg)) + length ms \<le> sh_cap (snd cfg)
      else concat (map in_send (fst cfg)) = [])"

text \<open>The effect of a thread's step on the send loops and on the room, by what the thread was doing.\<close>

lemma thread_room:
  assumes "thread_step t pk s = Some (t', s')" and "pub_or_con t" and "length (sh_buf s) \<le> sh_cap s"
  shows "pub_or_con t'" and "sh_cap s' = sh_cap s" and "length (sh_buf s') \<le> sh_cap s'"
    and "in_send t = [] \<Longrightarrow> in_send t' = [] \<and> sh_locked s' = sh_locked s \<and> length (sh_buf s') \<le> length (sh_buf s) \<or>
      (\<exists>ms. in_send t' = [ms] \<and> \<not> sh_locked s \<and> sh_locked s' \<and> length (sh_buf s') + length ms \<le> sh_cap s)"
    and "in_send t = [ms] \<Longrightarrow> in_send t' = [] \<and> \<not> sh_locked s' \<or>
      (\<exists>rest. in_send t' = [rest] \<and> sh_locked s' = sh_locked s \<and>
         length (sh_buf s') + length rest = length (sh_buf s) + length ms)"
  using assms by (cases t; auto simp: in_send_def split: if_splits list.splits nat.splits pick.splits)+

lemma in_send_cases: "in_send t = [] \<or> (\<exists>ms. in_send t = [ms])"
  by (cases t) (auto simp: in_send_def)

lemma room_inv_step:
  assumes "room_inv (ts, s)" and "i < length ts" and "thread_step (ts ! i) pk s = Some (t', s')"
  shows "room_inv (ts[i := t'], s')"
proof -
  let ?G = "mset (concat (map in_send ts))" and ?G' = "mset (concat (map in_send (ts[i := t'])))"
  have t: "pub_or_con (ts ! i)" "length (sh_buf s) \<le> sh_cap s" using assms(1,2) by (auto simp: room_inv_def)
  note r = thread_room [OF assms(3) t]
  have g: "?G' + mset (in_send (ts ! i)) = ?G + mset (in_send t')" by (rule mset_concat_update [OF assms(2)])
  have all: "\<forall>t \<in> set (ts[i := t']). pub_or_con t"
    using r(1) assms(1) set_update_subset_insert [of ts i t'] by (auto simp: room_inv_def)
  have lock: "if sh_locked s then \<exists>ms. ?G = {#ms#} \<and> length (sh_buf s) + length ms \<le> sh_cap s else ?G = {#}"
    using assms(1) by (auto simp: room_inv_def split: if_splits)
  have "if sh_locked s' then \<exists>ms. ?G' = {#ms#} \<and> length (sh_buf s') + length ms \<le> sh_cap s' else ?G' = {#}"
    using in_send_cases [of "ts ! i"]
  proof
    assume e: "in_send (ts ! i) = []"
    from r(4) [OF e] show ?thesis
    proof
      assume "in_send t' = [] \<and> sh_locked s' = sh_locked s \<and> length (sh_buf s') \<le> length (sh_buf s)"
      with g e lock r(2) show ?thesis by (auto split: if_splits)
    next
      assume "\<exists>ms. in_send t' = [ms] \<and> \<not> sh_locked s \<and> sh_locked s' \<and> length (sh_buf s') + length ms \<le> sh_cap s"
      with g e lock r(2) show ?thesis by (auto split: if_splits)
    qed
  next
    assume "\<exists>ms. in_send (ts ! i) = [ms]"
    then obtain ms where ms: "in_send (ts ! i) = [ms]" by blast
    have "ms \<in># ?G" using ms nth_mem [OF assms(2)] by (auto intro!: bexI [of _ "ts ! i"])
    moreover from this lock have "sh_locked s" by (cases "sh_locked s") simp_all
    moreover from this lock obtain ms0 where "?G = {#ms0#}" "length (sh_buf s) + length ms0 \<le> sh_cap s" by auto
    ultimately have l: "sh_locked s" "?G = {#ms#}" "length (sh_buf s) + length ms \<le> sh_cap s"
      by (simp_all only: set_mset_single singleton_iff set_mset_add_mset_insert set_mset_empty)
    with r(5) [OF ms] g ms r(2) show ?thesis by auto
  qed
  with all r(3) show ?thesis by (auto simp: room_inv_def)
qed

lemma end_ctx_kind [simp]: "pub_or_con (end_ctx t) = pub_or_con t" "in_send (end_ctx t) = in_send t"
  by (cases t; simp add: in_send_def)+

lemma sends_end_ctx [simp]:
  "concat (map in_send (ts[i := end_ctx (ts ! i)])) = concat (map in_send ts)"
proof -
  have "map in_send (ts[i := end_ctx (ts ! i)]) = map in_send ts"
    by (cases "i < length ts") (simp_all add: map_update list_update_same_conv list_update_beyond)
  then show ?thesis by simp
qed

lemma room_inv_ctx:
  assumes "room_inv (ts, s)" and "i < length ts" shows "room_inv (ts[i := end_ctx (ts ! i)], s)"
proof -
  have "\<forall>t \<in> set (ts[i := end_ctx (ts ! i)]). pub_or_con t"
    using assms set_update_subset_insert [of ts i "end_ctx (ts ! i)"] by (auto simp: room_inv_def)
  with assms(1) show ?thesis unfolding room_inv_def fst_conv snd_conv sends_end_ctx by blast
qed

lemma room_inv_reachable:
  assumes "sys_step\<^sup>*\<^sup>* (ts, s) cfg" and "room_inv (ts, s)"
  shows "room_inv cfg"
  using assms by (induction rule: rtranclp_induct) (auto elim!: sys_step.cases intro: room_inv_step room_inv_ctx)

lemma room_inv_init:
  assumes "\<forall>t \<in> set ts. is_call t" and "length (sh_buf s) \<le> sh_cap s" and "\<not> sh_locked s"
  shows "room_inv (ts, s)"
proof -
  have "concat (map in_send ts) = []" using assms(1) by (induction ts) (auto simp: in_send_def elim!: is_call_cases)
  moreover have "\<forall>t \<in> set ts. pub_or_con t" using assms(1) by (auto elim!: is_call_cases)
  ultimately show ?thesis using assms(2,3) by (simp add: room_inv_def)
qed

lemma send_loop:
  "length (sh_buf s) + length xs \<le> sh_cap s \<Longrightarrow>
   sys_step\<^sup>*\<^sup>* (PubSend (xs @ ys) # ts, s) (PubSend ys # ts, s\<lparr>sh_buf := sh_buf s @ xs\<rparr>)"
proof (induction xs arbitrary: s)
  case (Cons x xs)
  have "sys_step (PubSend ((x # xs) @ ys) # ts, s) (PubSend (xs @ ys) # ts, s\<lparr>sh_buf := sh_buf s @ [x]\<rparr>)"
    using thread_moves [of 0 "PubSend ((x # xs) @ ys) # ts" TakeOther s] Cons.prems by simp
  moreover have "sys_step\<^sup>*\<^sup>* (PubSend (xs @ ys) # ts, s\<lparr>sh_buf := sh_buf s @ [x]\<rparr>)
      (PubSend ys # ts, s\<lparr>sh_buf := sh_buf s @ x # xs\<rparr>)"
    using Cons.IH [of "s\<lparr>sh_buf := sh_buf s @ [x]\<rparr>"] Cons.prems by simp
  ultimately show ?case by (rule converse_rtranclp_into_rtranclp)
qed simp

section \<open>Properties\<close>

text \<open>
  C39. Publishers and consumers alone never deadlock and no send of Publish ever blocks: from any number
  of Publish and Consume calls on a queue, with any batches, sizes and contexts, which may end at any time,
  in every reachable state each publisher in its send loop can send, and while some call has not finished some
  thread can move.
\<close>

theorem publish_never_blocks:
  assumes "list_all is_call ts" and "length (sh_buf s) \<le> sh_cap s" and "\<not> sh_locked s" and "sys_step\<^sup>*\<^sup>* (ts, s) (ts', s')"
  shows "\<not> deadlocked (ts', s') \<and> (PubSend ms \<in> set ts' \<longrightarrow> thread_step (PubSend ms) pk s' \<noteq> None)"
proof -
  have inv: "room_inv (ts', s')"
    using room_inv_reachable [OF assms(4) room_inv_init] assms(1-3) by (simp add: list_all_iff)
  have send: "thread_step (PubSend ms) pk s' \<noteq> None" if "PubSend ms \<in> set ts'" for ms pk
  proof -
    from that have m: "ms \<in># mset (concat (map in_send ts'))" by (force simp: in_send_def)
    with inv have "sh_locked s'" by (auto simp: room_inv_def split: if_splits)
    with inv obtain ms0 where "mset (concat (map in_send ts')) = {#ms0#}" "length (sh_buf s') + length ms0 \<le> sh_cap s'"
      by (auto simp: room_inv_def)
    with m have "length (sh_buf s') + length ms \<le> sh_cap s'" by simp
    then show ?thesis by (auto split: list.split)
  qed
  have "\<exists>t \<in> set ts'. \<exists>pk. thread_step t pk s' \<noteq> None" if t: "t \<in> set ts'" "\<not> finished t" for t
  proof (cases "sh_locked s'")
    case True
    with inv obtain ms where "concat (map in_send ts') = [ms]" by (auto simp: room_inv_def)
    then have "ms \<in> set (concat (map in_send ts'))" by simp
    then obtain t0 where "t0 \<in> set ts'" "ms \<in> set (in_send t0)" by auto
    then have "PubSend ms \<in> set ts'" by (cases t0) (auto simp: in_send_def)
    with send show ?thesis by blast
  next
    case False
    have "pub_or_con t" using inv t(1) by (auto simp: room_inv_def)
    with False t send have "\<not> (\<forall>pk. thread_step t pk s' = None)"
      by (cases t) (auto simp: all_picks finished_def split: nat.split list.split)
    with t(1) show ?thesis by blast
  qed
  then have "\<not> deadlocked (ts', s')" by (auto simp: deadlocked_def)
  with send show ?thesis by blast
qed

text \<open>A publisher of two messages that has sent the first, beside a consumer whose context has ended.\<close>

lemma half_sent:
  "sys_step\<^sup>*\<^sup>* ([PubCall False [1, 2 :: nat], ConLock False 5], \<lparr>sh_cap = 2, sh_buf = [], sh_locked = False\<rparr>)
     ([PubSend [2], ConLock True 5], \<lparr>sh_cap = 2, sh_buf = [1], sh_locked = True\<rparr>)"
proof -
  let ?s = "\<lambda>b l. \<lparr>sh_cap = 2, sh_buf = b, sh_locked = l\<rparr> :: nat shared"
  have "sys_step ([PubCall False [1, 2], ConLock False 5], ?s [] False) ([PubLock [1, 2], ConLock False 5], ?s [] False)"
    using thread_moves [of 0 "[PubCall False [1, 2], ConLock False 5]" TakeOther "?s [] False"] by simp
  moreover have "sys_step ([PubLock [1, 2], ConLock False 5], ?s [] False) ([PubSend [1, 2], ConLock False 5], ?s [] True)"
    using thread_moves [of 0 "[PubLock [1, 2], ConLock False 5]" TakeOther "?s [] False"] by simp
  moreover have "sys_step ([PubSend [1, 2], ConLock False 5], ?s [] True) ([PubSend [2], ConLock False 5], ?s [1] True)"
    using thread_moves [of 0 "[PubSend [1, 2], ConLock False 5]" TakeOther "?s [] True"] by simp
  moreover have "sys_step ([PubSend [2], ConLock False 5], ?s [1] True) ([PubSend [2], ConLock True 5], ?s [1] True)"
    using ctx_ends [of 1 "[PubSend [2], ConLock False 5]" "?s [1] True"] by simp
  ultimately show ?thesis by (meson converse_rtranclp_into_rtranclp r_into_rtranclp)
qed

theorem publish_never_blocks_witness:
  "\<not> deadlocked ([PubSend [2 :: nat], ConLock True 5], \<lparr>sh_cap = 2, sh_buf = [1], sh_locked = True\<rparr>) \<and>
   thread_step (PubSend [2 :: nat]) TakeOther \<lparr>sh_cap = 2, sh_buf = [1], sh_locked = True\<rparr> \<noteq> None"
  using publish_never_blocks [OF _ _ _ half_sent, of "[2]" TakeOther] by (simp add: is_call_def)

text \<open>
  C40. The requeue of a Nack breaks that guarantee, because it sends without the mutex: whenever a Publish
  fits exactly into the free room of a queue, a Nack that runs after its capacity check takes one of
  its slots, and the Publish then waits in its send loop holding the mutex, while every later Publish
  and Consume that has come to the mutex waits for it, whatever becomes of its context.  No thread can move again.
\<close>

theorem nack_blocks_publish:
  assumes "ms \<noteq> []" and "length b + length ms = n"
  shows "\<exists>ts s. sys_step\<^sup>*\<^sup>* ([PubLock ms, NackSend m, ConLock c k, PubLock ms'], \<lparr>sh_cap = n, sh_buf = b, sh_locked = False\<rparr>) (ts, s) \<and>
    deadlocked (ts, s) \<and> sh_locked s \<and> (\<exists>rest. rest \<noteq> [] \<and> PubSend rest \<in> set ts)"
proof -
  let ?s = "\<lparr>sh_cap = n, sh_buf = b, sh_locked = False\<rparr>"
  let ?ts = "[NackDone True, ConLock c k, PubLock ms']"
  have "sys_step ([PubLock ms, NackSend m, ConLock c k, PubLock ms'], ?s)
      ([PubSend ms, NackSend m, ConLock c k, PubLock ms'], ?s\<lparr>sh_locked := True\<rparr>)"
    using thread_moves [of 0 "[PubLock ms, NackSend m, ConLock c k, PubLock ms']" TakeOther ?s] assms(2) by simp
  moreover have "sys_step ([PubSend ms, NackSend m, ConLock c k, PubLock ms'], ?s\<lparr>sh_locked := True\<rparr>)
      (PubSend ms # ?ts, ?s\<lparr>sh_locked := True, sh_buf := b @ [m]\<rparr>)"
    using thread_moves [of 1 "[PubSend ms, NackSend m, ConLock c k, PubLock ms']" TakeOther "?s\<lparr>sh_locked := True\<rparr>"] assms
    by (cases ms) simp_all
  moreover have "sys_step\<^sup>*\<^sup>* (PubSend (butlast ms @ [last ms]) # ?ts, ?s\<lparr>sh_locked := True, sh_buf := b @ [m]\<rparr>)
      (PubSend [last ms] # ?ts, ?s\<lparr>sh_locked := True, sh_buf := b @ [m] @ butlast ms\<rparr>)"
    using send_loop [of "?s\<lparr>sh_locked := True, sh_buf := b @ [m]\<rparr>" "butlast ms" "[last ms]" ?ts] assms
    by (cases ms) simp_all
  ultimately have "sys_step\<^sup>*\<^sup>* ([PubLock ms, NackSend m, ConLock c k, PubLock ms'], ?s)
      (PubSend [last ms] # ?ts, ?s\<lparr>sh_locked := True, sh_buf := b @ [m] @ butlast ms\<rparr>)"
    using assms(1) by (metis (no_types, lifting) append_butlast_last_id converse_rtranclp_into_rtranclp)
  moreover have "deadlocked (PubSend [last ms] # ?ts, ?s\<lparr>sh_locked := True, sh_buf := b @ [m] @ butlast ms\<rparr>)"
    using assms by (cases ms) (auto simp: deadlocked_def finished_def)
  ultimately show ?thesis
    by (intro exI [of _ "PubSend [last ms] # ?ts"] exI [of _ "?s\<lparr>sh_locked := True, sh_buf := b @ [m] @ butlast ms\<rparr>"]) auto
qed

theorem nack_blocks_publish_witness:
  "\<exists>ts s. sys_step\<^sup>*\<^sup>* ([PubLock [1 :: nat], NackSend 2, ConLock False 10, PubLock [3]], \<lparr>sh_cap = 1, sh_buf = [], sh_locked = False\<rparr>) (ts, s) \<and>
    deadlocked (ts, s) \<and> sh_locked s \<and> (\<exists>rest. rest \<noteq> [] \<and> PubSend rest \<in> set ts)"
  by (rule nack_blocks_publish) simp_all

text \<open>
  Clear has the same weakness: it holds the mutex, finds the queue non-empty, and a Consume that is
  already past the mutex takes the last message before Clear receives it.
\<close>

lemma clear_blocks:
  "\<exists>cfg. sys_step\<^sup>*\<^sup>* ([ClrLock, ConRecv c 1 []], \<lparr>sh_cap = 1, sh_buf = [x], sh_locked = False\<rparr>) cfg \<and>
    deadlocked cfg \<and> sh_locked (snd cfg)"
proof -
  let ?s = "\<lparr>sh_cap = 1, sh_buf = [x], sh_locked = False\<rparr>"
  have s1: "sys_step ([ClrLock, ConRecv c 1 []], ?s) ([ClrCheck, ConRecv c 1 []], ?s\<lparr>sh_locked := True\<rparr>)"
    using thread_moves [of 0 "[ClrLock, ConRecv c 1 []]" TakeOther ?s] by simp
  have s2: "sys_step ([ClrCheck, ConRecv c 1 []], ?s\<lparr>sh_locked := True\<rparr>) ([ClrRecv, ConRecv c 1 []], ?s\<lparr>sh_locked := True\<rparr>)"
    using thread_moves [of 0 "[ClrCheck, ConRecv c 1 []]" TakeOther "?s\<lparr>sh_locked := True\<rparr>"] by simp
  have s3: "sys_step ([ClrRecv, ConRecv c 1 []], ?s\<lparr>sh_locked := True\<rparr>) ([ClrRecv, ConRecv c 0 [x]], ?s\<lparr>sh_locked := True, sh_buf := []\<rparr>)"
    using thread_moves [of 1 "[ClrRecv, ConRecv c 1 []]" TakeOther "?s\<lparr>sh_locked := True\<rparr>"] by simp
  have s4: "sys_step ([ClrRecv, ConRecv c 0 [x]], ?s\<lparr>sh_locked := True, sh_buf := []\<rparr>) ([ClrRecv, ConDone [x]], ?s\<lparr>sh_locked := True, sh_buf := []\<rparr>)"
    using thread_moves [of 1 "[ClrRecv, ConRecv c 0 [x]]" TakeOther "?s\<lparr>sh_locked := True, sh_buf := []\<rparr>"] by simp
  have "deadlocked ([ClrRecv, ConDone [x]], ?s\<lparr>sh_locked := True, sh_buf := []\<rparr>)"
    by (simp add: deadlocked_def finished_def)
  moreover have "sys_step\<^sup>*\<^sup>* ([ClrLock, ConRecv c 1 []], ?s) ([ClrRecv, ConDone [x]], ?s\<lparr>sh_locked := True, sh_buf := []\<rparr>)"
    by (rule converse_rtranclp_into_rtranclp [where r = sys_step, OF s1], rule converse_rtranclp_into_rtranclp [where r = sys_step, OF s2],
        rule converse_rtranclp_into_rtranclp [where r = sys_step, OF s3], rule r_into_rtranclp [where r = sys_step, OF s4])
  ultimately show ?thesis by (intro exI conjI) (assumption, assumption, simp)
qed

section \<open>Refinement of an atomic queue\<close>

text \<open>
  The specification of one queue: a publish appends its batch in one step, a receive takes the oldest
  message.  The concurrent system refines it with the \<open>backlog\<close> as abstraction: what is in the
  channel, and behind it what the publisher in its send loop has still to send.
\<close>

datatype 'm event = Enq "'m list" | Deq 'm

inductive queue_spec :: "'m list \<Rightarrow> 'm event list \<Rightarrow> 'm list \<Rightarrow> bool" where
  spec_idle: "queue_spec q [] q"
| spec_enq: "queue_spec q es q' \<Longrightarrow> queue_spec q (es @ [Enq ms]) (q' @ ms)"
| spec_deq: "queue_spec q es (m # q') \<Longrightarrow> queue_spec q (es @ [Deq m]) q'"

definition backlog :: "'m thread list \<times> 'm shared \<Rightarrow> 'm list" where
  "backlog cfg = sh_buf (snd cfg) @ concat (concat (map in_send (fst cfg)))"

text \<open>What a step of a thread is for the specification.\<close>

definition event_of :: "'m thread \<Rightarrow> 'm thread \<Rightarrow> 'm event list" where
  "event_of t t' =
     (case (t, t') of
        (PubLock ms, PubSend _) \<Rightarrow> [Enq ms]
      | (ConRecv _ _ _, ConRecv _ _ items) \<Rightarrow> [Deq (last items)]
      | _ \<Rightarrow> [])"

text \<open>A run of the system, with the events of its steps and the threads that made them.\<close>

inductive sys_run :: "'m thread list \<times> 'm shared \<Rightarrow> (nat \<times> 'm event) list \<Rightarrow> 'm thread list \<times> 'm shared \<Rightarrow> bool" where
  run_start: "sys_run cfg [] cfg"
| run_move:
    "sys_run cfg es (ts, s) \<Longrightarrow> i < length ts \<Longrightarrow> thread_step (ts ! i) pk s = Some (t', s') \<Longrightarrow>
     sys_run cfg (es @ map (Pair i) (event_of (ts ! i) t')) (ts[i := t'], s')"
| run_ctx:
    "sys_run cfg es (ts, s) \<Longrightarrow> i < length ts \<Longrightarrow> sys_run cfg es (ts[i := end_ctx (ts ! i)], s)"

definition call_events :: "nat \<Rightarrow> (nat \<times> 'm event) list \<Rightarrow> 'm event list" where
  "call_events i es = map snd (filter (\<lambda>(j, e). j = i) es)"

text \<open>
  What the events of a call have to be, given what was called and where the call is now.  A \<open>Publish\<close> that has
  returned nil has enqueued its batch once, one that has returned an error has enqueued nothing; a \<open>Consume\<close> has
  dequeued exactly the messages it returns, in that order, or, if it returned \<open>ctx.Err()\<close>, the messages it dropped.
\<close>

definition accounts_for :: "'m thread \<Rightarrow> 'm thread \<Rightarrow> 'm event list \<Rightarrow> bool" where
  "accounts_for t0 t evs \<longleftrightarrow>
     (case t0 of
        PubCall c ms \<Rightarrow>
          (case t of
             PubCall c' ms' \<Rightarrow> ms' = ms \<and> evs = []
           | PubLock ms' \<Rightarrow> ms' = ms \<and> ms \<noteq> [] \<and> evs = []
           | PubSend rest \<Rightarrow> ms \<noteq> [] \<and> evs = [Enq ms]
           | PubDone ok \<Rightarrow> evs = (if ok \<and> ms \<noteq> [] then [Enq ms] else [])
           | _ \<Rightarrow> False)
      | ConLock c n \<Rightarrow>
          (case t of
             ConLock c' n' \<Rightarrow> n' = n \<and> evs = []
           | ConRecv c' k items \<Rightarrow> length items + k = n \<and> evs = map Deq items
           | ConDone items \<Rightarrow> length items \<le> n \<and> evs = map Deq items
           | ConFailed items \<Rightarrow> length items < n \<and> evs = map Deq items
           | _ \<Rightarrow> False)
      | _ \<Rightarrow> False)"

lemma sys_run_steps: "sys_run cfg es cfg' \<Longrightarrow> sys_step\<^sup>*\<^sup>* cfg cfg'"
  by (induction rule: sys_run.induct) (auto intro: rtranclp.rtrancl_into_rtrancl sys_step.intros)

lemma sys_steps_run: "sys_step\<^sup>*\<^sup>* cfg cfg' \<Longrightarrow> \<exists>es. sys_run cfg es cfg'"
  by (induction rule: rtranclp_induct) (auto elim!: sys_step.cases intro: sys_run.intros)

subsection \<open>The calls\<close>

lemma accounts_step:
  assumes "thread_step t pk s = Some (t', s')" and "accounts_for t0 t evs"
  shows "accounts_for t0 t' (evs @ event_of t t')"
  using assms
  by (cases t; cases t0; auto simp: accounts_for_def event_of_def split: if_splits nat.splits list.splits pick.splits)

lemma accounts_ctx: "accounts_for t0 t evs \<Longrightarrow> accounts_for t0 (end_ctx t) evs"
  by (cases t) (auto simp: accounts_for_def split: thread.splits)

lemma call_events_append:
  "call_events j (es @ map (Pair i) evs) = call_events j es @ (if i = j then evs else [])"
  by (induction evs) (auto simp: call_events_def)

lemma accounts_start: "is_call t \<Longrightarrow> accounts_for t t (call_events i [])"
  by (auto simp: accounts_for_def call_events_def elim!: is_call_cases)

lemma sys_run_accounts:
  assumes "sys_run (ts, s) es cfg" and "\<forall>t \<in> set ts. is_call t"
  shows "length (fst cfg) = length ts \<and> (\<forall>j < length ts. accounts_for (ts ! j) (fst cfg ! j) (call_events j es))"
  using assms
proof (induction "(ts, s)" es cfg rule: sys_run.induct)
  case run_start
  then show ?case by (simp add: accounts_start)
next
  case (run_move es ts' s' i pk t' s'')
  have "accounts_for (ts ! j) (ts'[i := t'] ! j) (call_events j (es @ map (Pair i) (event_of (ts' ! i) t')))"
    if "j < length ts" for j
    using that run_move accounts_step [OF run_move.hyps(4), of "ts ! i" "call_events i es"]
    by (cases "i = j") (simp_all add: call_events_append)
  with run_move show ?case by simp
next
  case (run_ctx es ts' s' i)
  have "accounts_for (ts ! j) (ts'[i := end_ctx (ts' ! i)] ! j) (call_events j es)" if "j < length ts" for j
    using that run_ctx accounts_ctx [of "ts ! j" "ts' ! j"] by (cases "i = j") simp_all
  with run_ctx show ?case by simp
qed

subsection \<open>The queue\<close>

lemma sends_update:
  assumes "i < length ts"
  shows "mset (concat (map in_send (ts[i := t']))) + mset (in_send (ts ! i)) =
    mset (concat (map in_send ts)) + mset (in_send t')"
  by (rule mset_concat_update [OF assms])

text \<open>The only send loop, while the mutex is held.\<close>

lemma only_sender:
  assumes "room_inv (ts, s)" and "i < length ts" and "in_send (ts ! i) = [ms]"
  shows "concat (map in_send ts) = [ms]"
proof -
  have "ms \<in> set (concat (map in_send ts))" using assms(2,3) nth_mem [OF assms(2)] by (auto intro!: bexI [of _ "ts ! i"])
  with assms(1) obtain ms' where "mset (concat (map in_send ts)) = {#ms'#}" by (auto simp: room_inv_def split: if_splits)
  then have "concat (map in_send ts) = [ms']" by simp
  with \<open>ms \<in> _\<close> show ?thesis by simp
qed

lemma sends_kept:
  assumes "in_send (ts ! i) = []" and "in_send t' = []"
  shows "concat (map in_send (ts[i := t'])) = concat (map in_send ts)"
proof -
  have "map in_send (ts[i := t']) = map in_send ts"
    using assms by (cases "i < length ts") (simp_all add: map_update list_update_same_conv list_update_beyond)
  then show ?thesis by simp
qed

text \<open>A step that neither enters a send loop nor leaves one nor touches the channel.\<close>

lemma backlog_quiet:
  assumes "queue_spec q es (backlog (ts, s))" and "in_send (ts ! i) = []" and "in_send t' = []"
    and "sh_buf s' = sh_buf s" and "event_of (ts ! i) t' = []"
  shows "queue_spec q (es @ event_of (ts ! i) t') (backlog (ts[i := t'], s'))"
  using assms(1,4,5) sends_kept [OF assms(2,3)] by (simp add: backlog_def del: map_update)

lemma backlog_lock:
  assumes "room_inv (ts, s)" and "i < length ts" and "thread_step (ts ! i) pk s = Some (t', s')"
    and "queue_spec q es (backlog (ts, s))" and "ts ! i = PubLock ms"
  shows "queue_spec q (es @ event_of (ts ! i) t') (backlog (ts[i := t'], s'))"
proof (cases "length ms > sh_cap s - length (sh_buf s)")
  case True
  with assms(3,5) have "t' = PubDone False" "s' = s" by (auto split: if_splits)
  with assms(5) show ?thesis by (intro backlog_quiet [OF assms(4)]) (simp_all add: in_send_def event_of_def)
next
  case False
  with assms(3,5) have t': "t' = PubSend ms" "sh_buf s' = sh_buf s" "\<not> sh_locked s" by (auto split: if_splits)
  from assms(1) t'(3) have none: "concat (map in_send ts) = []" by (simp add: room_inv_def)
  with sends_update [OF assms(2), of t'] assms(5) t'(1) have "concat (map in_send (ts[i := t'])) = [ms]"
    by (simp add: in_send_def)
  with assms(4) none show ?thesis
    using spec_enq [of q es "sh_buf s" ms] by (simp add: assms(5) t'(1,2) event_of_def backlog_def)
qed

lemma backlog_send:
  assumes "room_inv (ts, s)" and "i < length ts" and "thread_step (ts ! i) pk s = Some (t', s')"
    and "ts ! i = PubSend ms"
  shows "event_of (ts ! i) t' = [] \<and> backlog (ts[i := t'], s') = backlog (ts, s)"
proof -
  note u = sends_update [OF assms(2), of t']
  have one: "concat (map in_send ts) = [ms]"
    by (rule only_sender [OF assms(1,2)]) (simp add: assms(4) in_send_def)
  show ?thesis
  proof (cases ms)
    case Nil
    with assms(3,4) have t': "t' = PubDone True" "sh_buf s' = sh_buf s" by auto
    have "mset (concat (map in_send (ts[i := t']))) = {#}" using u one assms(4) t' by (simp add: in_send_def)
    then have none: "concat (map in_send (ts[i := t'])) = []" by (simp only: mset_zero_iff)
    show ?thesis unfolding backlog_def fst_conv snd_conv none one by (simp add: assms(4) t' Nil event_of_def)
  next
    case (Cons m rest)
    with assms(3,4) have t': "t' = PubSend rest" "sh_buf s' = sh_buf s @ [m]" by (auto split: if_splits)
    with u one assms(4) have "concat (map in_send (ts[i := t'])) = [rest]" by (simp add: in_send_def)
    with one Cons show ?thesis by (simp add: assms(4) t' event_of_def backlog_def)
  qed
qed

lemma backlog_recv:
  assumes "thread_step (ts ! i) pk s = Some (t', s')" and "queue_spec q es (backlog (ts, s))" and "ts ! i = ConRecv c n items"
  shows "queue_spec q (es @ event_of (ts ! i) t') (backlog (ts[i := t'], s'))"
proof (cases "n = 0 \<or> pk = TakeCtx \<or> sh_buf s = []")
  case True
  with assms(1,3) have "t' = ConDone items \<or> t' = ConFailed items" "s' = s"
    by (auto split: nat.splits list.splits pick.splits if_splits)
  with assms(3) show ?thesis by (intro backlog_quiet [OF assms(2)]) (auto simp: in_send_def event_of_def)
next
  case False
  with assms(1,3) obtain k m rest where
    "n = Suc k" "sh_buf s = m # rest" "t' = ConRecv c k (items @ [m])" "sh_buf s' = rest"
    by (auto split: nat.splits list.splits pick.splits)
  moreover from this assms(3) sends_kept [of ts i t']
  have "concat (map in_send (ts[i := t'])) = concat (map in_send ts)" by (simp add: in_send_def)
  ultimately show ?thesis using assms(2,3) by (auto simp: event_of_def backlog_def intro: spec_deq)
qed

lemma backlog_step:
  assumes "room_inv (ts, s)" and "i < length ts" and "thread_step (ts ! i) pk s = Some (t', s')"
    and "queue_spec q es (backlog (ts, s))"
  shows "queue_spec q (es @ event_of (ts ! i) t') (backlog (ts[i := t'], s'))"
proof -
  have pc: "pub_or_con (ts ! i)" using assms(1,2) by (simp add: room_inv_def)
  show ?thesis
  proof (cases "ts ! i")
    case (PubSend ms)
    with backlog_send [OF assms(1-3)] assms(4) show ?thesis by simp
  next
    case (PubCall c ms)
    with assms(3) show ?thesis
      by (intro backlog_quiet [OF assms(4)]) (auto simp: in_send_def event_of_def split: if_splits)
  next
    case (ConLock c n)
    with assms(3) show ?thesis
      by (intro backlog_quiet [OF assms(4)]) (auto simp: in_send_def event_of_def split: if_splits)
  next
    case (PubLock ms)
    then show ?thesis by (rule backlog_lock [OF assms])
  next
    case (ConRecv c n items)
    then show ?thesis by (rule backlog_recv [OF assms(3,4)])
  qed (use pc assms(3) in auto)
qed

lemma sys_run_refines:
  assumes "sys_run cfg es cfg'" and "room_inv cfg"
  shows "room_inv cfg' \<and> queue_spec (backlog cfg) (map snd es) (backlog cfg')"
  using assms
proof (induction rule: sys_run.induct)
  case (run_start cfg)
  then show ?case by (auto intro: spec_idle)
next
  case (run_move cfg es ts s i pk t' s')
  then show ?case using room_inv_step backlog_step by (auto simp: comp_def)
next
  case (run_ctx cfg es ts s i)
  then show ?case using room_inv_ctx by (auto simp: backlog_def simp del: map_update)
qed

text \<open>What the specification promises: first in, first out.\<close>

definition enqueued :: "'m event list \<Rightarrow> 'm list" where
  "enqueued es = concat (map (\<lambda>e. case e of Enq ms \<Rightarrow> ms | Deq _ \<Rightarrow> []) es)"

definition dequeued :: "'m event list \<Rightarrow> 'm list" where
  "dequeued es = concat (map (\<lambda>e. case e of Enq _ \<Rightarrow> [] | Deq m \<Rightarrow> [m]) es)"

lemma queue_spec_fifo: "queue_spec q es q' \<Longrightarrow> q @ enqueued es = dequeued es @ q'"
  by (induction rule: queue_spec.induct) (auto simp: enqueued_def dequeued_def)

lemma backlog_start:
  assumes "\<forall>t \<in> set ts. is_call t"
  shows "backlog (ts, s) = sh_buf s"
  using assms by (induction ts) (auto simp: backlog_def in_send_def elim!: is_call_cases)

text \<open>
  C15. Concurrent Publish and Consume calls on a queue are linearizable: every interleaving of any number of
  publishers and consumers, statement by statement, with contexts that may end at any time, is a run of an atomic
  queue in which each batch is appended in one step, where its publisher gets the mutex and finds room, and each
  receive takes the oldest message.  Every call has its share in that run: a Publish that has returned nil has
  appended its batch once and one that has returned an error nothing, and a Consume has taken exactly the messages
  it returns, in the order it returns them, or, when it gives its context's error instead, those it has dropped.  So
  batches are never mixed, and the consumers together take the messages in the order in which the batches were accepted.
\<close>

theorem concurrent_queue_refines:
  assumes "\<forall>t \<in> set ts. is_call t"
    and "length (sh_buf s) \<le> sh_cap s" and "\<not> sh_locked s" and "sys_run (ts, s) es (ts', s')"
  shows "queue_spec (sh_buf s) (map snd es) (backlog (ts', s')) \<and>
    sh_buf s @ enqueued (map snd es) = dequeued (map snd es) @ backlog (ts', s') \<and>
    (\<forall>i < length ts. accounts_for (ts ! i) (ts' ! i) (call_events i es))"
proof -
  from sys_run_refines [OF assms(4) room_inv_init [OF assms(1-3)]]
  have "queue_spec (sh_buf s) (map snd es) (backlog (ts', s'))" by (simp add: backlog_start [OF assms(1)])
  then show ?thesis using queue_spec_fifo sys_run_accounts [OF assms(4,1)] by auto
qed

text \<open>
  A publisher of two messages and two consumers: the first returns the older message, the second loses the other one
  because its context ends.
\<close>

theorem concurrent_queue_refines_witness:
  "\<exists>es s'. sys_run ([PubCall False [1, 2 :: nat], ConLock False 1, ConLock False 2], \<lparr>sh_cap = 2, sh_buf = [], sh_locked = False\<rparr>) es
       ([PubDone True, ConDone [1], ConFailed [2]], s') \<and>
     queue_spec [] (map snd es) [] \<and> call_events 0 es = [Enq [1, 2]] \<and> call_events 1 es = [Deq 1] \<and> call_events 2 es = [Deq 2]"
proof -
  let ?s = "\<lambda>b l. \<lparr>sh_cap = 2, sh_buf = b, sh_locked = l\<rparr> :: nat shared"
  let ?R = "sys_run ([PubCall False [1, 2], ConLock False 1, ConLock False 2], ?s [] False)"
  have "?R [] ([PubCall False [1, 2], ConLock False 1, ConLock False 2], ?s [] False)" by (rule run_start)
  from run_move [OF this, of 1] have "?R [] ([PubCall False [1, 2], ConRecv False 1 [], ConLock False 2], ?s [] False)"
    by (simp add: event_of_def)
  from run_move [OF this, of 2] have "?R [] ([PubCall False [1, 2], ConRecv False 1 [], ConRecv False 2 []], ?s [] False)"
    by (simp add: event_of_def)
  from run_move [OF this, of 0] have "?R [] ([PubLock [1, 2], ConRecv False 1 [], ConRecv False 2 []], ?s [] False)"
    by (simp add: event_of_def)
  from run_move [OF this, of 0] have "?R [(0, Enq [1, 2])] ([PubSend [1, 2], ConRecv False 1 [], ConRecv False 2 []], ?s [] True)"
    by (simp add: event_of_def)
  from run_move [OF this, of 0] have "?R [(0, Enq [1, 2])] ([PubSend [2], ConRecv False 1 [], ConRecv False 2 []], ?s [1] True)"
    by (simp add: event_of_def)
  from run_move [OF this, of 1 TakeOther] have
    "?R [(0, Enq [1, 2]), (1, Deq 1)] ([PubSend [2], ConRecv False 0 [1], ConRecv False 2 []], ?s [] True)"
    by (simp add: event_of_def)
  from run_move [OF this, of 0] have "?R [(0, Enq [1, 2]), (1, Deq 1)] ([PubSend [], ConRecv False 0 [1], ConRecv False 2 []], ?s [2] True)"
    by (simp add: event_of_def)
  from run_move [OF this, of 2 TakeOther] have
    "?R [(0, Enq [1, 2]), (1, Deq 1), (2, Deq 2)] ([PubSend [], ConRecv False 0 [1], ConRecv False 1 [2]], ?s [] True)"
    by (simp add: event_of_def)
  from run_ctx [OF this, of 2] have
    "?R [(0, Enq [1, 2]), (1, Deq 1), (2, Deq 2)] ([PubSend [], ConRecv False 0 [1], ConRecv True 1 [2]], ?s [] True)" by simp
  from run_move [OF this, of 2 TakeCtx] have
    "?R [(0, Enq [1, 2]), (1, Deq 1), (2, Deq 2)] ([PubSend [], ConRecv False 0 [1], ConFailed [2]], ?s [] True)"
    by (simp add: event_of_def)
  from run_move [OF this, of 0] have
    "?R [(0, Enq [1, 2]), (1, Deq 1), (2, Deq 2)] ([PubDone True, ConRecv False 0 [1], ConFailed [2]], ?s [] False)"
    by (simp add: event_of_def)
  from run_move [OF this, of 1] have r:
    "?R [(0, Enq [1, 2]), (1, Deq 1), (2, Deq 2)] ([PubDone True, ConDone [1], ConFailed [2]], ?s [] False)"
    by (simp add: event_of_def)
  have "\<forall>t \<in> set [PubCall False [1, 2], ConLock False 1, ConLock False 2 :: nat thread]. is_call t" by (simp add: is_call_def)
  from concurrent_queue_refines [OF this _ _ r] have "queue_spec [] (map snd [(0 :: nat, Enq [1, 2 :: nat]), (1, Deq 1), (2, Deq 2)]) []"
    by (simp add: backlog_def in_send_def)
  with r show ?thesis
    by (intro exI [of _ "[(0, Enq [1, 2]), (1, Deq 1), (2, Deq 2)]"] exI [of _ "?s [] False"]) (simp add: call_events_def)
qed

end
