(* ===== verification/Spec2Isabelle.thy ===== *)
theory Spec2Isabelle
  imports AsyncServer PoolSqs CommandLine UserGrpc Generator MemoryRaces
begin

text \<open>
  A verification development for grpcq, a library that carries gRPC-style calls over message queues
  (the Go implementation under \<open>src/go\<close>; the Rust and TypeScript siblings are not modelled).

  \<^bold>\<open>The program.\<close>  A client marshals a request into an envelope (\<open>proto/message.pb.go\<close>) whose topic and
  action are the gRPC service and method, and a \<open>Producer\<close> publishes it through a \<open>QueueAdapter\<close>.  On the
  other side a \<open>Worker\<close> polls the adapter, gives each message to the \<open>Registry\<close> in a goroutine of
  its own, and settles the message's receipt by the outcome: \<open>Ack\<close> or \<open>Nack\<close>.  A \<open>WorkerPool\<close> runs several
  workers on one adapter.  Adapters exist in memory and for SQS, and a remote adapter publishes into an in-memory
  one through an HTTP endpoint.  The packages \<open>grpc\<close> and \<open>grpcq\<close> put gRPC stubs, producers and consumers on top; the plugin
  \<open>protoc-gen-grpcq\<close> generates the latter two, and the example program runs all of it.

  \<^bold>\<open>Theories.\<close>
  \<^item> \<open>Prelude\<close>: bytes, the wrap-around of \<open>int32\<close> and \<open>int64\<close>, copying of maps, and the facts on lists,
    association lists and multisets the components share.
  \<^item> \<open>GoStrings\<close>: the parts of Go's \<open>unicode\<close>, \<open>utf8\<close>, \<open>strings\<close> and \<open>fmt\<close> that the sources call, on bytes.
  \<^item> \<open>Types\<close>: error values, contexts, the envelope, consumed items and the worker's configuration
    (\<open>core/types.go\<close>).
  \<^item> \<open>QueueAdapter\<close>: the interfaces of \<open>core/types.go\<close>, their method sets as records and their contracts as
    locales: \<open>queue_publisher\<close>, what a producer relies on, and \<open>queue_adapter\<close>, what a worker relies on.
  \<^item> \<open>Registry\<close> (\<open>core/registry.go\<close>): the dispatch table, the locale \<open>dispatch_table\<close> and its interpretation.
  \<^item> \<open>Producer\<close> (\<open>core/producer.go\<close>): validation, \<open>Send\<close>, \<open>SendBatch\<close>; the locale \<open>message_publisher\<close>.
  \<^item> \<open>MemoryAdapter\<close> (\<open>adapters/memory/adapter.go\<close>): channels and receipts as a heap, every method as one
    step; the locales are interpreted on it.
  \<^item> \<open>MemoryHistory\<close>: sequences of calls on the adapter, and the accounts of its messages.
  \<^item> \<open>MemoryRaces\<close>: the same methods statement by statement, as threads on one channel and one mutex, with contexts
    that may end at any time, and the atomic queue they refine.
  \<^item> \<open>Url\<close>, \<open>Json\<close>, \<open>HttpAdapter\<close> (\<open>adapters/memory/http_adapter.go\<close>): Go's URL escaping and path cleaning, its JSON encoder and
    scanner as far as the request needs them, and on top the publish endpoint behind Go's multiplexer and the remote adapter.
  \<^item> \<open>Worker\<close> (\<open>core/worker.go\<close>): \<open>Start\<close>, its goroutines, \<open>Stop\<close> and their environment as the step relation
    \<open>worker_step\<close>, for any adapter; runs carry the labels that say what happened to messages.  The
    locale \<open>bounded_consumer\<close> bounds what a stopping worker still does on an adapter that respects the batch size,
    and \<open>worker_queue\<close>, a sublocale of it, adds the laws of receipts.
  \<^item> \<open>WorkerPool\<close> (\<open>core/worker.go\<close>): the pool as a step relation over the states of its workers.
  \<^item> \<open>WorkerMemory\<close>: \<open>worker_queue\<close> interpreted on the in-memory adapter, with other users of the adapter
    as environment, and a concrete run; and the worker while others may hold the adapter's mutex (\<open>mutex_cont\<close>).
  \<^item> \<open>Base64\<close>, \<open>SqsAdapter\<close> (\<open>adapters/sqs/adapter.go\<close>): Go's standard base64 and the SQS adapter.
  \<^item> \<open>WorkerSqs\<close>: the worker on the SQS adapter.  What the service documents is the hypothesis
    \<open>sqs_contract\<close>: a message that was sent stays in the queue until it is deleted by a handle issued for it, or lapses,
    because its retention period ends, it is redriven to a dead-letter queue, or the queue is purged; \<open>sqs_documented\<close> is
    its instance for a service during whose calls nothing lapses.  The locale \<open>durable_queue\<close> draws the consequences
    for a worker, and a small concrete service, in which messages can lapse, satisfies it.
  \<^item> \<open>PoolSqs\<close>: the same for the workers of a pool that receive from and settle on one service.
  \<^item> \<open>GrpcBridge\<close> (\<open>grpc/client.go\<close>, \<open>grpc/server.go\<close>): method paths, the asynchronous client connection, and
    methods wrapped into handlers, reflectively or statically.
  \<^item> \<open>Grpcq\<close> (\<open>grpcq/client.go\<close>, \<open>grpcq/server.go\<close>): the client and server runtime.
  \<^item> \<open>UserService\<close> (\<open>examples/userservice\<close>): the example service and its generated producer and consumer.
  \<^item> \<open>UserGrpc\<close> (\<open>proto/user_grpc.pb.go\<close>): the generated gRPC client stub, service descriptor and method handlers,
    and the asynchronous connection as the channel below the stub.
  \<^item> \<open>Generator\<close> (\<open>cmd/protoc-gen-grpcq/main.go\<close>): the lines the plugin prints for a service descriptor.
  \<^item> \<open>DemoProgram\<close> (\<open>examples/userservice/main.go\<close>): the five modes of the example program as lists of effects.
  \<^item> \<open>ServerSystem\<close>: the server of the example as one system: its worker, the publish endpoint in front of its
    adapter, and \<open>Stop\<close>, interleaved; \<open>serve_run\<close> lists the messages the endpoint has accepted.
  \<^item> \<open>AsyncServer\<close> (\<open>runAsyncServer\<close> of \<open>examples/userservice/main.go\<close>): the process around that system, with main's
    \<open>select\<close> and shutdown, the goroutines and channels of the program, and signals, as the step relation
    \<open>proc_step\<close>; \<open>DemoProgram\<close> gives the same mode as a function of what its channels deliver.
  \<^item> \<open>CommandLine\<close>: the flags of the program, Go's parser for them, and \<open>main\<close> up to the choice of the mode.
  \<^item> This theory: properties from client to handler.

  \<^bold>\<open>What the theorems show.\<close>  The adapter is FIFO, settles a receipt at most once, and refuses a batch as a
  whole; the registry runs the handler registered last.  The worker's books balance at every moment
  of every interleaving, for any adapter; when \<open>Start\<close> or \<open>Stop\<close> has returned, every dispatched message
  was handled once and settled once, acknowledged if its handler returned \<open>nil\<close> and rejected otherwise; what the two
  return is determined; handlers in flight are bounded; the worker never deadlocks and, once
  told to stop, makes a bounded number of steps, and is held up only where it needs the adapter's mutex and another
  goroutine has it.  The failure of one worker stops the whole pool,
  and workers sharing the in-memory adapter never settle each other's receipts.  A call reaches its
  handler with its request unchanged.  SQS bodies round-trip, and batches are consecutive tens.
  Any history of calls leaves the in-memory adapter well-formed with every message accounted for, dropped only by calls of
  \<open>Consume\<close> that fail, and concurrent publishers and consumers refine an atomic queue, each call with its own share of it.  Publishing over HTTP is publishing on the adapter behind the
  endpoint, for every queue name that survives the path of a URL, and so is a client's call; a request is published as a
  whole or not at all.  Generated producers call what generated consumers serve; a lemma says that the plugin reproduces the file the
  example is built with.  The command line selects the mode it names.  The same method calls, made synchronously through the gRPC stub and handlers or asynchronously through
  the queue, run the same service method on the same request, and the gRPC stub can itself be put over the queue.
  On SQS a worker removes a message only after its handler has succeeded, and a message no handler has succeeded on is
  still there unless it has lapsed or another user has removed it, for one worker and for a pool.  In the running server every message the
  endpoint accepted is waiting, held by the worker, done, abandoned at shutdown, or lost: to a requeue that found no room, or, less than
  one batch, to the call of \<open>Consume\<close> that the shutdown cancels; and every user of the service was asked for by an accepted request.
  The process of the asynchronous server does what its mode is described to do, has drained its server when main returns, and
  shuts down within a computed number of steps once it has stopped a server that had started, unless a publish handler keeps
  the adapter's mutex.
  Other theorems and lemmas state behaviour a user should know of: a process that hangs for ever when it is told to stop before
  its server has started, messages abandoned at shutdown or dropped by a
  cancelled \<open>Consume\<close>, an error the pool can swallow, a \<open>Stop\<close> that does not wait, the deadlock
  a \<open>Nack\<close> can cause in \<open>Publish\<close>, a body that does not decode and ends the SQS worker, and queue names the HTTP endpoint unescapes twice or refuses.

  \<^bold>\<open>Modelling choices.\<close>  Go strings and byte slices are byte lists.  Errors are values of \<open>error\<close>; a
  \<open>nil\<close> error is \<open>None\<close>, and a panic is the error \<open>Panic\<close>.  A context is what \<open>ctx.Err()\<close> returns.  Go's
  \<open>select\<close> is one rule per ready case, or, in \<open>Consume\<close>, an oracle that gives for each turn the context and
  the choice.  A call of the in-memory adapter is one step of the models of the worker, the pool, the server and the process.  That it
  takes the adapter's mutex first, and that another call may keep that for ever, is a flag there: \<open>mutex_cont\<close> and \<open>pr_mutex\<close> let
  other goroutines take the mutex and give it back at any time, and hold up \<open>Consume\<close> while they have it.  What happens
  inside a call is the subject of \<open>MemoryRaces\<close>, where alone the sends of a \<open>Publish\<close> that a \<open>Nack\<close> has blocked half way
  can be seen.  Code outside the repository (protobuf, UUIDs, clocks, the AWS client, gRPC status errors,
  Go's assignability, the network behind an HTTP client, protogen's naming of packages) is an argument of the definitions that use it, and a theorem that needs a
  law of it says so.  No fuel is used: every loop is structural or has a termination measure, and the
  loop of \<open>Start\<close>, which does not end by itself, is a step relation with \<open>work_left\<close> as the
  measure of what remains once it is stopping.

  \<^bold>\<open>Not modelled.\<close>  Logging outside the example program; handlers that panic or never return (a handler is a function, its
  state may change at any time between steps); a second call of \<open>Start\<close> on one worker; request bodies that fail while
  they are read; the user, host and port syntax of URLs; the page a redirect carries; the import block and the
  formatting protogen adds to generated files; the reflection code and accessors of the generated protobuf files, which are
  output of other generators; the gRPC transport between stub and handler, which is a parameter; flags of other types, and the
  usage message of the flag package.  The publishing client inside the demo mode is a function of what its calls return, and not a thread of
  the process; to the server's process it is one of the clients whose requests it serves.  The memory model of Go is not modelled: the fields
  that \<open>Server.Start\<close> writes and \<open>Server.Stop\<close> reads without a lock are written in one step.
\<close>

section \<open>From client to handler\<close>

text \<open>
  What a client's successful call leaves in the in-memory queue: one message more, at the back of the
  queue the options choose, with the call's service, method and marshalled request.
\<close>

lemma invoke_enqueues:
  assumes "mem_inv a"
    and "client_Invoke marshal Publish uuid now cl c svc mth req (map apply_option opts) a = (None, a')"
  shows "\<exists>payload. marshal req = Inr payload \<and>
    pending a' = (pending a)(option_queue (cc_QueueName (cl_config cl)) opts :=
      pending a (option_queue (cc_QueueName (cl_config cl)) opts) @
      [envelope (cl_producer cl) svc mth payload uuid now (fold (\<lambda>(k, v). AList.update k v) (option_entries opts) [])])"
proof -
  let ?q = "option_queue (cc_QueueName (cl_config cl)) opts"
  let ?md = "fold (\<lambda>(k, v). AList.update k v) (option_entries opts) []"
  have "Send marshal Publish uuid now (cl_producer cl) c ?q svc mth req ?md a = (None, a')"
    using assms(2) invoke_sends [of marshal Publish uuid now cl c svc mth req opts a] by simp
  from mem_messages.send_ok [OF assms(1) this] show ?thesis by (auto simp: send_accepts_def)
qed

text \<open>
  C5. A call reaches its handler unchanged: if a client's Invoke on the in-memory adapter succeeds, the
  queue chosen by its options holds exactly one message more, and a server on which the method was
  registered last runs the registered handler on that message with the very request of the call, for
  any codec that unmarshals what it marshals.
\<close>

theorem rpc_end_to_end:
  assumes "mem_inv a"
    and "client_Invoke marshal Publish uuid now cl c svc mth req (map apply_option opts) a = (None, a')"
    and "unmarshal newRequest = Some um" and "\<And>payload. marshal req = Inr payload \<Longrightarrow> um payload = Inr req"
  shows "\<exists>msg. pending a' = (pending a)(option_queue (cc_QueueName (cl_config cl)) opts :=
        pending a (option_queue (cc_QueueName (cl_config cl)) opts) @ [msg]) \<and>
    Originator msg = originator (cl_producer cl) \<and> MessageId msg = uuid \<and> Metadata msg = map_of (rev (option_entries opts)) \<and>
    Handle (srv_registry (server_RegisterMethod unmarshal svc mth handler newRequest srv)) c' msg app =
      (case handler c' req app of (Inl err, app') \<Rightarrow> (Some err, app') | (Inr resp, app') \<Rightarrow> (None, app'))"
proof -
  let ?md = "fold (\<lambda>(k, v). AList.update k v) (option_entries opts) []"
  from invoke_enqueues [OF assms(1,2)] obtain payload where
    p: "marshal req = Inr payload"
      "pending a' = (pending a)(option_queue (cc_QueueName (cl_config cl)) opts :=
        pending a (option_queue (cc_QueueName (cl_config cl)) opts) @ [envelope (cl_producer cl) svc mth payload uuid now ?md])"
    by blast
  let ?msg = "envelope (cl_producer cl) svc mth payload uuid now ?md"
  have "Handle (srv_registry (server_RegisterMethod unmarshal svc mth handler newRequest srv)) c' ?msg app =
      wrappedHandler unmarshal handler newRequest c' ?msg app"
    by (rule Handle_found) (simp add: server_RegisterMethod_def Let_def reg_lookup_Register envelope_def)
  also have "\<dots> = (case handler c' req app of (Inl err, app') \<Rightarrow> (Some err, app') | (Inr resp, app') \<Rightarrow> (None, app'))"
    using assms(3,4) p(1) by (simp add: wrappedHandler_def envelope_def)
  finally show ?thesis using p(2) option_metadata [of "cl_producer cl" svc mth payload uuid now opts]
    by (intro exI [of _ ?msg]) (simp add: envelope_def)
qed

definition user_client :: Client where
  "user_client = NewUserServiceProducer [WithClientQueueName ''users'']"

lemma user_client_queue: "cc_QueueName (cl_config user_client) = ''users''"
  by (simp add: user_client_def NewUserServiceProducer_def NewClient_def WithClientQueueName_def)

lemma user_call_accepted:
  "fst (client_Invoke (\<lambda>_. Inr ''x'') Publish ''id'' 5 user_client None service_name ''CreateUser'' (ReqCreate ann)
    (map apply_option []) (NewAdapter 3)) = None"
proof -
  have "validateQueueName ''users'' = None" by (rule validateQueueName_ok) (simp_all add: queue_char_def)
  moreover have "validateTopicAction service_name ''CreateUser'' = None"
    by (rule validateTopicAction_ok) (simp_all add: service_name_def IsSpace_def)
  ultimately show ?thesis
    unfolding invoke_sends
    by (simp add: Send_def option_queue_def user_client_queue MaxMessageSize_def Publish_def NewAdapter_def ensure_queue_def
        make_queue_def chan_cap_def chan_len_def)
qed

theorem rpc_end_to_end_witness:
  "\<exists>msg a'. producer_CreateUser (\<lambda>_. Inr ''x'') Publish ''id'' 5 user_client None ann (map apply_option []) (NewAdapter 3) = (None, a') \<and>
     pending a' ''users'' = [msg] \<and>
     Handle (srv_registry (server_RegisterMethod (\<lambda>_. Some (\<lambda>_. Inr (ReqCreate ann))) service_name ''CreateUser''
        (create_closure (\<lambda>_. Ext)) (ReqCreate \<lparr>cu_Name = [], cu_Email = []\<rparr>) (NewServer [] :: (message MemAdapter, UserService, nat) Server))) None msg (NewUserService 7) =
       (None, snd (CreateUser (\<lambda>_. Ext) None ann (NewUserService 7)))"
proof -
  let ?inv = "client_Invoke (\<lambda>_. Inr ''x'') Publish ''id'' 5 user_client None service_name ''CreateUser'' (ReqCreate ann)
    (map apply_option []) (NewAdapter 3)"
  note q = user_client_queue
  have "fst ?inv = None" by (rule user_call_accepted)
  then have i: "?inv = (None, snd ?inv)" by (metis prod.collapse)
  obtain msg where "pending (snd ?inv) = (pending (NewAdapter 3))(''users'' := pending (NewAdapter 3) ''users'' @ [msg])"
    "Handle (srv_registry (server_RegisterMethod (\<lambda>_. Some (\<lambda>_. Inr (ReqCreate ann))) service_name ''CreateUser''
        (create_closure (\<lambda>_. Ext)) (ReqCreate \<lparr>cu_Name = [], cu_Email = []\<rparr>) (NewServer [] :: (message MemAdapter, UserService, nat) Server))) None msg (NewUserService 7) =
      (case create_closure (\<lambda>_. Ext) None (ReqCreate ann) (NewUserService 7) of
         (Inl err, app') \<Rightarrow> (Some err, app') | (Inr resp, app') \<Rightarrow> (None, app'))"
    using rpc_end_to_end [OF mem_inv_New i, where unmarshal = "\<lambda>_. Some (\<lambda>_. Inr (ReqCreate ann))"
        and newRequest = "ReqCreate \<lparr>cu_Name = [], cu_Email = []\<rparr>" and um = "\<lambda>_. Inr (ReqCreate ann)"
        and handler = "create_closure (\<lambda>_. Ext)" and srv = "NewServer [] :: (message MemAdapter, UserService, nat) Server" and c' = None and app = "NewUserService 7"]
    by (auto simp: option_queue_def q)
  moreover have "pending (NewAdapter 3) ''users'' = []" by (simp add: pending_def NewAdapter_def)
  moreover have "create_closure (\<lambda>_. Ext) None (ReqCreate ann) (NewUserService 7) =
      (Inr (RespCreate (projr (fst (CreateUser (\<lambda>_. Ext) None ann (NewUserService 7))))),
       snd (CreateUser (\<lambda>_. Ext) None ann (NewUserService 7)))"
    by (simp add: create_closure_def CreateUser_def ann_def NewUserService_def Let_def)
  ultimately show ?thesis using i
    by (intro exI [of _ msg] exI [of _ "snd ?inv"]) (simp add: producer_CreateUser_def)
qed

section \<open>Sending is all or nothing\<close>

text \<open>
  C23. On the in-memory adapter SendBatch is atomic: when it reports success every message of the batch was
  acceptable and they are at the back of the queue, in order, as the envelopes of their
  specifications; when it reports an error no queue has changed.
\<close>

theorem send_batch_atomic:
  assumes "mem_inv a" and "SendBatch marshal Publish uuid now p c q specs a = (ret, a')"
  shows "if ret = None
    then pending a' = (pending a)(q := pending a q @
           map (\<lambda>(i, s). spec_message marshal uuid now p i s) (zip [0 ..< length specs] specs)) \<and>
         list_all (spec_accepts marshal) specs
    else pending a' = pending a"
proof (cases ret)
  case None
  with mem_messages.send_batch_ok [OF assms(1), of marshal uuid now p c q specs a'] assms(2) show ?thesis
    by (simp add: list_all_iff)
next
  case (Some e)
  with mem_messages.send_batch_error [OF assms(1), of marshal uuid now p c q specs e a'] assms(2) show ?thesis by simp
qed

theorem send_batch_atomic_witness:
  "\<exists>a'. SendBatch (\<lambda>x. if x = 0 then Inl (Ext ''bad'') else Inr ''p'') Publish (\<lambda>_. ''id'') (\<lambda>_. 0) (NewProducer ''svc'') None ''q''
       [\<lparr>spec_Topic = ''t'', spec_Action = ''a'', spec_ProtoMessage = 1, spec_Metadata = []\<rparr>,
        \<lparr>spec_Topic = ''t'', spec_Action = ''a'', spec_ProtoMessage = (0 :: nat), spec_Metadata = []\<rparr>] (NewAdapter 3) =
      (Some (Wrap ''failed to marshal message 1 (t.a): '' (Ext ''bad'') ''''), a') \<and>
     pending a' = pending (NewAdapter 3)"
proof -
  let ?specs = "[\<lparr>spec_Topic = ''t'', spec_Action = ''a'', spec_ProtoMessage = 1, spec_Metadata = []\<rparr>,
        \<lparr>spec_Topic = ''t'', spec_Action = ''a'', spec_ProtoMessage = (0 :: nat), spec_Metadata = []\<rparr>]"
  let ?sb = "SendBatch (\<lambda>x. if x = 0 then Inl (Ext ''bad'') else Inr ''p'') Publish (\<lambda>_. ''id'') (\<lambda>_. 0) (NewProducer ''svc'') None
    ''q'' ?specs (NewAdapter 3)"
  have "validateQueueName ''q'' = None" by (rule validateQueueName_ok) (simp_all add: queue_char_def)
  moreover have "validateTopicAction ''t'' ''a'' = None" by (rule validateTopicAction_ok) (simp_all add: IsSpace_def)
  moreover have "fmt_nat 1 = ''1''" by code_simp
  ultimately have r: "fst ?sb = Some (Wrap ''failed to marshal message 1 (t.a): '' (Ext ''bad'') '''')"
    by (simp add: SendBatch_def MaxMessageSize_def)
  then have sb: "?sb = (Some (Wrap ''failed to marshal message 1 (t.a): '' (Ext ''bad'') ''''), snd ?sb)"
    by (metis prod.collapse)
  from send_batch_atomic [OF mem_inv_New sb] sb show ?thesis by auto
qed

section \<open>Calls over HTTP\<close>

lemma valid_name_travels:
  assumes "validateQueueName q = None" and "q \<notin> {''.'', ''..''}"
  shows "CHR ''%'' \<notin> set q" "\<not> dot_name q"
proof -
  note v = validateQueueName_chars [OF assms(1)]
  have "\<not> queue_char (byte CHR ''%'')" by (simp add: queue_char_def)
  with v show "CHR ''%'' \<notin> set q" by (auto simp: list_all_iff)
  from v assms(2) show "\<not> dot_name q" by (simp add: dot_name_def)
qed

text \<open>
  C24. A client need not know whether its queue is local: a call of Invoke through a remote adapter and the
  publish endpoint leaves the in-memory adapter behind the endpoint in exactly the state the same call
  on that adapter leaves it in, and succeeds exactly when that call does, whatever queue and metadata
  its options choose, except for the queue names \<open>.\<close> and \<open>..\<close>.  Protobuf has to read back the envelope.
\<close>

theorem remote_invoke_agrees:
  assumes "endpoint authority auth url" and "option_queue (cc_QueueName (cl_config cl)) opts \<notin> {''.'', ''..''}"
    and "\<And>payload. marshal req = Inr payload \<Longrightarrow>
      codec_on marshal_msg unmarshal_msg
        [envelope (cl_producer cl) svc mth payload uuid now (fold (\<lambda>(k, v). AList.update k v) (option_entries opts) [])]"
  shows "snd (client_Invoke marshal (\<lambda>c q ms. remote_Publish marshal_msg authority (loopback_adapter net unmarshal_msg url) c q (map Some ms))
      uuid now cl c svc mth req (map apply_option opts) a) =
    snd (client_Invoke marshal Publish uuid now cl c svc mth req (map apply_option opts) a) \<and>
   (fst (client_Invoke marshal (\<lambda>c q ms. remote_Publish marshal_msg authority (loopback_adapter net unmarshal_msg url) c q (map Some ms))
      uuid now cl c svc mth req (map apply_option opts) a) = None \<longleftrightarrow>
    fst (client_Invoke marshal Publish uuid now cl c svc mth req (map apply_option opts) a) = None)"
proof -
  let ?q = "option_queue (cc_QueueName (cl_config cl)) opts"
  let ?md = "fold (\<lambda>(k, v). AList.update k v) (option_entries opts) []"
  let ?remote = "\<lambda>c q ms. remote_Publish marshal_msg authority (loopback_adapter net unmarshal_msg url) c q (map Some ms)"
  show ?thesis
  proof (cases "\<exists>payload. send_accepts marshal ?q svc mth req payload")
    case True
    then obtain payload where acc: "send_accepts marshal ?q svc mth req payload" by blast
    then have q: "validateQueueName ?q = None" "marshal req = Inr payload" by (auto simp: send_accepts_def)
    note eq = remote_publish_plain [OF assms(3) [OF q(2)] assms(1) valid_name_travels [OF q(1) assms(2)], of net c a]
    show ?thesis unfolding invoke_sends Send_accepted [OF acc] eq by simp
  next
    case False
    from Send_rejected [OF False, of ?remote uuid now "cl_producer cl" c ?md a]
      Send_rejected [OF False, of Publish uuid now "cl_producer cl" c ?md a]
    show ?thesis unfolding invoke_sends by auto
  qed
qed

theorem remote_invoke_agrees_witness:
  "\<exists>msg a'. producer_CreateUser (\<lambda>_. Inr ''x'')
      (\<lambda>c q ms. remote_Publish (\<lambda>_. Inr ''m'') Some (loopback_adapter (\<lambda>r a. (Inl (Ext ''net''), a)) (\<lambda>_. Inr msg) ''http://queue'') c q (map Some ms))
      ''id'' 5 user_client None ann (map apply_option []) (NewAdapter 3) = (None, a') \<and>
    a' = snd (producer_CreateUser (\<lambda>_. Inr ''x'') Publish ''id'' 5 user_client None ann (map apply_option []) (NewAdapter 3))"
proof -
  let ?msg = "envelope (cl_producer user_client) service_name ''CreateUser'' ''x'' ''id'' 5 []"
  let ?remote = "\<lambda>c q ms. remote_Publish (\<lambda>_. Inr ''m'') Some (loopback_adapter (\<lambda>r a. (Inl (Ext ''net''), a)) (\<lambda>_. Inr ?msg) ''http://queue'') c q (map Some ms)"
  let ?call = "\<lambda>publish. client_Invoke (\<lambda>_. Inr ''x'') publish ''id'' 5 user_client None service_name ''CreateUser'' (ReqCreate ann)
    (map apply_option []) (NewAdapter 3)"
  have "snd (?call ?remote) = snd (?call Publish) \<and> (fst (?call ?remote) = None \<longleftrightarrow> fst (?call Publish) = None)"
    by (rule remote_invoke_agrees [OF endpoint_localhost])
      (simp_all add: option_queue_def user_client_queue codec_on_def option_entries_def)
  with user_call_accepted have "?call ?remote = (None, snd (?call Publish))" by (metis prod.collapse)
  then show ?thesis
    by (intro exI [of _ ?msg] exI [of _ "snd (?call Publish)"]) (simp only: producer_CreateUser_def)
qed

end
